(* ===== verification/Bench_Prelude.thy ===== *)
theory Bench_Prelude
  imports Main "HOL-Library.Word"
begin

text \<open>
  Shared vocabulary of the development: the machine integers of the Rust sources, the
  saturating operations of \<open>core::num\<close>, the fragments of \<open>core::str\<close> the code uses, and the
  generic facts on words, lists and maps that the component theories share.

  The shipped binaries are release builds (the Dockerfiles run \<open>cargo build --release\<close>, and no
  profile sets \<open>overflow-checks\<close>), so \<open>+\<close> and \<open>-\<close> on \<open>u64\<close> wrap; they are the operations of
  \<open>64 word\<close>. Strings and byte buffers are lists of bytes, one \<open>char\<close> (8 bits) per byte.
\<close>

section \<open>Machine integers\<close>

type_synonym u16 = "16 word"
type_synonym u32 = "32 word"
type_synonym u64 = "64 word"
type_synonym i32 = "32 word"
type_synonym i64 = "64 word"
type_synonym usize = "64 word"
type_synonym bytes = string

abbreviation u64_max :: u64 where
  "u64_max \<equiv> - 1"

named_theorems rust_int \<open>reading machine integers as natural numbers\<close>
named_theorems schedule_simps \<open>one-step equations of the scheduler\<close>
named_theorems float_eval \<open>evaluation of binary64 arithmetic on numerals\<close>
named_theorems wire_simps \<open>projections of wire messages\<close>

definition saturating_sub :: "'a::len word \<Rightarrow> 'a word \<Rightarrow> 'a word" where
  "saturating_sub x y = (if y \<le> x then x - y else 0)"

definition saturating_add :: "'a::len word \<Rightarrow> 'a word \<Rightarrow> 'a word" where
  "saturating_add x y = (if unat x + unat y < 2 ^ LENGTH('a) then x + y else - 1)"

definition saturating_mul :: "'a::len word \<Rightarrow> 'a word \<Rightarrow> 'a word" where
  "saturating_mul x y = (if unat x * unat y < 2 ^ LENGTH('a) then x * y else - 1)"

definition clamp_word :: "'a::len word \<Rightarrow> 'a word \<Rightarrow> 'a word \<Rightarrow> 'a word" where
  "clamp_word lo hi x = (if x < lo then lo else if hi < x then hi else x)"

lemma unat_saturating_sub [rust_int]: "unat (saturating_sub x y) = unat x - unat y"
  by (auto simp: saturating_sub_def unat_sub word_le_nat_alt)

lemma unat_max_word_len [rust_int]: "unat (- 1 :: 'a::len word) = 2 ^ LENGTH('a) - 1"
  by (simp add: unsigned_minus_1_eq_mask mask_eq_exp_minus_1)

lemma unat_saturating_add [rust_int]:
  "unat (saturating_add x y) = min (unat x + unat y) (2 ^ LENGTH('a) - 1)" for x y :: "'a::len word"
proof (cases "unat x + unat y < 2 ^ LENGTH('a)")
  case True
  then have "unat (x + y) = unat x + unat y"
    by (simp add: unat_word_ariths)
  with True show ?thesis by (simp add: saturating_add_def)
next
  case False
  then show ?thesis by (simp add: saturating_add_def rust_int)
qed

lemma unat_saturating_mul [rust_int]:
  "unat (saturating_mul x y) = min (unat x * unat y) (2 ^ LENGTH('a) - 1)" for x y :: "'a::len word"
proof (cases "unat x * unat y < 2 ^ LENGTH('a)")
  case True
  then have "unat (x * y) = unat x * unat y"
    by (simp add: unat_word_ariths)
  with True show ?thesis by (simp add: saturating_mul_def)
next
  case False
  then show ?thesis by (simp add: saturating_mul_def rust_int)
qed

lemma unat_add_no_wrap [rust_int]:
  "unat x + unat y < 2 ^ LENGTH('a) \<Longrightarrow> unat (x + y) = unat x + unat y" for x y :: "'a::len word"
  by (simp add: unat_word_ariths)

lemma unat_Suc_no_wrap [rust_int]:
  "Suc (unat x) < 2 ^ LENGTH('a) \<Longrightarrow> unat (x + 1) = Suc (unat x)" for x :: "'a::len word"
  by (cases "LENGTH('a) = 0") (auto simp: unat_word_ariths)

lemma unat_lt: "unat x < 2 ^ 64" for x :: u64
  by (rule order.strict_trans2 [OF unsigned_less]) simp

lemma clamp_word_bounds:
  "lo \<le> hi \<Longrightarrow> lo \<le> clamp_word lo hi x \<and> clamp_word lo hi x \<le> hi"
  by (auto simp: clamp_word_def not_less)

lemma clamp_word_id: "lo \<le> x \<Longrightarrow> x \<le> hi \<Longrightarrow> clamp_word lo hi x = x"
  by (auto simp: clamp_word_def)

lemma clamp_word_mono: "lo \<le> hi \<Longrightarrow> x \<le> y \<Longrightarrow> clamp_word lo hi x \<le> clamp_word lo hi y"
  by (auto simp: clamp_word_def not_less)

declare of_nat_unat [simp del]

section \<open>Strings as bytes\<close>

definition to_ascii_lower_char :: "char \<Rightarrow> char" where
  "to_ascii_lower_char c =
     (let n = (of_char c :: nat) in if 65 \<le> n \<and> n \<le> 90 then char_of (n + 32) else c)"

definition to_ascii_upper_char :: "char \<Rightarrow> char" where
  "to_ascii_upper_char c =
     (let n = (of_char c :: nat) in if 97 \<le> n \<and> n \<le> 122 then char_of (n - 32) else c)"

definition to_ascii_lowercase :: "string \<Rightarrow> string" where
  "to_ascii_lowercase s = map to_ascii_lower_char s"

definition to_ascii_uppercase :: "string \<Rightarrow> string" where
  "to_ascii_uppercase s = map to_ascii_upper_char s"

definition eq_ignore_ascii_case :: "string \<Rightarrow> string \<Rightarrow> bool" where
  "eq_ignore_ascii_case s t \<longleftrightarrow> to_ascii_lowercase s = to_ascii_lowercase t"

fun starts_with :: "string \<Rightarrow> string \<Rightarrow> bool" where
  "starts_with s [] = True"
| "starts_with [] (p # ps) = False"
| "starts_with (c # cs) (p # ps) = (c = p \<and> starts_with cs ps)"

lemma starts_with_append [simp]: "starts_with (p @ s) p"
  by (induction p) auto

lemma starts_with_iff: "starts_with s p \<longleftrightarrow> (\<exists>t. s = p @ t)"
  by (induction s p rule: starts_with.induct) auto

lemma length_to_ascii_lowercase [simp]: "length (to_ascii_lowercase s) = length s"
  by (simp add: to_ascii_lowercase_def)

lemma to_ascii_lowercase_append [simp]:
  "to_ascii_lowercase (s @ t) = to_ascii_lowercase s @ to_ascii_lowercase t"
  by (simp add: to_ascii_lowercase_def)

lemma to_ascii_lower_char_idem [simp]:
  "to_ascii_lower_char (to_ascii_lower_char c) = to_ascii_lower_char c"
proof (cases "65 \<le> (of_char c :: nat) \<and> of_char c \<le> (90 :: nat)")
  case True
  then have "(of_char (char_of (of_char c + 32 :: nat) :: char) :: nat) = of_char c + 32"
    by simp
  with True show ?thesis
    by (simp add: to_ascii_lower_char_def Let_def)
next
  case False
  then show ?thesis by (auto simp: to_ascii_lower_char_def Let_def)
qed

lemma to_ascii_lowercase_idem [simp]:
  "to_ascii_lowercase (to_ascii_lowercase s) = to_ascii_lowercase s"
  by (simp add: to_ascii_lowercase_def)

end
