(* ===== verification/Hash_Map.thy ===== *)
theory Hash_Map
  imports Bench_Prelude "HOL-Library.AList" "HOL-Library.Multiset"
begin

text \<open>
  What the coordinator and the worker node use of \<open>std::collections::HashMap\<close>: a list of entries with distinct keys, whose
  order is that of iteration and means nothing. The locale \<open>registry\<close> is the contract their registries rely on, and
  \<open>tally\<close> the contract of the loops that add up counts over the values of a map or a stream.
\<close>

section \<open>Registries\<close>

locale registry =
  fixes empty :: 'm
    and get :: "'m \<Rightarrow> 'k \<Rightarrow> 'v option"
    and insert :: "'k \<Rightarrow> 'v \<Rightarrow> 'm \<Rightarrow> 'm"
    and remove :: "'k \<Rightarrow> 'm \<Rightarrow> 'm"
    and inv :: "'m \<Rightarrow> bool"
  assumes inv_empty: "inv empty"
    and inv_insert: "inv m \<Longrightarrow> inv (insert k v m)"
    and inv_remove: "inv m \<Longrightarrow> inv (remove k m)"
    and get_empty: "get empty k = None"
    and get_insert: "inv m \<Longrightarrow> get (insert k v m) = (get m)(k \<mapsto> v)"
    and get_remove: "inv m \<Longrightarrow> get (remove k m) = (get m)(k := None)"
begin

lemma get_insert_same: "inv m \<Longrightarrow> get (insert k v m) k = Some v"
  by (simp add: get_insert)

lemma get_other: "inv m \<Longrightarrow> k \<noteq> k' \<Longrightarrow> get (insert k v m) k' = get m k'"
    "inv m \<Longrightarrow> k \<noteq> k' \<Longrightarrow> get (remove k m) k' = get m k'"
  by (simp_all add: get_insert get_remove)

text \<open>An entry that is added and removed again leaves the registry as it was, up to that key.\<close>

lemma insert_remove: "inv m \<Longrightarrow> get (remove k (insert k v m)) = (get m)(k := None)"
  by (simp add: get_insert get_remove inv_insert)

lemma remove_idem: "inv m \<Longrightarrow> get (remove k (remove k m)) = get (remove k m)"
  by (simp add: get_remove inv_remove)

text \<open>Removing the keys of a list.\<close>

lemma inv_removes: "inv m \<Longrightarrow> inv (fold remove ks m)"
  by (induction ks arbitrary: m) (simp_all add: inv_remove)

lemma get_removes: "inv m \<Longrightarrow> get (fold remove ks m) k = (if k \<in> set ks then None else get m k)"
  by (induction ks arbitrary: m) (simp_all add: inv_remove get_remove)

end

definition hm_get :: "('k \<times> 'v) list \<Rightarrow> 'k \<Rightarrow> 'v option" where
  "hm_get m = map_of m"

definition hm_insert :: "'k \<Rightarrow> 'v \<Rightarrow> ('k \<times> 'v) list \<Rightarrow> ('k \<times> 'v) list" where
  "hm_insert k v m = AList.update k v m"

definition hm_remove :: "'k \<Rightarrow> ('k \<times> 'v) list \<Rightarrow> ('k \<times> 'v) list" where
  "hm_remove k m = AList.delete k m"

definition hm_values :: "('k \<times> 'v) list \<Rightarrow> 'v list" where
  "hm_values m = map snd m"

definition hm_wf :: "('k \<times> 'v) list \<Rightarrow> bool" where
  "hm_wf m \<longleftrightarrow> distinct (map fst m)"

interpretation hm: registry "[]" hm_get hm_insert hm_remove hm_wf
  by unfold_locales
    (auto simp: hm_get_def hm_insert_def hm_remove_def hm_wf_def update_conv' delete_conv' distinct_update distinct_delete)

lemma hm_get_in: "hm_wf m \<Longrightarrow> hm_get m k = Some v \<longleftrightarrow> (k, v) \<in> set m"
  by (simp add: hm_get_def hm_wf_def)

lemma hm_keys_insert: "fst ` set (hm_insert k v m) = {k} \<union> fst ` set m"
  unfolding hm_insert_def using dom_update [of k v m] by (simp add: dom_map_of_conv_image_fst)

lemma length_hm_insert: "hm_get m k = None \<Longrightarrow> length (hm_insert k v m) = Suc (length m)"
  unfolding hm_insert_def hm_get_def by (induction m) (auto split: if_splits)

text \<open>Two maps with the same entries have the same values, in some order.\<close>

lemma hm_values_perm:
  assumes "hm_wf m" "hm_wf m'" "hm_get m = hm_get m'"
  shows "mset (hm_values m) = mset (hm_values m')"
proof -
  have "set m = set m'" using assms by (simp add: hm_get_def hm_wf_def map_of_inject_set)
  moreover have "distinct m" "distinct m'" using assms by (simp_all add: hm_wf_def distinct_map)
  ultimately have "mset m = mset m'" by (simp add: set_eq_iff_mset_eq_distinct)
  then show ?thesis by (simp add: hm_values_def)
qed

section \<open>Tallies\<close>

text \<open>
  A loop that takes in items one after the other, seen through one number of its state. The number depends only on which
  items were taken, so the order does not matter: the iteration order of a hash map, or the arrival order of messages.
\<close>

locale tally =
  fixes step :: "'a \<Rightarrow> 's \<Rightarrow> 's"
    and good :: "'a \<Rightarrow> bool"
    and inv :: "'s \<Rightarrow> bool"
    and count :: "'s \<Rightarrow> 'n::comm_monoid_add"
    and weight :: "'a \<Rightarrow> 'n"
  assumes inv_step: "inv s \<Longrightarrow> good x \<Longrightarrow> inv (step x s)"
    and count_step: "inv s \<Longrightarrow> good x \<Longrightarrow> count (step x s) = count s + weight x"
begin

lemma inv_fold: "inv s \<Longrightarrow> \<forall>x\<in>set xs. good x \<Longrightarrow> inv (fold step xs s)"
  by (induction xs arbitrary: s) (simp_all add: inv_step)

lemma count_fold:
  "inv s \<Longrightarrow> \<forall>x\<in>set xs. good x \<Longrightarrow> count (fold step xs s) = count s + sum_list (map weight xs)"
  by (induction xs arbitrary: s) (simp_all add: inv_step count_step ac_simps)

lemma count_perm:
  assumes "inv s" "\<forall>x\<in>set xs. good x" "mset xs = mset ys"
  shows "count (fold step xs s) = count (fold step ys s)"
proof -
  have "sum_list (map weight xs) = sum_list (map weight ys)"
    using assms(3) by (metis mset_map sum_mset_sum_list)
  moreover have "\<forall>x\<in>set ys. good x" using assms(2,3) by (metis mset_eq_setD)
  ultimately show ?thesis by (simp add: count_fold assms(1,2))
qed

end

end
