(* ===== verification/Float64.thy ===== *)
theory Float64
  imports Complex_Main Bench_Prelude
begin

text \<open>
  The \<open>f64\<close> arithmetic of the sources, as IEEE 754 binary64 with round-to-nearest-even: a finite
  value is the rational it denotes, every operation computes exactly and then rounds to 53
  significant bits (subnormals below \<open>2 ^ -1022\<close>, infinities from \<open>2 ^ 1024\<close>). The two zeros are one value: the
  sources never look at the sign of a zero. Casts are those of Rust: \<open>as u64\<close> truncates and
  saturates, and sends NaN to 0.

  The laws of rounding that the components use (it is monotone and keeps small integers) are the
  interface \<open>rounding\<close>; the binary64 rounding interprets it.
\<close>

section \<open>Floors of numeric fractions\<close>

lemma floor_rat_fraction [simp, float_eval]:
  "\<lfloor>numeral a / numeral b :: rat\<rfloor> = numeral a div numeral b"
  "\<lfloor>1 / numeral b :: rat\<rfloor> = 1 div numeral b"
  "\<lfloor>- (numeral a / numeral b) :: rat\<rfloor> = - numeral a div numeral b"
  using floor_divide_of_int_eq [of "numeral a" "numeral b", where ?'a = rat]
    floor_divide_of_int_eq [of 1 "numeral b", where ?'a = rat]
    floor_divide_of_int_eq [of "- numeral a" "numeral b", where ?'a = rat]
  by simp_all

lemma ceiling_rat_fraction [simp, float_eval]:
  "\<lceil>numeral a / numeral b :: rat\<rceil> = - (- numeral a div numeral b)"
  by (simp add: ceiling_def)

section \<open>Powers of two and the exponent of a rational\<close>

definition pow2 :: "int \<Rightarrow> rat" where
  "pow2 e = 2 powi e"

lemma pow2_pos [simp]: "0 < pow2 e"
  by (simp add: pow2_def)

lemma pow2_nonzero [simp]: "pow2 e \<noteq> 0"
  using pow2_pos [of e] by linarith

lemma pow2_add: "pow2 (a + b) = pow2 a * pow2 b"
  by (simp add: pow2_def power_int_add)

lemma pow2_0 [simp]: "pow2 0 = 1"
  by (simp add: pow2_def)

lemma pow2_nat: "pow2 (int n) = 2 ^ n"
  by (simp add: pow2_def)

lemma pow2_minus: "pow2 (- e) = 1 / pow2 e"
  by (simp add: pow2_def power_int_minus_divide)

lemma pow2_Suc: "pow2 (e + 1) = 2 * pow2 e"
  by (simp add: pow2_add) (simp add: pow2_def)

lemma pow2_mono: "a \<le> b \<Longrightarrow> pow2 a \<le> pow2 b"
  by (simp add: pow2_def power_int_increasing)

lemma pow2_less_iff [simp]: "pow2 a < pow2 b \<longleftrightarrow> a < b"
  by (metis leD leI pow2_mono power_int_strict_increasing pow2_def one_less_numeral_iff semiring_norm(76))

fun nbits :: "nat \<Rightarrow> nat" where
  "nbits n = (if n = 0 then 0 else Suc (nbits (n div 2)))"

declare nbits.simps [simp del]

lemma nbits_numeral [float_eval]:
  "nbits 0 = 0" "nbits 1 = 1" "nbits (Suc 0) = 1"
  "nbits (numeral k) = Suc (nbits (numeral k div 2))"
  by (simp_all add: nbits.simps [of "numeral k"] nbits.simps [of "Suc 0"] nbits.simps [of 0])

lemma nbits_upper: "n < 2 ^ nbits n"
proof (induction n rule: nbits.induct)
  case (1 n)
  show ?case
  proof (cases "n = 0")
    case False
    with 1 have "n div 2 < 2 ^ nbits (n div 2)" by simp
    with False show ?thesis by (subst nbits.simps) simp
  qed (simp add: nbits.simps)
qed

lemma nbits_lower: "0 < n \<Longrightarrow> 2 ^ (nbits n - 1) \<le> n"
proof (induction n rule: nbits.induct)
  case (1 n)
  show ?case
  proof (cases "n div 2 = 0")
    case True
    with "1.prems" show ?thesis by (simp add: nbits.simps [of n] nbits.simps [of 0])
  next
    case False
    with 1 have "2 ^ (nbits (n div 2) - 1) \<le> n div 2" by simp
    moreover from False have "0 < nbits (n div 2)" by (simp add: nbits.simps [of "n div 2"])
    ultimately have "2 ^ nbits (n div 2) \<le> n"
      by (cases "nbits (n div 2)") auto
    with "1.prems" show ?thesis by (simp add: nbits.simps [of n])
  qed
qed

lemma nbits_pos: "0 < n \<Longrightarrow> 0 < nbits n"
  by (simp add: nbits.simps [of n])

definition expo :: "rat \<Rightarrow> int" where
  "expo x = (if 1 \<le> x then int (nbits (nat \<lfloor>x\<rfloor>)) - 1 else - int (nbits (nat (\<lceil>1 / x\<rceil> - 1))))"

lemma expo_bounds_large:
  assumes "1 \<le> x"
  shows "pow2 (expo x) \<le> x \<and> x < pow2 (expo x + 1)"
proof -
  define n where "n = nat \<lfloor>x\<rfloor>"
  have n: "0 < n" "of_nat n \<le> x" "x < of_nat (Suc n)"
    using assms by (auto simp: n_def) linarith+
  have e: "expo x = int (nbits n - 1)" "expo x + 1 = int (nbits n)"
    using assms nbits_pos [OF n(1)] by (auto simp: expo_def n_def of_nat_diff)
  have "(2 :: rat) ^ (nbits n - 1) \<le> of_nat n"
    using nbits_lower [OF n(1)] by (metis of_nat_le_iff of_nat_numeral of_nat_power)
  moreover have "of_nat (Suc n) \<le> (2 :: rat) ^ nbits n"
    using nbits_upper [of n] by (metis Suc_leI of_nat_le_iff of_nat_numeral of_nat_power)
  ultimately show ?thesis
    using n unfolding e(2) unfolding e(1) pow2_nat by linarith
qed

lemma expo_bounds_small:
  assumes "0 < x" "x < 1"
  shows "pow2 (expo x) \<le> x \<and> x < pow2 (expo x + 1)"
proof -
  define c where "c = \<lceil>1 / x\<rceil>"
  define m where "m = nat (c - 1)"
  have "1 < 1 / x" using assms by simp
  then have "1 < c" unfolding c_def by (simp only: less_ceiling_iff of_int_1)
  then have "0 < m" and "int m = c - 1"
    by (auto simp: m_def)
  then have mi: "int m = \<lceil>1 / x\<rceil> - 1" by (simp add: c_def)
  have m: "of_nat m < 1 / x" "1 / x \<le> of_nat (Suc m)"
    using mi by (metis (mono_tags) ceiling_less_iff less_ceiling_iff of_int_of_nat_eq zle_diff1_eq order_refl,
        metis (mono_tags) add.commute ceiling_le_iff diff_add_cancel of_int_of_nat_eq of_nat_Suc order_refl)
  have e: "- expo x = int (nbits m)" "- (expo x + 1) = int (nbits m - 1)"
    using assms nbits_pos [OF \<open>0 < m\<close>] by (auto simp: expo_def m_def c_def of_nat_diff)
  have "(2 :: rat) ^ (nbits m - 1) \<le> of_nat m"
    using nbits_lower [OF \<open>0 < m\<close>] by (metis of_nat_le_iff of_nat_numeral of_nat_power)
  then have "pow2 (- (expo x + 1)) < 1 / x"
    unfolding e(2) pow2_nat using m by linarith
  then have "x < pow2 (expo x + 1)"
    using assms unfolding pow2_minus by (simp add: field_simps)
  moreover have "of_nat (Suc m) \<le> (2 :: rat) ^ nbits m"
    using nbits_upper [of m] by (metis Suc_leI of_nat_le_iff of_nat_numeral of_nat_power)
  then have "1 / x \<le> pow2 (- expo x)"
    unfolding e(1) pow2_nat using m by linarith
  then have "pow2 (expo x) \<le> x"
    using assms unfolding pow2_minus by (simp add: field_simps)
  ultimately show ?thesis by simp
qed

lemma expo_bounds: "0 < x \<Longrightarrow> pow2 (expo x) \<le> x \<and> x < pow2 (expo x + 1)"
  using expo_bounds_large expo_bounds_small by (cases "1 \<le> x") auto

lemma expo_mono: "0 < x \<Longrightarrow> x \<le> y \<Longrightarrow> expo x \<le> expo y"
  using expo_bounds [of x] expo_bounds [of y] pow2_less_iff [of "expo x" "expo y + 1"] by linarith

lemma expo_unique: "0 < x \<Longrightarrow> pow2 e \<le> x \<Longrightarrow> x < pow2 (e + 1) \<Longrightarrow> expo x = e"
  using expo_bounds [of x] pow2_less_iff [of "expo x" "e + 1"] pow2_less_iff [of e "expo x + 1"] by linarith

section \<open>Rounding to binary64\<close>

text \<open>Round half to even on integers, then on the grid of 53-bit significands.\<close>

definition round_half_even :: "rat \<Rightarrow> int" where
  "round_half_even x =
     (let n = \<lfloor>x\<rfloor>; d = x - of_int n
      in if d < 1 / 2 then n else if 1 / 2 < d then n + 1 else if even n then n else n + 1)"

lemma round_half_even_int [simp]: "round_half_even (of_int n) = n"
  by (simp add: round_half_even_def)

lemma round_half_even_floor: "\<lfloor>x\<rfloor> \<le> round_half_even x \<and> round_half_even x \<le> \<lfloor>x\<rfloor> + 1"
  by (simp add: round_half_even_def Let_def)

lemma round_half_even_mono: "x \<le> y \<Longrightarrow> round_half_even x \<le> round_half_even y"
proof (cases "\<lfloor>x\<rfloor> = \<lfloor>y\<rfloor>")
  case True
  then show "x \<le> y \<Longrightarrow> ?thesis" by (auto simp: round_half_even_def Let_def)
next
  case False
  assume "x \<le> y"
  with False have "\<lfloor>x\<rfloor> + 1 \<le> \<lfloor>y\<rfloor>" using floor_mono [of x y] by linarith
  then show ?thesis using round_half_even_floor [of x] round_half_even_floor [of y] by linarith
qed

lemma round_half_even_dist: "\<bar>of_int (round_half_even x) - x\<bar> \<le> 1 / 2"
proof -
  have "of_int \<lfloor>x\<rfloor> \<le> x" "x < of_int \<lfloor>x\<rfloor> + 1" by linarith+
  then show ?thesis
    unfolding round_half_even_def Let_def by (auto simp: abs_le_iff)
qed

definition grid :: "rat \<Rightarrow> rat" where
  "grid x = pow2 (max (expo x) (- 1022) - 52)"

definition round_pos :: "rat \<Rightarrow> rat" where
  "round_pos x = of_int (round_half_even (x / grid x)) * grid x"

definition round64 :: "rat \<Rightarrow> rat" where
  "round64 x = (if x = 0 then 0 else if 0 < x then round_pos x else - round_pos (- x))"

lemma grid_pos [simp]: "0 < grid x"
  by (simp add: grid_def)

lemma grid_nonzero [simp]: "grid x \<noteq> 0"
  using grid_pos [of x] by linarith

lemma of_int_pow2_nat: "of_int (2 ^ n) = pow2 (int n)"
  by (simp add: pow2_nat)

text \<open>A value at least one binade below another rounds no higher than the other's binade.\<close>

lemma round_pos_upper:
  assumes "0 < x" "expo x < e" "- 1022 < e"
  shows "round_pos x \<le> pow2 e"
proof -
  define k where "k = e - (max (expo x) (- 1022) - 52)"
  have k: "0 \<le> k" "pow2 e = pow2 k * grid x"
    using assms by (auto simp: k_def grid_def pow2_add [symmetric])
  then obtain n where n: "k = int n" using nonneg_int_cases by blast
  have "x \<le> pow2 e"
    using expo_bounds [OF assms(1)] assms(2) pow2_mono [of "expo x + 1" e] by linarith
  then have "x / grid x \<le> of_int (2 ^ n)"
    using k by (simp add: divide_le_eq n pow2_nat)
  from round_half_even_mono [OF this] have "round_half_even (x / grid x) \<le> 2 ^ n"
    by (simp only: round_half_even_int)
  then have "of_int (round_half_even (x / grid x)) \<le> (of_int (2 ^ n) :: rat)"
    by (simp only: of_int_le_iff)
  then have "round_pos x \<le> of_int (2 ^ n) * grid x"
    unfolding round_pos_def by (intro mult_right_mono) (auto simp: less_imp_le)
  with k n show ?thesis by (simp add: pow2_nat)
qed

lemma round_pos_lower:
  assumes "0 < x" "e \<le> expo x" "- 1022 \<le> e"
  shows "pow2 e \<le> round_pos x"
proof -
  define k where "k = e - (max (expo x) (- 1022) - 52)"
  show ?thesis
  proof (cases "expo x = e")
    case True
    then have k52: "pow2 e = of_int (2 ^ 52) * grid x"
      using assms pow2_add [of 52 "e - 52"] pow2_nat [of 52] by (simp add: grid_def max_def)
    have "pow2 e \<le> x" using expo_bounds [OF assms(1)] True by simp
    then have "of_int (2 ^ 52) \<le> x / grid x"
      unfolding k52 by (simp add: le_divide_eq)
    from round_half_even_mono [OF this] have "2 ^ 52 \<le> round_half_even (x / grid x)"
      by (simp only: round_half_even_int)
    then have "(of_int (2 ^ 52) :: rat) \<le> of_int (round_half_even (x / grid x))"
      by (simp only: of_int_le_iff)
    then show ?thesis
      unfolding round_pos_def k52 by (intro mult_right_mono) (auto simp: less_imp_le)
  next
    case False
    have g: "pow2 (expo x) = of_int (2 ^ 52) * grid x"
      using assms False pow2_add [of 52 "expo x - 52"] pow2_nat [of 52] by (simp add: grid_def max_def)
    have "of_int (2 ^ 52) \<le> x / grid x"
      using expo_bounds [OF assms(1)] unfolding g by (simp add: le_divide_eq)
    from round_half_even_mono [OF this] have "2 ^ 52 \<le> round_half_even (x / grid x)"
      by (simp only: round_half_even_int)
    then have "(of_int (2 ^ 52) :: rat) \<le> of_int (round_half_even (x / grid x))"
      by (simp only: of_int_le_iff)
    then have "pow2 (expo x) \<le> round_pos x"
      unfolding round_pos_def g by (intro mult_right_mono) (auto simp: less_imp_le)
    with pow2_mono [OF assms(2)] show ?thesis by linarith
  qed
qed

lemma round_pos_nonneg: "0 < x \<Longrightarrow> 0 \<le> round_pos x"
proof -
  assume "0 < x"
  then have "0 \<le> \<lfloor>x / grid x\<rfloor>" by (simp add: less_imp_le)
  then have "0 \<le> round_half_even (x / grid x)" using round_half_even_floor [of "x / grid x"] by linarith
  then show ?thesis by (simp add: round_pos_def less_imp_le)
qed

lemma round_pos_mono:
  assumes "0 < x" "x \<le> y"
  shows "round_pos x \<le> round_pos y"
proof (cases "max (expo x) (- 1022) = max (expo y) (- 1022)")
  case True
  then have g: "grid x = grid y" by (simp add: grid_def)
  have "x / grid x \<le> y / grid y"
    unfolding g using assms by (simp add: divide_right_mono less_imp_le)
  from round_half_even_mono [OF this] show ?thesis
    unfolding round_pos_def g by (intro mult_right_mono) (auto simp: less_imp_le g)
next
  case False
  then have "expo x < expo y" "- 1022 < expo y"
    using expo_mono [OF assms] by auto
  then have "round_pos x \<le> pow2 (expo y)" "pow2 (expo y) \<le> round_pos y"
    using assms by (auto intro: round_pos_upper round_pos_lower)
  then show ?thesis by linarith
qed

lemma round64_mono: "x \<le> y \<Longrightarrow> round64 x \<le> round64 y"
  using round_pos_mono [of x y] round_pos_mono [of "- y" "- x"]
    round_pos_nonneg [of y] round_pos_nonneg [of "- x"]
  by (auto simp: round64_def)

lemma round64_0 [simp]: "round64 0 = 0"
  by (simp add: round64_def)

text \<open>Integers of up to 53 bits are on the grid, so rounding keeps them.\<close>

lemma round_pos_nat:
  assumes "0 < n" "n \<le> 2 ^ 53"
  shows "round_pos (of_nat n) = of_nat n"
proof -
  have n1: "(1 :: rat) \<le> of_nat n" using assms by simp
  have e0: "0 \<le> expo (of_nat n)" using n1 by (simp add: expo_def nbits_pos assms)
  show ?thesis
  proof (cases "expo (of_nat n) \<le> 52")
    case True
    define k where "k = nat (52 - expo (of_nat n))"
    have k: "int k = 52 - expo (of_nat n)" using True by (simp add: k_def)
    have g: "grid (of_nat n) = 1 / 2 ^ k"
      using e0 k pow2_minus [of "int k"] pow2_nat [of k] by (simp add: grid_def max_def)
    have "of_nat n / grid (of_nat n) = of_int (int n * 2 ^ k)"
      by (simp add: g)
    then show ?thesis
      unfolding round_pos_def by (simp only: round_half_even_int) (simp add: g)
  next
    case False
    then have "pow2 53 \<le> of_nat n"
      using expo_bounds [of "of_nat n"] pow2_mono [of 53 "expo (of_nat n)"] n1 by simp
    moreover have "of_nat n \<le> (of_nat (2 ^ 53) :: rat)" using assms(2) by (simp only: of_nat_le_iff)
    ultimately have nn: "of_nat n = pow2 53"
      using pow2_nat [of 53] by simp
    then have "expo (of_nat n) = 53"
      by (intro expo_unique) auto
    then have "grid (of_nat n) = 2" by (simp add: grid_def pow2_def)
    then show ?thesis
      unfolding round_pos_def nn
      using round_half_even_int [of "2 ^ 52"] by (simp add: pow2_def)
  qed
qed

lemma round64_nat: "n \<le> 2 ^ 53 \<Longrightarrow> round64 (of_nat n) = of_nat n"
  by (cases "n = 0") (auto simp: round64_def round_pos_nat)

lemma round64_int: "\<bar>z\<bar> \<le> 2 ^ 53 \<Longrightarrow> round64 (of_int z) = of_int z"
proof (cases "0 \<le> z")
  case True
  assume "\<bar>z\<bar> \<le> 2 ^ 53"
  with True show ?thesis
    using round64_nat [of "nat z"] by (simp add: nat_le_eq_zle)
next
  case False
  assume "\<bar>z\<bar> \<le> 2 ^ 53"
  with False have "round_pos (of_nat (nat (- z))) = of_nat (nat (- z))"
    by (intro round_pos_nat) auto
  with False show ?thesis by (simp add: round64_def)
qed

section \<open>The interface of a rounding function\<close>

text \<open>
  What the scheduler and the bucket arithmetic rely on: rounding is monotone and exact on the integers a double holds.
\<close>

locale rounding =
  fixes rnd :: "rat \<Rightarrow> rat"
  assumes rnd_mono: "x \<le> y \<Longrightarrow> rnd x \<le> rnd y"
    and rnd_int: "\<bar>z\<bar> \<le> 2 ^ 53 \<Longrightarrow> rnd (of_int z) = of_int z"
begin

lemma rnd_zero: "rnd 0 = 0"
  using rnd_int [of 0] by simp

lemma rnd_nonneg: "0 \<le> x \<Longrightarrow> 0 \<le> rnd x"
  using rnd_mono [of 0 x] by (simp add: rnd_zero)

lemma rnd_nonpos: "x \<le> 0 \<Longrightarrow> rnd x \<le> 0"
  using rnd_mono [of x 0] by (simp add: rnd_zero)

lemma rnd_floor_le: "\<bar>\<lfloor>x\<rfloor>\<bar> \<le> 2 ^ 53 \<Longrightarrow> of_int \<lfloor>x\<rfloor> \<le> rnd x"
  using rnd_mono [of "of_int \<lfloor>x\<rfloor>" x] by (simp add: rnd_int)

lemma rnd_le_ceiling: "\<bar>\<lceil>x\<rceil>\<bar> \<le> 2 ^ 53 \<Longrightarrow> rnd x \<le> of_int \<lceil>x\<rceil>"
  using rnd_mono [of x "of_int \<lceil>x\<rceil>"] by (simp add: rnd_int)

text \<open>Truncating a rounded value is off by at most one, and never below the exact truncation.\<close>

lemma floor_rnd:
  assumes "0 \<le> x" "x < 2 ^ 53"
  shows "\<lfloor>x\<rfloor> \<le> \<lfloor>rnd x\<rfloor>" and "\<lfloor>rnd x\<rfloor> \<le> \<lfloor>x\<rfloor> + 1"
proof -
  have f: "0 \<le> \<lfloor>x\<rfloor>" "\<lfloor>x\<rfloor> < 2 ^ 53"
    using assms by (auto simp: floor_less_iff)
  then have "of_int \<lfloor>x\<rfloor> \<le> rnd x" by (intro rnd_floor_le) auto
  then show "\<lfloor>x\<rfloor> \<le> \<lfloor>rnd x\<rfloor>" by (simp add: le_floor_iff)
  have "x \<le> of_int (\<lfloor>x\<rfloor> + 1)" by linarith
  then have "rnd x \<le> of_int (\<lfloor>x\<rfloor> + 1)"
    using rnd_mono [of x "of_int (\<lfloor>x\<rfloor> + 1)"] rnd_int [of "\<lfloor>x\<rfloor> + 1"] f by simp
  then show "\<lfloor>rnd x\<rfloor> \<le> \<lfloor>x\<rfloor> + 1" by linarith
qed

end

interpretation b64: rounding round64
  by unfold_locales (auto intro: round64_mono round64_int)

section \<open>The values of type f64\<close>

datatype f64 = Fin (rat_of: rat) | PInf | NInf | NaN

definition overflow_threshold :: rat where
  "overflow_threshold = 2 ^ 1024"

lemma overflow_threshold_large: "2 ^ 65 < overflow_threshold"
  unfolding overflow_threshold_def by (rule power_strict_increasing) simp_all

lemma overflow_threshold_pos: "0 < overflow_threshold"
  unfolding overflow_threshold_def by (rule zero_less_power) simp

definition mk64 :: "rat \<Rightarrow> f64" where
  "mk64 x = (let r = round64 x
             in if overflow_threshold \<le> r then PInf
                else if r \<le> - overflow_threshold then NInf else Fin r)"

lemma mk64_Fin: "\<bar>round64 x\<bar> \<le> 2 ^ 65 \<Longrightarrow> mk64 x = Fin (round64 x)"
  using overflow_threshold_large by (simp add: mk64_def abs_le_iff)

lemma mk64_int: "\<bar>z\<bar> \<le> 2 ^ 53 \<Longrightarrow> mk64 (of_int z) = Fin (of_int z)"
proof -
  assume z: "\<bar>z\<bar> \<le> 2 ^ 53"
  then have "(of_int \<bar>z\<bar> :: rat) \<le> of_int (2 ^ 53)" by (simp only: of_int_le_iff)
  then have "\<bar>of_int z\<bar> \<le> (2 ^ 65 :: rat)" by (simp add: abs_le_iff)
  with z show ?thesis by (simp add: mk64_Fin round64_int)
qed

instantiation f64 :: "{zero, one, plus, times, inverse, ord}"
begin

definition zero_f64 :: f64 where
  "zero_f64 = Fin 0"

definition one_f64 :: f64 where
  "one_f64 = Fin 1"

definition inf_of_sign :: "rat \<Rightarrow> f64" where
  "inf_of_sign x = (if 0 < x then PInf else if x < 0 then NInf else NaN)"

fun plus_f64 :: "f64 \<Rightarrow> f64 \<Rightarrow> f64" where
  "plus_f64 NaN y = NaN"
| "plus_f64 x NaN = NaN"
| "plus_f64 PInf NInf = NaN"
| "plus_f64 NInf PInf = NaN"
| "plus_f64 PInf y = PInf"
| "plus_f64 NInf y = NInf"
| "plus_f64 x PInf = PInf"
| "plus_f64 x NInf = NInf"
| "plus_f64 (Fin x) (Fin y) = mk64 (x + y)"

fun times_f64 :: "f64 \<Rightarrow> f64 \<Rightarrow> f64" where
  "times_f64 NaN y = NaN"
| "times_f64 x NaN = NaN"
| "times_f64 PInf PInf = PInf"
| "times_f64 PInf NInf = NInf"
| "times_f64 NInf PInf = NInf"
| "times_f64 NInf NInf = PInf"
| "times_f64 PInf (Fin y) = inf_of_sign y"
| "times_f64 NInf (Fin y) = inf_of_sign (- y)"
| "times_f64 (Fin x) PInf = inf_of_sign x"
| "times_f64 (Fin x) NInf = inf_of_sign (- x)"
| "times_f64 (Fin x) (Fin y) = mk64 (x * y)"

fun divide_f64 :: "f64 \<Rightarrow> f64 \<Rightarrow> f64" where
  "divide_f64 NaN y = NaN"
| "divide_f64 x NaN = NaN"
| "divide_f64 (Fin x) (Fin y) = (if y = 0 then inf_of_sign x else mk64 (x / y))"
| "divide_f64 (Fin x) y = Fin 0"
| "divide_f64 PInf (Fin y) = (if y < 0 then NInf else PInf)"
| "divide_f64 NInf (Fin y) = (if y < 0 then PInf else NInf)"
| "divide_f64 x y = NaN"

definition inverse_f64 :: "f64 \<Rightarrow> f64" where
  "inverse_f64 x = Fin 1 div x"

fun less_f64 :: "f64 \<Rightarrow> f64 \<Rightarrow> bool" where
  "less_f64 (Fin x) (Fin y) = (x < y)"
| "less_f64 NInf (Fin y) = True"
| "less_f64 NInf PInf = True"
| "less_f64 (Fin x) PInf = True"
| "less_f64 _ _ = False"

definition less_eq_f64 :: "f64 \<Rightarrow> f64 \<Rightarrow> bool" where
  "less_eq_f64 x y \<longleftrightarrow> x < y \<or> (x = y \<and> x \<noteq> NaN)"

instance ..

end

lemma pow2_eval [float_eval]:
  "pow2 0 = 1" "pow2 1 = 2" "pow2 (- 1) = 1 / 2"
  "pow2 (numeral k) = 2 ^ numeral k" "pow2 (- numeral k) = 1 / 2 ^ numeral k"
  by (simp_all add: pow2_def power_int_def power_one_over)

lemmas round64_eval [float_eval] =
  round64_def round_pos_def grid_def expo_def round_half_even_def Let_def mk64_Fin

text \<open>Comparison is an order on the values other than NaN.\<close>

lemma less_eq_f64_Fin [simp]: "Fin x \<le> Fin y \<longleftrightarrow> x \<le> y"
  by (auto simp: less_eq_f64_def)

lemma less_eq_f64_simps [simp]:
  "x \<noteq> NaN \<Longrightarrow> x \<le> PInf" "x \<noteq> NaN \<Longrightarrow> NInf \<le> x" "\<not> NaN \<le> x" "\<not> x \<le> NaN"
  by (cases x; simp add: less_eq_f64_def)+

lemma less_eq_f64_inf [simp]:
  "\<not> PInf \<le> Fin y" "\<not> PInf \<le> NInf" "\<not> Fin y \<le> NInf"
  by (auto simp: less_eq_f64_def)

lemma less_eq_f64_trans: "(x :: f64) \<le> y \<Longrightarrow> y \<le> z \<Longrightarrow> x \<le> z"
  by (cases x; cases y; cases z) (auto simp: less_eq_f64_def)

lemma mk64_not_NaN [simp]: "mk64 x \<noteq> NaN"
  by (simp add: mk64_def Let_def)

lemma mk64_mono: "x \<le> y \<Longrightarrow> mk64 x \<le> mk64 y"
proof -
  assume "x \<le> y"
  then have "round64 x \<le> round64 y" by (rule round64_mono)
  moreover have "- overflow_threshold < overflow_threshold" using overflow_threshold_pos by linarith
  ultimately show ?thesis unfolding mk64_def Let_def by auto
qed

section \<open>Casts\<close>

definition of_u64 :: "u64 \<Rightarrow> f64" where
  "of_u64 w = Fin (round64 (of_nat (unat w)))"

definition trunc_u64 :: "rat \<Rightarrow> u64" where
  "trunc_u64 x = (if x < 1 then 0 else if 2 ^ 64 \<le> x then u64_max else word_of_int \<lfloor>x\<rfloor>)"

fun as_u64 :: "f64 \<Rightarrow> u64" where
  "as_u64 (Fin x) = trunc_u64 x"
| "as_u64 PInf = u64_max"
| "as_u64 NInf = 0"
| "as_u64 NaN = 0"

text \<open>A decimal literal of the source denotes the nearest double.\<close>

abbreviation f64_lit :: "rat \<Rightarrow> f64" where
  "f64_lit x \<equiv> mk64 x"

lemmas cast_eval [float_eval] = of_u64_def trunc_u64_def zero_f64_def one_f64_def

lemma uint_trunc_u64:
  "uint (trunc_u64 x) = (if x < 1 then 0 else if 2 ^ 64 \<le> x then 2 ^ 64 - 1 else \<lfloor>x\<rfloor>)"
proof (cases "x < 1 \<or> 2 ^ 64 \<le> x")
  case True
  then show ?thesis
    by (auto simp: trunc_u64_def unsigned_minus_1_eq_mask mask_eq_exp_minus_1)
next
  case False
  then have "0 \<le> \<lfloor>x\<rfloor>" "\<lfloor>x\<rfloor> < 2 ^ 64" by (auto simp: floor_less_iff)
  with False show ?thesis by (simp add: trunc_u64_def uint_word_of_int)
qed

lemma trunc_u64_mono: "x \<le> y \<Longrightarrow> trunc_u64 x \<le> trunc_u64 y"
proof -
  assume xy: "x \<le> y"
  have "1 \<le> \<lfloor>z\<rfloor>" if "\<not> z < 1" for z :: rat using that by (simp add: le_floor_iff)
  moreover have "\<lfloor>z\<rfloor> \<le> 2 ^ 64 - 1" if "\<not> 2 ^ 64 \<le> z" for z :: rat
    using that by (simp add: floor_le_iff)
  ultimately show ?thesis
    using xy floor_mono [OF xy] by (fastforce simp: word_le_def uint_trunc_u64)
qed

lemma as_u64_mono: "x \<le> y \<Longrightarrow> as_u64 x \<le> as_u64 y"
  by (cases x; cases y) (auto simp: trunc_u64_mono less_eq_f64_def)

lemma of_u64_mono: "v \<le> w \<Longrightarrow> rat_of (of_u64 v) \<le> rat_of (of_u64 w)"
  by (simp add: of_u64_def round64_mono word_le_nat_alt)

lemma of_u64_nonneg: "0 \<le> rat_of (of_u64 w)"
  by (simp add: of_u64_def b64.rnd_nonneg)

lemma of_u64_Fin: "of_u64 w = Fin (rat_of (of_u64 w))"
  by (simp add: of_u64_def)

lemma of_u64_small: "unat w \<le> 2 ^ 53 \<Longrightarrow> of_u64 w = Fin (of_nat (unat w))"
  by (simp add: of_u64_def round64_nat)

text \<open>
  Truncating a quotient is monotone in the dividend for every divisor, also the degenerate ones:
  a negative, infinite or NaN divisor truncates to 0, and a zero divisor saturates.
\<close>

lemma mk64_nonpos: "x \<le> 0 \<Longrightarrow> as_u64 (mk64 x) = 0"
proof -
  assume "x \<le> 0"
  then have "round64 x \<le> 0" by (rule b64.rnd_nonpos)
  moreover have "\<not> overflow_threshold \<le> round64 x"
    using calculation overflow_threshold_pos by linarith
  ultimately show ?thesis by (simp add: mk64_def Let_def trunc_u64_def)
qed

lemma as_u64_divide_mono:
  assumes "0 \<le> x" "x \<le> y"
  shows "as_u64 (Fin x / t) \<le> as_u64 (Fin y / t)"
proof (cases t)
  case (Fin r)
  consider "r = 0" | "r < 0" | "0 < r" by linarith
  then show ?thesis
  proof cases
    case 1
    with Fin assms show ?thesis by (auto simp: inf_of_sign_def)
  next
    case 2
    with assms have "x / r \<le> 0" "y / r \<le> 0" by (auto simp: divide_nonneg_neg)
    with Fin 2 show ?thesis by (simp add: mk64_nonpos)
  next
    case 3
    with assms have "x / r \<le> y / r" by (simp add: divide_right_mono)
    with Fin 3 show ?thesis by (simp add: as_u64_mono mk64_mono)
  qed
qed auto

lemma as_u64_divide_u64_mono: "v \<le> w \<Longrightarrow> as_u64 (of_u64 v / t) \<le> as_u64 (of_u64 w / t)"
  using as_u64_divide_mono [OF of_u64_nonneg of_u64_mono] of_u64_Fin by metis

lemma mk64_0 [simp]: "mk64 0 = Fin 0"
  using mk64_int [of 0] by simp

lemma as_u64_0_divide [simp]: "as_u64 (of_u64 0 / t) = 0"
  by (cases t) (auto simp: of_u64_def inf_of_sign_def trunc_u64_def)

section \<open>Square root, floor, minimum\<close>

fun isqrt :: "nat \<Rightarrow> nat" where
  "isqrt n = (if n = 0 then 0
     else let r = 2 * isqrt (n div 4) in if (r + 1) * (r + 1) \<le> n then r + 1 else r)"

declare isqrt.simps [simp del]

lemma isqrt_bounds: "isqrt n * isqrt n \<le> n \<and> n < Suc (isqrt n) * Suc (isqrt n)"
proof (induction n rule: isqrt.induct)
  case (1 n)
  show ?case
  proof (cases "n = 0")
    case False
    define q where "q = isqrt (n div 4)"
    from 1 False have q: "q * q \<le> n div 4" "n div 4 < Suc q * Suc q" by (auto simp: q_def)
    then have "4 * (q * q) \<le> n" "n < 4 * (Suc q * Suc q)" by linarith+
    then show ?thesis
      using False by (subst isqrt.simps, subst isqrt.simps) (auto simp: Let_def q_def [symmetric] algebra_simps isqrt.simps [of n])
  qed (simp add: isqrt.simps)
qed

lemma le_isqrt_iff: "k \<le> isqrt n \<longleftrightarrow> k * k \<le> n"
proof
  assume "k \<le> isqrt n"
  then have "k * k \<le> isqrt n * isqrt n" by (rule mult_le_mono) fact
  with isqrt_bounds [of n] show "k * k \<le> n" by linarith
next
  assume "k * k \<le> n"
  show "k \<le> isqrt n"
  proof (rule ccontr)
    assume "\<not> k \<le> isqrt n"
    then have "Suc (isqrt n) \<le> k" by simp
    then have "Suc (isqrt n) * Suc (isqrt n) \<le> k * k" by (rule mult_le_mono) fact
    with isqrt_bounds [of n] \<open>k * k \<le> n\<close> show False by linarith
  qed
qed

text \<open>
  The square root of a positive rational, to 55 bits with a sticky half: twice the integer root of the scaled
  argument, plus one when that root is inexact. It compares with every 55-bit integer as the exact root does
  (\<open>sticky_root_le\<close>, \<open>le_sticky_root\<close>), so rounding it to 53 bits rounds the exact root.
\<close>

definition root_scale :: "rat \<Rightarrow> int" where
  "root_scale x = 54 - expo x div 2"

definition scaled :: "rat \<Rightarrow> rat" where
  "scaled x = x * pow2 (2 * root_scale x)"

definition sticky_root :: "rat \<Rightarrow> rat" where
  "sticky_root X = (let q = isqrt (nat \<lfloor>X\<rfloor>)
     in of_nat q + (if of_nat (q * q) = X then 0 else 1 / 2))"

definition sqrt_pos :: "rat \<Rightarrow> rat" where
  "sqrt_pos x = sticky_root (scaled x) * pow2 (- root_scale x)"

fun f64_sqrt :: "f64 \<Rightarrow> f64" where
  "f64_sqrt (Fin x) = (if x < 0 then NaN else if x = 0 then Fin 0 else mk64 (sqrt_pos x))"
| "f64_sqrt PInf = PInf"
| "f64_sqrt NInf = NaN"
| "f64_sqrt NaN = NaN"

fun f64_floor :: "f64 \<Rightarrow> f64" where
  "f64_floor (Fin x) = Fin (of_int \<lfloor>x\<rfloor>)"
| "f64_floor x = x"

definition f64_min :: "f64 \<Rightarrow> f64 \<Rightarrow> f64" where
  "f64_min x y = (if x = NaN then y else if y = NaN then x else if x < y then x else y)"

definition f64_clamp :: "f64 \<Rightarrow> f64 \<Rightarrow> f64 \<Rightarrow> f64" where
  "f64_clamp x lo hi =
     (let x1 = (if x < lo then lo else x) in if hi < x1 then hi else x1)"

lemma floor_square_le: "0 \<le> X \<Longrightarrow> k * k \<le> nat \<lfloor>X\<rfloor> \<longleftrightarrow> of_nat (k * k) \<le> X" for X :: rat
  by (metis le_floor_iff le_nat_iff of_int_of_nat_eq zero_le_floor)

lemma le_sticky_root: "0 \<le> X \<Longrightarrow> of_nat k \<le> sticky_root X \<longleftrightarrow> of_nat (k * k) \<le> X"
proof -
  assume X: "0 \<le> X"
  define q where "q = isqrt (nat \<lfloor>X\<rfloor>)"
  have "of_nat k \<le> sticky_root X \<longleftrightarrow> k \<le> q"
  proof (cases "k \<le> q")
    case True
    then have "(of_nat k :: rat) \<le> of_nat q" by simp
    then show ?thesis using True by (auto simp: sticky_root_def Let_def q_def [symmetric])
  next
    case False
    then have "(of_nat q :: rat) + 1 \<le> of_nat k" by (metis Suc_leI not_le of_nat_Suc of_nat_le_iff add.commute)
    then show ?thesis using False by (auto simp: sticky_root_def Let_def q_def [symmetric])
  qed
  then show ?thesis using floor_square_le [OF X] by (simp only: q_def le_isqrt_iff)
qed

lemma sticky_root_exact: "0 \<le> X \<Longrightarrow> sticky_root X = of_nat k \<longleftrightarrow> X = of_nat (k * k)"
proof
  assume X: "0 \<le> X"
  define q where "q = isqrt (nat \<lfloor>X\<rfloor>)"
  assume eq: "sticky_root X = of_nat k"
  then have ex: "of_nat (q * q) = X"
  proof (rule contrapos_pp)
    assume "of_nat (q * q) \<noteq> X"
    then have "2 * sticky_root X = of_nat (2 * q + 1)"
      by (simp add: sticky_root_def Let_def q_def)
    moreover have "2 * q + 1 \<noteq> 2 * k" by presburger
    ultimately show "sticky_root X \<noteq> of_nat k"
      by (metis of_nat_eq_iff of_nat_mult of_nat_numeral)
  qed
  then have "of_nat q = (of_nat k :: rat)" using eq by (simp add: sticky_root_def Let_def q_def)
  then show "X = of_nat (k * k)" using ex by (simp only: of_nat_eq_iff)
next
  assume X: "0 \<le> X" and eq: "X = of_nat (k * k)"
  have "isqrt (k * k) = k"
    using le_isqrt_iff [of k "k * k"] isqrt_bounds [of "k * k"]
    by (metis le_antisym le_isqrt_iff mult_le_mono nat_le_linear order_refl le_square mult_le_cancel2 power2_nat_le_eq_le power2_eq_square)
  moreover have "nat \<lfloor>X\<rfloor> = k * k" by (simp only: eq floor_of_nat nat_int)
  ultimately show "sticky_root X = of_nat k" by (simp add: sticky_root_def Let_def eq)
qed

lemma sticky_root_le:
  assumes "0 \<le> X" shows "sticky_root X \<le> of_nat k \<longleftrightarrow> X \<le> of_nat (k * k)"
  using le_sticky_root [OF assms, of k] sticky_root_exact [OF assms, of k] by linarith

lemma sticky_root_mono: "0 \<le> X \<Longrightarrow> X \<le> Y \<Longrightarrow> sticky_root X \<le> sticky_root Y"
proof -
  assume X: "0 \<le> X" and XY: "X \<le> Y"
  define p where "p = isqrt (nat \<lfloor>X\<rfloor>)"
  define q where "q = isqrt (nat \<lfloor>Y\<rfloor>)"
  have Y: "0 \<le> Y" using X XY by linarith
  have pX: "of_nat (p * p) \<le> X"
    using isqrt_bounds [of "nat \<lfloor>X\<rfloor>"] floor_square_le [OF X, of p] by (simp only: p_def)
  then have "of_nat (p * p) \<le> Y" using XY by linarith
  then have pq: "p \<le> q"
    unfolding q_def le_isqrt_iff using floor_square_le [OF Y, of p] by blast
  show ?thesis
  proof (cases "p = q")
    case True
    then have "of_nat (q * q) = Y \<Longrightarrow> of_nat (p * p) = X" using pX XY by simp
    then show ?thesis using True by (auto simp: sticky_root_def Let_def p_def [symmetric] q_def [symmetric])
  next
    case False
    then have "(of_nat p :: rat) + 1 \<le> of_nat q" using pq by (metis Suc_leI add.commute le_neq_implies_less of_nat_Suc of_nat_le_iff)
    then show ?thesis by (auto simp: sticky_root_def Let_def p_def [symmetric] q_def [symmetric])
  qed
qed

lemma scaled_bounds:
  assumes "0 < x"
  shows "of_nat (2 ^ 54 * 2 ^ 54) \<le> scaled x" and "scaled x \<le> of_nat (2 ^ 55 * 2 ^ 55)"
proof -
  define e where "e = expo x"
  have r: "108 - e \<le> 2 * root_scale x" "2 * root_scale x \<le> 109 - e"
    by (auto simp: root_scale_def e_def)
  have "pow2 108 \<le> pow2 e * pow2 (2 * root_scale x)"
    using r by (simp add: pow2_add [symmetric] pow2_mono)
  also have "\<dots> \<le> scaled x"
    using expo_bounds [OF assms] unfolding scaled_def e_def by (intro mult_right_mono) (auto simp: less_imp_le)
  finally show "of_nat (2 ^ 54 * 2 ^ 54) \<le> scaled x" using pow2_nat [of 108] by simp
  have "scaled x \<le> pow2 (e + 1) * pow2 (2 * root_scale x)"
    using expo_bounds [OF assms] unfolding scaled_def e_def by (intro mult_right_mono) (auto simp: less_imp_le)
  also have "\<dots> \<le> pow2 110"
    using r by (simp add: pow2_add [symmetric] pow2_mono)
  finally show "scaled x \<le> of_nat (2 ^ 55 * 2 ^ 55)" using pow2_nat [of 110] by simp
qed

lemma scaled_nonneg: "0 < x \<Longrightarrow> 0 \<le> scaled x"
  by (simp add: scaled_def less_imp_le)

lemma sqrt_pos_bounds:
  assumes "0 < x"
  shows "pow2 (54 - root_scale x) \<le> sqrt_pos x" and "sqrt_pos x \<le> pow2 (55 - root_scale x)"
proof -
  have "of_nat (2 ^ 54) \<le> sticky_root (scaled x)" "sticky_root (scaled x) \<le> of_nat (2 ^ 55)"
    using scaled_bounds [OF assms] scaled_nonneg [OF assms] by (simp_all only: le_sticky_root sticky_root_le)
  then show "pow2 (54 - root_scale x) \<le> sqrt_pos x" "sqrt_pos x \<le> pow2 (55 - root_scale x)"
    using pow2_add [of 54 "- root_scale x"] pow2_add [of 55 "- root_scale x"] pow2_nat [of 54] pow2_nat [of 55]
    by (simp_all add: sqrt_pos_def)
qed

lemma sqrt_pos_mono:
  assumes "0 < x" "x \<le> y"
  shows "sqrt_pos x \<le> sqrt_pos y"
proof -
  have "root_scale y \<le> root_scale x"
    using expo_mono [OF assms] zdiv_mono1 [of "expo x" "expo y" 2] by (simp add: root_scale_def)
  then consider "root_scale x = root_scale y" | "root_scale y + 1 \<le> root_scale x" by linarith
  then show ?thesis
  proof cases
    case 1
    then have "scaled x \<le> scaled y" using assms by (simp add: scaled_def)
    with 1 show ?thesis
      using sticky_root_mono [OF scaled_nonneg [OF assms(1)]] by (simp add: sqrt_pos_def)
  next
    case 2
    have "sqrt_pos x \<le> pow2 (55 - root_scale x)" using assms by (intro sqrt_pos_bounds)
    also have "\<dots> \<le> pow2 (54 - root_scale y)" using 2 by (intro pow2_mono) simp
    also have "\<dots> \<le> sqrt_pos y" using assms by (intro sqrt_pos_bounds) simp
    finally show ?thesis .
  qed
qed

lemma sqrt_pos_nonneg: "0 < x \<Longrightarrow> 0 < sqrt_pos x"
  using sqrt_pos_bounds(1) pow2_pos order_less_le_trans by blast

lemma mk64_nonneg: "0 \<le> x \<Longrightarrow> Fin 0 \<le> mk64 x"
proof -
  assume "0 \<le> x"
  from mk64_mono [OF this] show ?thesis by (simp only: mk64_0)
qed

lemma f64_sqrt_mono: "Fin 0 \<le> x \<Longrightarrow> x \<le> y \<Longrightarrow> f64_sqrt x \<le> f64_sqrt y"
proof (cases x; cases y)
  fix a b
  assume "Fin 0 \<le> x" "x \<le> y" "x = Fin a" "y = Fin b"
  then show ?thesis
    using sqrt_pos_mono [of a b] sqrt_pos_nonneg [of b] mk64_nonneg [of "sqrt_pos b"]
    by (auto intro: mk64_mono)
next
  fix a
  assume "Fin 0 \<le> x" "x = Fin a" "y = PInf"
  then show ?thesis by simp
qed (auto simp: less_eq_f64_def)

lemma f64_divide_mono: "0 < p \<Longrightarrow> x \<le> y \<Longrightarrow> x / Fin p \<le> y / Fin p"
  by (cases x; cases y) (auto intro!: mk64_mono divide_right_mono)

lemma f64_divide_nonneg: "0 < p \<Longrightarrow> Fin 0 \<le> x \<Longrightarrow> Fin 0 \<le> x / Fin p"
  using f64_divide_mono [of p "Fin 0" x] by simp

section \<open>Doubling is exact\<close>

text \<open>Scaling a value of the grid by two stays on the grid: \<open>throughput * 2.0\<close> loses nothing.\<close>

lemma expo_double: "0 < x \<Longrightarrow> expo (2 * x) = expo x + 1"
  using expo_bounds [of x] pow2_Suc [of "expo x"] pow2_Suc [of "expo x + 1"] by (intro expo_unique) auto

lemma round_pos_double:
  assumes "0 < r" "round_pos r = r"
  shows "round_pos (2 * r) = 2 * r"
proof -
  define m where "m = round_half_even (r / grid r)"
  have r: "r = of_int m * grid r" using assms(2) by (simp add: round_pos_def m_def)
  have "\<exists>k. 2 * r / grid (2 * r) = of_int k"
  proof (cases "- 1022 \<le> expo r")
    case True
    then have "grid (2 * r) = 2 * grid r"
      using pow2_Suc [of "expo r - 52"] by (simp add: grid_def expo_double [OF assms(1)] max_def)
    then have "2 * r / grid (2 * r) = of_int m" by (subst r) simp
    then show ?thesis by blast
  next
    case False
    then have "grid (2 * r) = grid r" by (simp add: grid_def expo_double [OF assms(1)])
    then have "2 * r / grid (2 * r) = of_int (2 * m)" by (subst r) simp
    then show ?thesis by blast
  qed
  then obtain k where k: "2 * r / grid (2 * r) = of_int k" by blast
  then have "round_pos (2 * r) = of_int k * grid (2 * r)"
    by (simp only: round_pos_def round_half_even_int)
  then show ?thesis by (simp add: k [symmetric])
qed

lemma round64_double: "round64 r = r \<Longrightarrow> round64 (2 * r) = 2 * r"
  using round_pos_double [of r] round_pos_double [of "- r"]
  by (auto simp: round64_def zero_less_mult_iff split: if_splits)

text \<open>Dyadic fractions of up to 53 significant bits are on the grid.\<close>

lemma round_pos_dyadic:
  assumes "0 < m" "m < 2 ^ 53" "- 1074 \<le> e"
  shows "round_pos (of_int m * pow2 e) = of_int m * pow2 e"
proof -
  define r where "r = of_int m * pow2 e"
  have pos: "0 < r" using assms(1) by (simp add: r_def)
  have "(of_int m :: rat) < of_int (2 ^ 53)" using assms(2) by (simp only: of_int_less_iff)
  then have "r < pow2 53 * pow2 e" by (simp add: r_def float_eval)
  then have "r < pow2 (e + 53)" by (simp add: pow2_add mult.commute)
  then have "expo r < e + 53" using expo_bounds [OF pos] pow2_less_iff [of "expo r" "e + 53"] by linarith
  then have le: "max (expo r) (- 1022) - 52 \<le> e" using assms(3) by (simp add: max_def)
  define j where "j = nat (e - (max (expo r) (- 1022) - 52))"
  have g: "grid r = pow2 (e - int j)" using le by (simp add: grid_def j_def)
  have "pow2 e = pow2 (int j) * pow2 (e - int j)" by (simp flip: pow2_add)
  then have "r = of_int (m * 2 ^ j) * grid r" unfolding g by (simp add: r_def pow2_nat)
  then have "r / grid r = of_int (m * 2 ^ j)" by (metis g nonzero_mult_div_cancel_right pow2_nonzero)
  then show ?thesis
    using \<open>r = of_int (m * 2 ^ j) * grid r\<close> unfolding round_pos_def r_def [symmetric] by (simp only: round_half_even_int)
qed

text \<open>In the normal range the relative error of rounding is at most half a unit in the last place.\<close>

lemma round64_error:
  assumes "pow2 (- 1022) \<le> x"
  shows "\<bar>round64 x - x\<bar> \<le> x / 2 ^ 53"
proof -
  have pos: "0 < x" using assms pow2_pos [of "- 1022"] by linarith
  have "pow2 (- 1022) < pow2 (expo x + 1)" using expo_bounds [OF pos] assms by linarith
  then have "- 1022 \<le> expo x" by simp
  then have "pow2 (expo x) = grid x * 2 ^ 52"
    using pow2_add [of "expo x - 52" 52] pow2_nat [of 52] by (simp add: grid_def max_def)
  then have grid: "grid x \<le> x / 2 ^ 52" using expo_bounds [OF pos] by simp
  have "round64 x - x = (of_int (round_half_even (x / grid x)) - x / grid x) * grid x"
    using pos by (simp add: round64_def round_pos_def left_diff_distrib)
  then have "\<bar>round64 x - x\<bar> = \<bar>of_int (round_half_even (x / grid x)) - x / grid x\<bar> * grid x"
    using grid_pos [of x] by (simp add: abs_mult abs_of_pos)
  also have "\<dots> \<le> 1 / 2 * grid x"
    by (intro mult_right_mono round_half_even_dist) (simp add: less_imp_le)
  finally show ?thesis using grid by simp
qed

lemma normal_range: "1 / 2 ^ 100 \<le> x \<Longrightarrow> pow2 (- 1022) \<le> x"
  using pow2_mono [of "- 1022" "- 100"] pow2_minus [of "int 100"] pow2_nat [of 100] by simp

text \<open>Dividing by ten and rounding does not reach the next integer: sixteenths are on the grid.\<close>

lemma floor_tenth:
  assumes "t < 2 ^ 49"
  shows "\<lfloor>round64 (of_nat t / 10)\<rfloor> = int (t div 10)"
proof -
  define k where "k = t div 10"
  have k: "10 * k \<le> t" "t \<le> 10 * k + 9" by (simp_all add: k_def)
  have small: "int k < 2 ^ 49" using assms k by simp
  have up: "round64 (of_int (16 * int k + 15) * pow2 (- 4)) = of_int (16 * int k + 15) * pow2 (- 4)"
  proof -
    have "round_pos (of_int (16 * int k + 15) * pow2 (- 4)) = of_int (16 * int k + 15) * pow2 (- 4)"
      by (rule round_pos_dyadic) (use small in simp_all)
    moreover have "0 < of_int (16 * int k + 15) * pow2 (- 4)" by (intro mult_pos_pos pow2_pos) (simp add: add_nonneg_pos)
    ultimately show ?thesis unfolding round64_def by (simp only: if_True less_irrefl) simp
  qed
  have "(of_nat t :: rat) \<le> of_nat (10 * k + 9)" using k(2) by (simp only: of_nat_le_iff)
  moreover have edge: "of_int (16 * int k + 15) * pow2 (- 4) = of_nat k + 15 / 16"
    by (simp add: pow2_eval add_divide_distrib)
  ultimately have "(of_nat t / 10 :: rat) \<le> of_int (16 * int k + 15) * pow2 (- 4)" by simp
  from round64_mono [OF this] have "round64 (of_nat t / 10) \<le> of_nat k + 15 / 16"
    by (simp only: up [unfolded edge] edge)
  moreover have "(of_nat (10 * k) :: rat) \<le> of_nat t" using k(1) by (simp only: of_nat_le_iff)
  then have "(of_int (int k) :: rat) \<le> of_nat t / 10" by simp
  from round64_mono [OF this] have "of_nat k \<le> round64 (of_nat t / 10)"
    using round64_int [of "int k"] small by simp
  ultimately show ?thesis unfolding k_def [symmetric] by (intro floor_unique) auto
qed

end
