(* ===== verification/Sched.thy ===== *)
theory Sched
  imports Float64
begin

text \<open>
  The coordinated-omission-correct scheduler, \<open>engine/src/sched.rs\<close>: one \<open>ConnSched\<close> per
  connection, its intended send slots, wrk2's catch-up window, and the schedule pause that a
  \<open>Retry-After\<close> causes. The clock is an argument, as in the source.
\<close>

section \<open>State and operations\<close>

datatype rate_schedule =
    Constant (throughput_us: f64)
  | Ramp (duration_us: u64) (peak_throughput_us: f64)

record conn_sched =
  thread_start_us :: u64
  complete :: u64
  schedule :: rate_schedule
  catch_up_us :: f64
  caught_up :: bool
  catch_up_start_time :: u64
  complete_at_catch_up_start :: u64

definition conn_sched_new :: "u64 \<Rightarrow> f64 \<Rightarrow> conn_sched" where
  "conn_sched_new start throughput =
     \<lparr> thread_start_us = start, complete = 0, schedule = Constant throughput,
       catch_up_us = throughput * f64_lit 2, caught_up = True,
       catch_up_start_time = 0, complete_at_catch_up_start = 0 \<rparr>"

definition conn_sched_ramp :: "u64 \<Rightarrow> u64 \<Rightarrow> f64 \<Rightarrow> conn_sched" where
  "conn_sched_ramp start duration peak =
     \<lparr> thread_start_us = start, complete = 0, schedule = Ramp duration peak,
       catch_up_us = f64_lit 0, caught_up = True,
       catch_up_start_time = 0, complete_at_catch_up_start = 0 \<rparr>"

text \<open>The offset of slot \<open>n\<close> from the schedule's origin, truncated to microseconds.\<close>

fun slot_offset :: "rate_schedule \<Rightarrow> u64 \<Rightarrow> u64" where
  "slot_offset (Constant throughput) n = as_u64 (of_u64 n / throughput)"
| "slot_offset (Ramp duration peak) n =
     as_u64 (f64_sqrt (f64_lit 2 * of_u64 duration * of_u64 n / peak))"

definition intended_send_time :: "conn_sched \<Rightarrow> u64" where
  "intended_send_time s = thread_start_us s + slot_offset (schedule s) (complete s)"

definition usec_to_next_send :: "conn_sched \<Rightarrow> u64 \<Rightarrow> u64 \<times> conn_sched" where
  "usec_to_next_send s now =
     (let next_start_orig = intended_send_time s in
      if now < next_start_orig then (next_start_orig - now, s\<lparr>caught_up := True\<rparr>)
      else case schedule s of
        Ramp _ _ \<Rightarrow> (0, s\<lparr>caught_up := False\<rparr>)
      | Constant _ \<Rightarrow>
          (let s1 = (if caught_up s
                then s\<lparr>caught_up := False, catch_up_start_time := now,
                       complete_at_catch_up_start := complete s\<rparr>
                else s);
               since = complete s1 - complete_at_catch_up_start s1;
               catch_up_next = catch_up_start_time s1 + as_u64 (of_u64 since / catch_up_us s1)
           in (if now < catch_up_next then catch_up_next - now else 0, s1)))"

definition advance :: "conn_sched \<Rightarrow> conn_sched" where
  "advance s = s\<lparr>complete := complete s + 1\<rparr>"

definition defer_origin :: "conn_sched \<Rightarrow> u64 \<Rightarrow> conn_sched" where
  "defer_origin s delta =
     s\<lparr>thread_start_us := saturating_add (thread_start_us s) delta, caught_up := True\<rparr>"

text \<open>
  The operations a connection task performs on its scheduler, and a run of them. The wait that a poll
  returns is the caller's; only the state is kept.
\<close>

datatype sched_op = Poll u64 | Advance | Defer u64

fun sched_step :: "conn_sched \<Rightarrow> sched_op \<Rightarrow> conn_sched" where
  "sched_step s (Poll now) = snd (usec_to_next_send s now)"
| "sched_step s Advance = advance s"
| "sched_step s (Defer delta) = defer_origin s delta"

definition sched_run :: "conn_sched \<Rightarrow> sched_op list \<Rightarrow> conn_sched" where
  "sched_run s ops = fold (\<lambda>p s. sched_step s p) ops s"

section \<open>Frame facts\<close>

lemma advance_simps [schedule_simps]:
  "complete (advance s) = complete s + 1" "thread_start_us (advance s) = thread_start_us s"
  "schedule (advance s) = schedule s" "catch_up_us (advance s) = catch_up_us s"
  "caught_up (advance s) = caught_up s" "catch_up_start_time (advance s) = catch_up_start_time s"
  "complete_at_catch_up_start (advance s) = complete_at_catch_up_start s"
  by (simp_all add: advance_def)

lemma poll_frame [schedule_simps]:
  "complete (snd (usec_to_next_send s now)) = complete s"
  "thread_start_us (snd (usec_to_next_send s now)) = thread_start_us s"
  "schedule (snd (usec_to_next_send s now)) = schedule s"
  "catch_up_us (snd (usec_to_next_send s now)) = catch_up_us s"
  by (simp_all add: usec_to_next_send_def Let_def split: rate_schedule.split)

lemma intended_poll [schedule_simps]:
  "intended_send_time (snd (usec_to_next_send s now)) = intended_send_time s"
  by (simp add: intended_send_time_def schedule_simps)

lemma defer_frame [schedule_simps]:
  "complete (defer_origin s d) = complete s" "schedule (defer_origin s d) = schedule s"
  "complete_at_catch_up_start (defer_origin s d) = complete_at_catch_up_start s"
  "caught_up (defer_origin s d)" "catch_up_us (defer_origin s d) = catch_up_us s"
  by (simp_all add: defer_origin_def)

lemma poll_ahead:
  "now < intended_send_time s \<Longrightarrow>
   usec_to_next_send s now = (intended_send_time s - now, s\<lparr>caught_up := True\<rparr>)"
  by (simp add: usec_to_next_send_def)

lemma poll_behind_ramp:
  "\<not> now < intended_send_time s \<Longrightarrow> schedule s = Ramp d p \<Longrightarrow>
   usec_to_next_send s now = (0, s\<lparr>caught_up := False\<rparr>)"
  by (simp add: usec_to_next_send_def)

lemma poll_falls_behind:
  "\<not> now < intended_send_time s \<Longrightarrow> schedule s = Constant t \<Longrightarrow> caught_up s \<Longrightarrow>
   usec_to_next_send s now = (0, s\<lparr>caught_up := False, catch_up_start_time := now,
                                   complete_at_catch_up_start := complete s\<rparr>)"
  by (simp add: usec_to_next_send_def)

lemma poll_still_behind:
  "\<not> now < intended_send_time s \<Longrightarrow> schedule s = Constant t \<Longrightarrow> \<not> caught_up s \<Longrightarrow>
   usec_to_next_send s now =
     (let next = catch_up_start_time s
             + as_u64 (of_u64 (complete s - complete_at_catch_up_start s) / catch_up_us s)
      in (if now < next then next - now else 0), s)"
  by (simp add: usec_to_next_send_def Let_def)

lemmas poll_cases = poll_ahead poll_behind_ramp poll_falls_behind poll_still_behind

section \<open>The contract of a pacer\<close>

text \<open>
  What a connection task relies on when it measures corrected latency: polling never moves the
  intended slot, and the wait it returns never lets the task fire before that slot.
\<close>

locale pacer =
  fixes poll :: "'s \<Rightarrow> u64 \<Rightarrow> u64 \<times> 's"
    and intended :: "'s \<Rightarrow> u64"
  assumes poll_keeps_slot: "intended (snd (poll s now)) = intended s"
    and poll_not_early: "unat (intended s) \<le> unat now + unat (fst (poll s now))"
begin

text \<open>
  A response measured from the intended slot is never faster than the same response measured from
  the send, when the send happened no earlier than the end of the wait.
\<close>

lemma corrected_ge_uncorrected:
  assumes "poll s now = (wait, s')" and "unat now + unat wait \<le> unat sent"
  shows "saturating_sub recv sent \<le> saturating_sub recv (intended s')"
  using assms poll_not_early [of s now] poll_keeps_slot [of s now]
  by (simp add: word_le_nat_alt rust_int)

text \<open>The difference of the two latencies is the time the send slipped past its slot.\<close>

lemma corrected_minus_uncorrected:
  assumes "poll s now = (wait, s')" and "unat now + unat wait \<le> unat sent" and "sent \<le> recv"
  shows "unat (saturating_sub recv (intended s')) - unat (saturating_sub recv sent)
       = unat sent - unat (intended s')"
  using assms poll_not_early [of s now] poll_keeps_slot [of s now]
  by (simp add: word_le_nat_alt rust_int)

end

lemma poll_not_early: "unat (intended_send_time s) \<le> unat now + unat (fst (usec_to_next_send s now))"
proof (cases "now < intended_send_time s")
  case True
  then show ?thesis
    by (simp add: poll_ahead unat_sub word_less_nat_alt word_le_nat_alt)
next
  case False
  then show ?thesis by (simp add: word_less_nat_alt)
qed

interpretation conn: pacer usec_to_next_send intended_send_time
  by unfold_locales (auto simp: schedule_simps poll_not_early)

section \<open>Slots\<close>

text \<open>A schedule whose slots are well ordered: every constant rate, and every ramp to a positive finite peak.\<close>

fun sound_schedule :: "rate_schedule \<Rightarrow> bool" where
  "sound_schedule (Constant t) = True"
| "sound_schedule (Ramp d (Fin p)) = (0 < p)"
| "sound_schedule (Ramp d p) = False"

lemma two_times_u64: "\<exists>a\<ge>0. f64_lit 2 * of_u64 d = mk64 a"
proof -
  have "f64_lit 2 = Fin 2" using mk64_int [of 2] by simp
  then have "f64_lit 2 * of_u64 d = mk64 (2 * rat_of (of_u64 d))" by (subst of_u64_Fin) simp
  then show ?thesis using of_u64_nonneg [of d] by (intro exI [of _ "2 * rat_of (of_u64 d)"]) simp
qed

lemma ramp_area_mono:
  assumes "0 \<le> a" "0 \<le> x" "x \<le> y" "0 < p"
  shows "as_u64 (f64_sqrt (mk64 a * Fin x / Fin p)) \<le> as_u64 (f64_sqrt (mk64 a * Fin y / Fin p))"
proof (cases "mk64 a")
  case (Fin b)
  with mk64_nonneg [OF assms(1)] have b: "0 \<le> b" by simp
  have "Fin 0 \<le> Fin b * Fin x" "Fin b * Fin x \<le> Fin b * Fin y"
    using assms b by (auto intro!: mk64_nonneg mk64_mono mult_left_mono)
  then show ?thesis
    unfolding Fin using assms by (intro as_u64_mono f64_sqrt_mono f64_divide_nonneg f64_divide_mono)
qed (use assms mk64_nonneg [OF assms(1)] in \<open>auto simp: inf_of_sign_def\<close>)

lemma slot_offset_mono:
  assumes "sound_schedule sch" "n \<le> m"
  shows "slot_offset sch n \<le> slot_offset sch m"
proof (cases sch)
  case (Constant t)
  with assms show ?thesis by (simp add: as_u64_divide_u64_mono)
next
  case (Ramp d pk)
  with assms obtain p where p: "pk = Fin p" "0 < p" by (cases pk) auto
  obtain a where a: "0 \<le> a" "f64_lit 2 * of_u64 d = mk64 a" using two_times_u64 by blast
  obtain x y where "of_u64 n = Fin x" "of_u64 m = Fin y" using of_u64_Fin by blast
  then show ?thesis
    using ramp_area_mono [of a x y p] of_u64_mono [OF assms(2)] of_u64_nonneg [of n] p a
    unfolding Ramp by simp
qed

lemma advance_pow:
  "(advance ^^ k) s = s\<lparr>complete := complete s + of_nat k\<rparr>"
  by (induction k) (simp_all add: advance_def ac_simps)

lemma complete_advance_pow [schedule_simps]: "complete ((advance ^^ k) s) = complete s + of_nat k"
  by (simp add: advance_pow)

lemma intended_advance_pow:
  "intended_send_time ((advance ^^ k) s)
   = thread_start_us s + slot_offset (schedule s) (complete s + of_nat k)"
  by (simp add: advance_pow intended_send_time_def)

lemma of_nat_no_wrap:
  "unat n + k < 2 ^ LENGTH('a) \<Longrightarrow> unat (n + of_nat k) = unat n + k" for n :: "'a::len word"
  by (simp add: unat_word_ariths unat_of_nat)

text \<open>The intended send slots of a connection never go backwards, whatever the rate (for a
  ramp: a positive finite peak), as long as the slot itself and the completion count fit in 64 bits.\<close>

lemma intended_slots_monotone:
  assumes "sound_schedule (schedule s)" and "unat (complete s) + k < 2 ^ 64"
    and "unat (thread_start_us s) + unat (slot_offset (schedule s) (complete s + of_nat k)) < 2 ^ 64"
  shows "intended_send_time s \<le> intended_send_time ((advance ^^ k) s)"
proof -
  have "complete s \<le> complete s + of_nat k"
    using assms(2) by (simp add: word_le_nat_alt of_nat_no_wrap)
  then have "slot_offset (schedule s) (complete s) \<le> slot_offset (schedule s) (complete s + of_nat k)"
    by (rule slot_offset_mono [OF assms(1)])
  with assms(3) show ?thesis
    by (subst intended_advance_pow) (simp add: intended_send_time_def word_le_nat_alt rust_int)
qed

text \<open>The slot of request \<open>n\<close> at a constant rate is the exact schedule \<open>n / throughput\<close>,
  truncated to a microsecond, and at most one microsecond later: binary64 arithmetic never puts it
  earlier than the ideal slot's microsecond.\<close>

lemma constant_slot_accurate:
  assumes "0 < r" and "unat n \<le> 2 ^ 53" and "of_nat (unat n) / r < 2 ^ 53"
  shows "uint (slot_offset (Constant (Fin r)) n) \<in> {\<lfloor>of_nat (unat n) / r\<rfloor>, \<lfloor>of_nat (unat n) / r\<rfloor> + 1}"
proof -
  define q where "q = of_nat (unat n) / r"
  have q: "0 \<le> q" "q < 2 ^ 53" using assms by (auto simp: q_def)
  have f: "\<lfloor>q\<rfloor> \<le> \<lfloor>round64 q\<rfloor>" "\<lfloor>round64 q\<rfloor> \<le> \<lfloor>q\<rfloor> + 1"
    using b64.floor_rnd [OF q] by auto
  have r0: "0 \<le> round64 q" using q by (intro b64.rnd_nonneg)
  have "round64 q \<le> round64 (of_int (2 ^ 53))" using q by (intro round64_mono) simp
  then have r53: "round64 q \<le> 2 ^ 53" using round64_int [of "2 ^ 53"] by simp
  then have "mk64 q = Fin (round64 q)" using r0 by (simp add: mk64_Fin)
  then have "slot_offset (Constant (Fin r)) n = trunc_u64 (round64 q)"
    using assms by (simp add: of_u64_small q_def)
  moreover have "uint (trunc_u64 (round64 q)) = \<lfloor>round64 q\<rfloor>"
    using r0 r53 by (auto simp: uint_trunc_u64 floor_eq_iff)
  ultimately show ?thesis unfolding q_def [symmetric] using f by auto
qed

section \<open>Catch-up\<close>

text \<open>The offset, from the moment the connection fell behind, of the \<open>k\<close>-th catch-up send.\<close>

abbreviation catch_up_offset :: "conn_sched \<Rightarrow> u64 \<Rightarrow> u64" where
  "catch_up_offset s k \<equiv> as_u64 (of_u64 k / catch_up_us s)"

lemma catch_up_rate_exact:
  assumes "round64 r = r" and "\<bar>r\<bar> \<le> 2 ^ 64"
  shows "catch_up_us (conn_sched_new start (Fin r)) = Fin (2 * r)"
proof -
  have "f64_lit 2 = Fin 2" using mk64_int [of 2] by simp
  moreover have "mk64 (r * 2) = Fin (r * 2)"
    using assms round64_double [OF assms(1)] by (simp add: mk64_Fin mult.commute abs_le_iff)
  ultimately show ?thesis by (simp add: conn_sched_new_def mult.commute)
qed

lemma catch_up_slots:
  assumes "round64 r = r" and "\<bar>r\<bar> \<le> 2 ^ 64" and "r \<noteq> 0" and "unat k < 2 ^ 52"
  shows "catch_up_offset (conn_sched_new start (Fin r)) (2 * k) = slot_offset (Constant (Fin r)) k"
proof -
  have "unat (2 * k) = 2 * unat k"
    using assms(4) by (simp add: unat_word_ariths)
  then have "of_u64 (2 * k) = Fin (2 * of_nat (unat k))" "of_u64 k = Fin (of_nat (unat k))"
    using assms(4) by (simp_all add: of_u64_small)
  then show ?thesis
    using assms by (simp add: catch_up_rate_exact)
qed

text \<open>A connection that polls at the given times and whose request is answered after each poll.\<close>

abbreviation polled_sends :: "u64 list \<Rightarrow> sched_op list" where
  "polled_sends ts \<equiv> concat (map (\<lambda>t. [Poll t, Advance]) ts)"

lemma sched_run_simps [simp]:
  "sched_run s [] = s" "sched_run s (p # ps) = sched_run (sched_step s p) ps"
  by (simp_all add: sched_run_def)

lemma sched_run_rates:
  "schedule (sched_run s ops) = schedule s \<and> catch_up_us (sched_run s ops) = catch_up_us s"
proof (induction ops arbitrary: s)
  case (Cons p ps)
  then show ?case by (cases p) (simp_all add: schedule_simps)
qed simp

lemma intended_after_poll:
  "intended_send_time ((advance ^^ n) (snd (usec_to_next_send s t))) = intended_send_time ((advance ^^ n) s)"
  by (simp add: intended_advance_pow schedule_simps)

text \<open>Once a connection is catching up, polls that find it still behind leave the window alone.\<close>

lemma sends_while_behind:
  assumes "schedule s = Constant t" and "\<not> caught_up s"
    and "\<And>i. i < length ts \<Longrightarrow> \<not> ts ! i < intended_send_time ((advance ^^ i) s)"
  shows "sched_run s (polled_sends ts) = (advance ^^ length ts) s"
  using assms
proof (induction ts arbitrary: s)
  case (Cons x ts)
  have "\<not> x < intended_send_time s" using Cons.prems(3) [of 0] by simp
  then have p: "snd (usec_to_next_send s x) = s"
    using Cons.prems by (simp add: poll_still_behind Let_def)
  have "\<not> ts ! i < intended_send_time ((advance ^^ i) (advance s))" if "i < length ts" for i
    using Cons.prems(3) [of "Suc i"] that by (simp add: funpow_swap1)
  then have "sched_run (advance s) (polled_sends ts) = (advance ^^ length ts) (advance s)"
    using Cons.prems by (intro Cons.IH) (simp_all add: schedule_simps)
  then show ?case by (simp add: p funpow_swap1)
qed simp

text \<open>The send that falls behind opens the window at its own time and completion count.\<close>

lemma sends_from_falling_behind:
  assumes "schedule s = Constant t" and "caught_up s"
    and "\<And>i. i \<le> length ts \<Longrightarrow> \<not> (t0 # ts) ! i < intended_send_time ((advance ^^ i) s)"
  shows "sched_run s (polled_sends (t0 # ts))
    = (advance ^^ Suc (length ts)) (s\<lparr>caught_up := False, catch_up_start_time := t0,
                                       complete_at_catch_up_start := complete s\<rparr>)"
proof -
  have "\<not> t0 < intended_send_time s" using assms(3) [of 0] by simp
  then have p: "snd (usec_to_next_send s t0) = s\<lparr>caught_up := False, catch_up_start_time := t0,
                                       complete_at_catch_up_start := complete s\<rparr>" (is "_ = ?s0")
    using assms by (simp add: poll_falls_behind)
  have "\<not> ts ! i < intended_send_time ((advance ^^ i) (advance ?s0))" if "i < length ts" for i
    using assms(3) [of "Suc i"] that intended_after_poll [of "Suc i" s t0]
    by (simp add: funpow_swap1 p)
  then have "sched_run (advance ?s0) (polled_sends ts) = (advance ^^ length ts) (advance ?s0)"
    using assms by (intro sends_while_behind [where t = t]) (simp_all add: schedule_simps)
  then show ?thesis by (simp add: p funpow_swap1)
qed

lemma poll_in_window:
  assumes "schedule s = Constant t" and "\<not> now < intended_send_time ((advance ^^ n) s)"
  shows "fst (usec_to_next_send ((advance ^^ n) (s\<lparr>caught_up := False, catch_up_start_time := t0,
                                       complete_at_catch_up_start := complete s\<rparr>)) now)
    = (if now < t0 + catch_up_offset s (of_nat n) then t0 + catch_up_offset s (of_nat n) - now else 0)"
    (is "fst (usec_to_next_send ?s now) = _")
proof -
  have "\<not> now < intended_send_time ?s" using assms(2) by (simp add: intended_advance_pow)
  moreover have "schedule ?s = Constant t" "\<not> caught_up ?s" using assms(1) by (simp_all add: advance_pow)
  ultimately show ?thesis by (subst poll_still_behind) (simp_all add: advance_pow Let_def)
qed

text \<open>C26. Catch-up runs at exactly twice the schedule's rate, from any run of a scheduler: the
  connection was on pace when it polled at the first of the times \<open>ts\<close> and found its slot in the
  past; it polled and completed \<open>2k\<close> requests and is still behind at every one of these polls and at
  the last. Then the wait returned by the last \<open>usec_to_next_send\<close> ends exactly at the moment it fell
  behind plus the offset which the schedule gives to request \<open>k\<close> (no wait when that is past): two
  catch-up sends take the time of one scheduled send, at every rate that a double represents.\<close>

theorem catch_up_is_twice_the_rate:
  assumes "round64 r = r" and "\<bar>r\<bar> \<le> 2 ^ 64" and "r \<noteq> 0" and "k < 2 ^ 52"
    and "s = sched_run (conn_sched_new start (Fin r)) ops" and "caught_up s"
    and "length ts = 2 * k + 1"
    and "\<forall>i \<le> 2 * k. \<not> ts ! i < intended_send_time ((advance ^^ i) s)"
    and "due = hd ts + slot_offset (schedule s) (of_nat k)"
  shows "fst (usec_to_next_send (sched_run s (polled_sends (butlast ts))) (last ts))
    = (if last ts < due then due - last ts else 0)"
proof -
  have sch: "schedule s = Constant (Fin r)" and cu: "catch_up_us s = catch_up_us (conn_sched_new start (Fin r))"
    using sched_run_rates [of "conn_sched_new start (Fin r)" ops] by (simp_all add: assms(5) conn_sched_new_def)
  obtain t0 us where ts: "ts = t0 # us" "length us = 2 * k" using assms(7) by (cases ts) auto
  have l: "last ts = ts ! (2 * k)" using assms(7) by (subst last_conv_nth) auto
  have lb: "\<not> last ts < intended_send_time ((advance ^^ (2 * k)) s)" using assms(8) l by simp
  show ?thesis
  proof (cases k)
    case 0
    have "slot_offset (schedule s) 0 = 0" using assms(3) by (simp add: sch of_u64_small trunc_u64_def)
    then show ?thesis
      using 0 ts lb assms(6,9) by (simp add: poll_falls_behind [OF _ sch])
  next
    case (Suc m)
    then have "us \<noteq> []" using ts by auto
    then have "butlast ts = t0 # butlast us" "length (butlast us) = 2 * k - 1" using ts by simp_all
    then obtain vs where vs: "butlast ts = t0 # vs" "length vs = 2 * k - 1" by blast
    have "\<not> (t0 # vs) ! i < intended_send_time ((advance ^^ i) s)" if "i \<le> length vs" for i
      using assms(8) that vs(2) Suc unfolding vs(1) [symmetric] by (auto simp: nth_butlast assms(7))
    then have run: "sched_run s (polled_sends (butlast ts)) = (advance ^^ (2 * k))
        (s\<lparr>caught_up := False, catch_up_start_time := t0, complete_at_catch_up_start := complete s\<rparr>)"
      using sends_from_falling_behind [OF sch assms(6), of vs t0] vs Suc by simp
    have "unat (of_nat k :: u64) = k" using assms(4) by (simp add: unat_of_nat)
    then have "catch_up_offset s (of_nat (2 * k)) = slot_offset (schedule s) (of_nat k)"
      using catch_up_slots [OF assms(1-3), of "of_nat k" start] assms(4) by (simp add: cu sch)
    then show ?thesis
      unfolding run by (subst poll_in_window [OF sch lb]) (simp add: assms(9) ts)
  qed
qed

lemma poll_behind_caught_up:
  "\<not> now < intended_send_time s \<Longrightarrow> schedule s = Constant t \<Longrightarrow>
   \<not> caught_up (snd (usec_to_next_send s now))"
  by (simp add: usec_to_next_send_def Let_def)

lemma poll_window:
  assumes "\<not> now < intended_send_time s" "schedule s = Constant t"
    and "poll = usec_to_next_send s now"
    and "unat (catch_up_start_time (snd poll))
         + unat (catch_up_offset s (complete s - complete_at_catch_up_start (snd poll))) < 2 ^ 64"
  shows "unat (catch_up_start_time (snd poll))
         + unat (catch_up_offset s (complete s - complete_at_catch_up_start (snd poll)))
         \<le> unat now + unat (fst poll)"
proof (cases "caught_up s")
  case True
  then show ?thesis using assms by (simp add: poll_falls_behind)
next
  case False
  define nx where "nx = catch_up_start_time s + catch_up_offset s (complete s - complete_at_catch_up_start s)"
  have p: "poll = (if now < nx then nx - now else 0, s)"
    using assms False by (simp add: poll_still_behind nx_def Let_def)
  then have "unat nx = unat (catch_up_start_time s) + unat (catch_up_offset s (complete s - complete_at_catch_up_start s))"
    using assms(4) by (simp add: nx_def rust_int)
  then show ?thesis
    unfolding p by (auto simp: unat_sub word_less_nat_alt word_le_nat_alt not_less)
qed

text \<open>Catch-up never overshoots: while a connection stays behind, the wait before the next
  send is at most one catch-up interval (the gap between two consecutive catch-up slots), when it polls no
  earlier than its previous send.\<close>

lemma catch_up_wait_bounded:
  assumes "schedule s = Constant t"
    and "\<not> now < intended_send_time s"
    and "usec_to_next_send s now = (wait, s1)"
    and "unat now + unat wait \<le> unat now2"
    and "\<not> now2 < intended_send_time (advance s1)"
    and "usec_to_next_send (advance s1) now2 = (wait2, s2)"
    and "k = complete s - complete_at_catch_up_start s1"
    and "unat (catch_up_start_time s1) + unat (catch_up_offset s k) < 2 ^ 64"
    and "unat (catch_up_start_time s1) + unat (catch_up_offset s (k + 1)) < 2 ^ 64"
  shows "unat wait2 \<le> unat (catch_up_offset s (k + 1)) - unat (catch_up_offset s k)"
proof -
  have s1_def: "s1 = snd (usec_to_next_send s now)" by (simp add: assms(3))
  have s1: "\<not> caught_up s1" "schedule s1 = Constant t" "complete s1 = complete s" "catch_up_us s1 = catch_up_us s"
    using assms(1,2) by (simp_all add: s1_def schedule_simps poll_behind_caught_up)
  define nx where "nx = catch_up_start_time s1 + catch_up_offset s (k + 1)"
  have nx: "unat nx = unat (catch_up_start_time s1) + unat (catch_up_offset s (k + 1))"
    unfolding nx_def using assms(9) by (intro unat_add_no_wrap) simp
  have k1: "complete (advance s1) - complete_at_catch_up_start (advance s1) = k + 1"
    by (simp add: schedule_simps s1 assms(7))
  have "usec_to_next_send (advance s1) now2 = (if now2 < nx then nx - now2 else 0, advance s1)"
    using poll_still_behind [OF assms(5), of t, unfolded k1] s1
    by (simp add: schedule_simps nx_def Let_def)
  then have "wait2 = (if now2 < nx then nx - now2 else 0)" using assms(6) by simp
  then have "unat wait2 = unat nx - unat now2"
    by (simp add: unat_sub word_less_nat_alt word_le_nat_alt)
  moreover have "unat (catch_up_start_time s1) + unat (catch_up_offset s k) \<le> unat now2"
    using poll_window [OF assms(2,1) assms(3) [symmetric]] assms(4,7,8) by simp
  ultimately show ?thesis using nx by linarith
qed

section \<open>Runs\<close>

text \<open>The invariant behind \<open>complete - complete_at_catch_up_start\<close>: it never underflows.\<close>

definition sched_inv :: "conn_sched \<Rightarrow> bool" where
  "sched_inv s \<longleftrightarrow> complete_at_catch_up_start s \<le> complete s"

definition advances :: "sched_op list \<Rightarrow> nat" where
  "advances ops = length (filter (\<lambda>p. p = Advance) ops)"

lemma poll_inv: "sched_inv s \<Longrightarrow> sched_inv (snd (usec_to_next_send s now))"
  by (auto simp: sched_inv_def usec_to_next_send_def Let_def split: rate_schedule.split)

lemma defer_inv: "sched_inv s \<Longrightarrow> sched_inv (defer_origin s d)"
  by (simp add: sched_inv_def schedule_simps)

lemma advance_inv: "sched_inv s \<Longrightarrow> unat (complete s) + 1 < 2 ^ 64 \<Longrightarrow> sched_inv (advance s)"
  by (simp add: sched_inv_def schedule_simps word_le_nat_alt rust_int)

lemma sched_run_inv:
  "sched_inv s \<Longrightarrow> unat (complete s) + advances ops < 2 ^ 64 \<Longrightarrow>
   sched_inv (sched_run s ops)
   \<and> unat (complete (sched_run s ops)) = unat (complete s) + advances ops
   \<and> schedule (sched_run s ops) = schedule s"
proof (induction ops arbitrary: s)
  case (Cons p ps)
  show ?case
  proof (cases p)
    case Advance
    with Cons.prems have "unat (complete (advance s)) = unat (complete s) + 1"
      by (simp add: schedule_simps advances_def rust_int)
    with Advance Cons show ?thesis
      by (simp add: advances_def advance_inv schedule_simps)
  qed (use Cons in \<open>simp_all add: advances_def poll_inv defer_inv schedule_simps\<close>)
qed (simp add: advances_def)

text \<open>In every run of a fresh scheduler the catch-up window opened at a completion count no
  larger than the current one, so the subtraction that counts the sends of the window never underflows, and
  \<open>complete\<close> is the number of responses that arrived.\<close>

lemma catch_up_count_never_underflows:
  assumes "advances ops < 2 ^ 64"
    and "s = sched_run (conn_sched_new start throughput) ops"
  shows "complete_at_catch_up_start s \<le> complete s
    \<and> unat (complete s - complete_at_catch_up_start s) \<le> advances ops
    \<and> unat (complete s) = advances ops"
proof -
  have "sched_inv (conn_sched_new start throughput)" "unat (complete (conn_sched_new start throughput)) = 0"
    by (simp_all add: sched_inv_def conn_sched_new_def)
  with sched_run_inv [of "conn_sched_new start throughput" ops] assms
  show ?thesis by (simp add: sched_inv_def unat_sub)
qed

text \<open>A voluntary pause moves every later intended slot by exactly the pause, and
  re-arms the catch-up window, so deferred requests are not charged the wait and the next late poll
  fires at once instead of bursting.\<close>

lemma defer_shifts_every_slot:
  assumes "unat (thread_start_us s) + unat delta < 2 ^ 64"
  shows "intended_send_time ((advance ^^ k) (defer_origin s delta))
         = intended_send_time ((advance ^^ k) s) + delta
    \<and> (\<forall>now t. schedule s = Constant t \<longrightarrow> \<not> now < intended_send_time (defer_origin s delta) \<longrightarrow>
         fst (usec_to_next_send (defer_origin s delta) now) = 0)"
proof (intro conjI allI impI)
  have d: "thread_start_us (defer_origin s delta) = thread_start_us s + delta"
    using assms by (simp add: defer_origin_def saturating_add_def)
  show "intended_send_time ((advance ^^ k) (defer_origin s delta))
      = intended_send_time ((advance ^^ k) s) + delta"
    unfolding intended_advance_pow d by (simp add: schedule_simps)
next
  fix now t
  assume "schedule s = Constant t" "\<not> now < intended_send_time (defer_origin s delta)"
  then show "fst (usec_to_next_send (defer_origin s delta) now) = 0"
    by (simp add: poll_falls_behind schedule_simps)
qed

section \<open>A connection at 1000 requests per second\<close>

text \<open>The properties above at the rates of the source's own unit tests.\<close>

abbreviation sched_1000rps :: conn_sched where
  "sched_1000rps \<equiv> conn_sched_new 0 (f64_lit (1 / 1000))"

lemma throughput_1000rps: "f64_lit (1 / 1000) = Fin (1152921504606847 / 1152921504606846976)"
  by (simp add: float_eval)

lemma slots_1000rps:
  "slot_offset (Constant (f64_lit (1 / 1000))) 1 = 1000"
  "slot_offset (Constant (f64_lit (1 / 1000))) 2 = 2000"
  by (simp_all add: float_eval)

lemma catch_up_1000rps: "catch_up_us sched_1000rps = Fin (1152921504606847 / 576460752303423488)"
  by (simp add: float_eval conn_sched_new_def)

text \<open>One request per 1024 microseconds, late by six slots: after four catch-up sends, the first at
  6200, the next one waits until 6200 + 2048.\<close>

lemma slots_1024us:
  "slot_offset (Constant (Fin (1 / 1024))) 0 = 0" "slot_offset (Constant (Fin (1 / 1024))) 1 = 1024"
  "slot_offset (Constant (Fin (1 / 1024))) 2 = 2048" "slot_offset (Constant (Fin (1 / 1024))) 3 = 3072"
  "slot_offset (Constant (Fin (1 / 1024))) 4 = 4096"
  by (simp_all add: float_eval)

lemma all_upto_4: "(\<forall>i \<le> 4. P i) \<longleftrightarrow> P 0 \<and> P 1 \<and> P 2 \<and> P 3 \<and> P (4 :: nat)"
  by (auto simp: le_Suc_eq numeral_eq_Suc)

theorem catch_up_is_twice_the_rate_witness:
  "fst (usec_to_next_send (sched_run (sched_run (conn_sched_new 0 (Fin (1 / 1024))) [])
          (polled_sends (butlast [6200, 6300, 7300, 7800, 8100]))) (last [6200, 6300, 7300, 7800, 8100]))
    = (if last [6200, 6300, 7300, 7800, 8100] < (8248 :: u64)
       then 8248 - last [6200, 6300, 7300, 7800, 8100] else 0)"
proof (rule catch_up_is_twice_the_rate [where k = 2 and start = 0 and ops = "[]"])
  have "\<forall>i \<le> 4. \<not> [6200, 6300, 7300, 7800, 8100 :: u64] ! i
      < intended_send_time ((advance ^^ i) (conn_sched_new 0 (Fin (1 / 1024))))"
    unfolding all_upto_4 intended_advance_pow by (simp add: conn_sched_new_def slots_1024us del: slot_offset.simps)
  then show "\<forall>i \<le> 2 * 2. \<not> [6200, 6300, 7300, 7800, 8100 :: u64] ! i
      < intended_send_time ((advance ^^ i) (sched_run (conn_sched_new 0 (Fin (1 / 1024))) []))"
    by simp
  show "8248 = hd [6200, 6300, 7300, 7800, 8100]
      + slot_offset (schedule (sched_run (conn_sched_new 0 (Fin (1 / 1024))) [])) (of_nat 2)"
    by (simp add: conn_sched_new_def slots_1024us del: slot_offset.simps)
  show "round64 (1 / 1024) = (1 / 1024)" by (simp add: float_eval)
qed (simp_all add: conn_sched_new_def)

definition late_1000rps :: conn_sched where
  "late_1000rps = advance sched_1000rps"

lemma late_1000rps_poll:
  "usec_to_next_send late_1000rps 4000
   = (0, late_1000rps\<lparr>caught_up := False, catch_up_start_time := 4000, complete_at_catch_up_start := 1\<rparr>)"
  by (simp add: late_1000rps_def usec_to_next_send_def intended_send_time_def advance_def conn_sched_new_def slots_1000rps del: slot_offset.simps)


lemma catch_up_offsets_1000rps: "as_u64 (of_u64 0 / Fin (1152921504606847 / 576460752303423488)) = 0"
  "as_u64 (of_u64 1 / Fin (1152921504606847 / 576460752303423488)) = 500"
  by (simp_all add: float_eval)

end
