(* ===== verification/Verdicts.thy ===== *)
theory Verdicts
  imports Sched
begin

text \<open>
  The specification of a run and the inline assertion tier of \<open>engine/src/worker.rs\<close>: \<open>RunSpec\<close>,
  \<open>RlConfig\<close>, \<open>InlineAssert\<close> and its \<open>classify\<close>. \<open>http::Uri\<close> and \<open>http::Method\<close> are seen through the accessors
  the engine calls; a \<open>Duration\<close> is its microseconds.
\<close>

section \<open>Run specification\<close>

record uri =
  uri_host :: "string option"
  uri_port_u16 :: "u16 option"
  uri_scheme_str :: "string option"
  uri_path_and_query :: "string option"

datatype rl_action = Continue | Backoff | Abort

definition rl_action_default :: rl_action where
  "rl_action_default = Backoff"

record run_spec =
  url :: uri
  method_str :: string
  target_rps :: f64
  duration_s :: u64
  keepalive :: bool
  connections :: usize
  timeout_us :: nat
  expected_status :: "u16 list"
  max_latency_us :: "u64 option"
  min_body_bytes :: "u64 option"
  max_body_bytes :: "u64 option"
  content_type :: "string option"
  ramp :: bool
  sample_every_n :: u32
  max_sampled_body_bytes :: u32
  rate_limit_action :: rl_action
  max_backoff_ms :: u64
  record_onset :: bool

record rl_config =
  rl_act :: rl_action
  rl_max_backoff_ms :: u64
  rl_record_onset :: bool
  rl_target_rps :: f64
  rl_ramp :: bool
  rl_duration_s :: u64

definition offered_rps_at :: "rl_config \<Rightarrow> u64 \<Rightarrow> f64" where
  "offered_rps_at rl elapsed_us =
     (if rl_ramp rl \<and> 0 < rl_duration_s rl
      then let frac = f64_clamp (of_u64 elapsed_us / (of_u64 (rl_duration_s rl) * f64_lit 1000000))
                        (f64_lit 0) (f64_lit 1)
           in rl_target_rps rl * frac
      else rl_target_rps rl)"

section \<open>The inline assertion bundle\<close>

datatype verdict =
    RateLimited | FailStatus | FailLatency | FailSize | FailContentType | Pass

record inline_assert =
  ia_expected_status :: "u16 list"
  ia_max_latency_us :: "u64 option"
  ia_min_body_bytes :: "u64 option"
  ia_max_body_bytes :: "u64 option"
  ia_content_type_lc_prefix :: "string option"
  ia_sample_every_n :: u32
  ia_max_sampled_body_bytes :: u32

definition from_spec :: "run_spec \<Rightarrow> inline_assert" where
  "from_spec spec =
     \<lparr> ia_expected_status = expected_status spec,
       ia_max_latency_us = max_latency_us spec,
       ia_min_body_bytes = min_body_bytes spec,
       ia_max_body_bytes = max_body_bytes spec,
       ia_content_type_lc_prefix = map_option to_ascii_lowercase (content_type spec),
       ia_sample_every_n = sample_every_n spec,
       ia_max_sampled_body_bytes = max_sampled_body_bytes spec \<rparr>"

definition status_ok :: "inline_assert \<Rightarrow> u16 \<Rightarrow> bool" where
  "status_ok a status =
     (if ia_expected_status a = [] then 200 \<le> status \<and> status < 300
      else status \<in> set (ia_expected_status a))"

definition above :: "u64 option \<Rightarrow> u64 \<Rightarrow> bool" where
  "above limit v = (case limit of None \<Rightarrow> False | Some m \<Rightarrow> m < v)"

definition below :: "u64 option \<Rightarrow> u64 \<Rightarrow> bool" where
  "below limit v = (case limit of None \<Rightarrow> False | Some m \<Rightarrow> v < m)"

definition content_type_ok :: "inline_assert \<Rightarrow> string option \<Rightarrow> bool" where
  "content_type_ok a content_type_lc =
     (case ia_content_type_lc_prefix a of None \<Rightarrow> True
      | Some want \<Rightarrow> (case content_type_lc of None \<Rightarrow> False | Some got \<Rightarrow> starts_with got want))"

definition classify :: "inline_assert \<Rightarrow> u16 \<Rightarrow> u64 \<Rightarrow> u64 \<Rightarrow> string option \<Rightarrow> verdict" where
  "classify a status corrected_us content_length content_type_lc =
     (if status = 429 then RateLimited
      else if \<not> status_ok a status then FailStatus
      else if above (ia_max_latency_us a) corrected_us then FailLatency
      else if below (ia_min_body_bytes a) content_length then FailSize
      else if above (ia_max_body_bytes a) content_length then FailSize
      else if \<not> content_type_ok a content_type_lc then FailContentType
      else Pass)"

section \<open>Verdicts in order of priority\<close>

text \<open>
  The order of \<open>verdict\<close> is the documented priority of the tiers; the verdict of a response is the
  least tier it violates, \<open>Pass\<close> if there is none.
\<close>

fun verdict_rank :: "verdict \<Rightarrow> nat" where
  "verdict_rank RateLimited = 0"
| "verdict_rank FailStatus = 1"
| "verdict_rank FailLatency = 2"
| "verdict_rank FailSize = 3"
| "verdict_rank FailContentType = 4"
| "verdict_rank Pass = 5"

lemma verdict_rank_inj: "verdict_rank v = verdict_rank w \<Longrightarrow> v = w"
  by (cases v; cases w) auto

instantiation verdict :: linorder
begin

definition less_eq_verdict :: "verdict \<Rightarrow> verdict \<Rightarrow> bool" where
  "less_eq_verdict v w \<longleftrightarrow> verdict_rank v \<le> verdict_rank w"

definition less_verdict :: "verdict \<Rightarrow> verdict \<Rightarrow> bool" where
  "less_verdict v w \<longleftrightarrow> verdict_rank v < verdict_rank w"

instance
  by standard (auto simp: less_eq_verdict_def less_verdict_def intro: verdict_rank_inj)

end

definition violated :: "inline_assert \<Rightarrow> u16 \<Rightarrow> u64 \<Rightarrow> u64 \<Rightarrow> string option \<Rightarrow> verdict set" where
  "violated a status lat len ct =
     (if status = 429 then {RateLimited} else {}) \<union>
     (if status_ok a status then {} else {FailStatus}) \<union>
     (if above (ia_max_latency_us a) lat then {FailLatency} else {}) \<union>
     (if below (ia_min_body_bytes a) len \<or> above (ia_max_body_bytes a) len then {FailSize} else {}) \<union>
     (if content_type_ok a ct then {} else {FailContentType})"

lemma finite_violated [simp]: "finite (violated a status lat len ct)"
  by (simp add: violated_def)

lemma classify_in: "classify a status lat len ct \<in> insert Pass (violated a status lat len ct)"
  by (simp add: classify_def violated_def)

lemma classify_least:
  "v \<in> insert Pass (violated a status lat len ct) \<Longrightarrow> classify a status lat len ct \<le> v"
  by (auto simp: classify_def violated_def less_eq_verdict_def split: if_splits)

text \<open>C31. The verdict of a response is the highest-priority tier that it violates (rate limit, status,
  latency, size, content type, in that order), and \<open>Pass\<close> exactly when it violates none: the classes are
  mutually exclusive and exhaustive.\<close>

theorem classify_first_violated_tier:
  "classify a status lat len ct = Min (insert Pass (violated a status lat len ct))"
  using classify_in classify_least by (intro Min_eqI [symmetric]) auto

text \<open>A 429 is never folded into the correctness score: it is rate-limited whatever the
  assertions say, even when 429 is listed as an expected status, and nothing else is ever rate-limited.\<close>

lemma only_429_is_rate_limited:
  "classify a status lat len ct = RateLimited \<longleftrightarrow> status = 429"
  by (simp add: classify_def)

text \<open>The content-type tier ignores ASCII case on both sides: the verdict depends on the
  wanted prefix and on the response header only up to case.\<close>

lemma content_type_case_insensitive:
  assumes "content_type spec = Some want"
    and "eq_ignore_ascii_case want want'" "eq_ignore_ascii_case got got'"
  shows "classify (from_spec spec) status lat len (Some (to_ascii_lowercase got))
       = classify (from_spec (spec\<lparr>content_type := Some want'\<rparr>)) status lat len
           (Some (to_ascii_lowercase got'))"
  using assms by (simp add: from_spec_def eq_ignore_ascii_case_def)

definition example_spec :: run_spec where
  "example_spec =
     \<lparr> url = \<lparr> uri_host = Some ''mock'', uri_port_u16 = Some 8080, uri_scheme_str = Some ''http'',
              uri_path_and_query = Some ''/api'' \<rparr>,
       method_str = ''GET'', target_rps = f64_lit 300, duration_s = 30, keepalive = True,
       connections = 30, timeout_us = 5000000, expected_status = [200], max_latency_us = Some 200000,
       min_body_bytes = None, max_body_bytes = None, content_type = Some ''application/json'',
       ramp = False, sample_every_n = 0, max_sampled_body_bytes = 8192,
       rate_limit_action = Backoff, max_backoff_ms = 5000, record_onset = True \<rparr>"

section \<open>The offered rate\<close>

lemma f64_lit_0_1: "f64_lit 0 = Fin 0" "f64_lit 1 = Fin 1"
  using mk64_int [of 0] mk64_int [of 1] by simp_all

lemma clamp_unit: "x \<noteq> NaN \<Longrightarrow> \<exists>f. f64_clamp x (f64_lit 0) (f64_lit 1) = Fin f \<and> 0 \<le> f \<and> f \<le> 1"
  by (cases x) (auto simp: f64_clamp_def f64_lit_0_1 Let_def not_less)

lemma scaled_duration: "0 < d \<Longrightarrow> \<exists>y. of_u64 d * f64_lit 1000000 = Fin y \<and> 1 \<le> y"
proof -
  assume "0 < d"
  define n where "n = rat_of (of_u64 d)"
  have m: "f64_lit 1000000 = Fin 1000000" using mk64_int [of 1000000] by simp
  have "(1 :: rat) \<le> of_nat (unat d)" using \<open>0 < d\<close> by (simp add: word_less_nat_alt Suc_le_eq)
  then have "round64 (of_int 1) \<le> n" unfolding n_def of_u64_def by (simp add: round64_mono)
  then have n1: "1 \<le> n" using round64_int [of 1] by simp
  have "(of_nat (unat d) :: rat) \<le> of_nat (2 ^ 64)"
    using unsigned_less [of d, where ?'a = nat] by (simp only: of_nat_le_iff) simp
  then have "n \<le> round64 (2 ^ 64)" unfolding n_def of_u64_def by (simp add: round64_mono)
  also have "round64 (2 ^ 64) = (2 ^ 64 :: rat)" by (simp add: float_eval)
  finally have "n * 1000000 \<le> 2 ^ 64 * 1000000" by simp
  then have "round64 (n * 1000000) \<le> round64 (2 ^ 64 * 1000000)" by (rule round64_mono)
  also have "round64 (2 ^ 64 * 1000000) = (2 ^ 64 * 1000000 :: rat)" by (simp add: float_eval)
  also have "\<dots> < overflow_threshold"
    unfolding overflow_threshold_def
    using power_strict_increasing [of 84 1024 "2 :: rat"] by (simp add: power_add [of 2 64 20, simplified])
  finally have up: "round64 (n * 1000000) < overflow_threshold" .
  have "round64 (of_int 1) \<le> round64 (n * 1000000)" using n1 by (intro round64_mono) simp
  then have lo: "1 \<le> round64 (n * 1000000)" using round64_int [of 1] by simp
  have "mk64 (n * 1000000) = Fin (round64 (n * 1000000))"
    using up lo overflow_threshold_pos by (simp add: mk64_def)
  moreover have "of_u64 d * f64_lit 1000000 = mk64 (n * 1000000)"
    unfolding m by (subst of_u64_Fin) (simp add: n_def)
  ultimately show ?thesis using lo by auto
qed

text \<open>The offered rate at the send of a request never exceeds the target and is never
  negative, for a non-negative finite target: a ramp's fraction is clamped to the unit interval.\<close>

lemma offered_rate_within_target:
  assumes "rl_target_rps rl = Fin r" and "round64 r = r" and "0 \<le> r" and "r \<le> 2 ^ 64"
  shows "Fin 0 \<le> offered_rps_at rl e \<and> offered_rps_at rl e \<le> rl_target_rps rl"
proof (cases "rl_ramp rl \<and> 0 < rl_duration_s rl")
  case True
  then obtain y where y: "of_u64 (rl_duration_s rl) * f64_lit 1000000 = Fin y" "1 \<le> y"
    using scaled_duration by blast
  obtain x where x: "of_u64 e = Fin x" using of_u64_Fin by blast
  then have "of_u64 e / (of_u64 (rl_duration_s rl) * f64_lit 1000000) \<noteq> NaN"
    unfolding y(1) using y(2) by simp
  from clamp_unit [OF this] obtain f where
    f: "f64_clamp (of_u64 e / (of_u64 (rl_duration_s rl) * f64_lit 1000000)) (f64_lit 0) (f64_lit 1) = Fin f"
      "0 \<le> f" "f \<le> 1" by blast
  have "0 \<le> r * f" "r * f \<le> r" using assms f by (simp_all add: mult_left_le)
  moreover have "mk64 r = Fin r" using assms by (simp add: mk64_Fin)
  ultimately have "Fin 0 \<le> mk64 (r * f)" "mk64 (r * f) \<le> Fin r"
    using mk64_nonneg [of "r * f"] mk64_mono [of "r * f" r] by auto
  with True show ?thesis
    unfolding offered_rps_at_def Let_def f(1) assms(1) by simp
next
  case False
  then show ?thesis using assms by (auto simp: offered_rps_at_def)
qed

end
