(* ===== verification/Proto.thy ===== *)
theory Proto
  imports Verdicts
begin

text \<open>
  The messages of \<open>contracts/bench.proto\<close> that the engine sends and receives, as \<open>prost\<close> represents them: an \<open>optional\<close> or
  message field is an option, a \<open>repeated\<close> field a list, a \<open>map\<close> field its list of entries and an \<open>enum\<close> field the
  \<open>i32\<close> of its value.
\<close>

section \<open>Enumerations\<close>

datatype http_method = Get | Post | Put | Patch | Delete | Head

fun http_method_i32 :: "http_method \<Rightarrow> i32" where
  "http_method_i32 Get = 0"
| "http_method_i32 Post = 1"
| "http_method_i32 Put = 2"
| "http_method_i32 Patch = 3"
| "http_method_i32 Delete = 4"
| "http_method_i32 Head = 5"

definition http_method_try_from :: "i32 \<Rightarrow> http_method option" where
  "http_method_try_from n =
     (if n = 0 then Some Get else if n = 1 then Some Post else if n = 2 then Some Put
      else if n = 3 then Some Patch else if n = 4 then Some Delete else if n = 5 then Some Head else None)"

lemma http_method_enum [wire_simps]: "http_method_try_from (http_method_i32 m) = Some m"
  by (cases m) (simp_all add: http_method_try_from_def)

datatype rate_limit_action_enum = RlContinue | RlBackoff | RlAbort

fun rate_limit_action_i32 :: "rate_limit_action_enum \<Rightarrow> i32" where
  "rate_limit_action_i32 RlContinue = 0"
| "rate_limit_action_i32 RlBackoff = 1"
| "rate_limit_action_i32 RlAbort = 2"

definition rate_limit_action_try_from :: "i32 \<Rightarrow> rate_limit_action_enum option" where
  "rate_limit_action_try_from n =
     (if n = 0 then Some RlContinue else if n = 1 then Some RlBackoff else if n = 2 then Some RlAbort else None)"

lemma rate_limit_action_enum [wire_simps]: "rate_limit_action_try_from (rate_limit_action_i32 a) = Some a"
  by (cases a) (simp_all add: rate_limit_action_try_from_def)

datatype load_model = LmOpen | LmClosed

fun load_model_i32 :: "load_model \<Rightarrow> i32" where
  "load_model_i32 LmOpen = 0"
| "load_model_i32 LmClosed = 1"

section \<open>Assignments\<close>

record target =
  tgt_url :: string
  tgt_method :: i32
  tgt_headers :: "(string \<times> string) list"
  tgt_body :: bytes
  tgt_timeout_ms :: i32
  tgt_verify_tls :: bool

record assert_spec =
  asrt_max_latency_us :: "i64 option"
  asrt_min_body_bytes :: "i32 option"
  asrt_max_body_bytes :: "i32 option"
  asrt_content_type :: "string option"
  asrt_expected_status :: "i32 list"
  asrt_sample_every_n :: i32
  asrt_ship_bodies :: bool
  asrt_max_sampled_body_bytes :: i32

record rate_limit_policy_msg =
  rlp_action :: i32
  rlp_max_backoff_ms :: i32
  rlp_record_onset :: bool

record assignment =
  asg_run_id :: string
  asg_worker_id :: string
  asg_contract_version :: string
  asg_target :: "target option"
  asg_throughput :: f64
  asg_catch_up :: f64
  asg_load_model :: i32
  asg_connections :: i32
  asg_keepalive :: bool
  asg_epoch_unix_us :: i64
  asg_duration_s :: i32
  asg_warmup_s :: i32
  asg_assert :: "assert_spec option"
  asg_rate_limit_policy :: "rate_limit_policy_msg option"

section \<open>Worker events\<close>

record rps_bucket =
  rb_rps_lo :: f64
  rb_rps_hi :: f64
  rb_total :: u64
  rb_pass :: u64
  rb_fail_transport :: u64
  rb_fail_status :: u64
  rb_fail_latency :: u64
  rb_fail_size :: u64
  rb_fail_content_type :: u64
  rb_rate_limited :: u64
  rb_timeout :: u64

record rate_limit_signal =
  rls_count_this_tick :: u64
  rls_first_429_rps :: "f64 option"
  rls_last_retry_after_ms :: "i64 option"
  rls_backoff_us_total :: u64

text \<open>No sender fills \<open>Partial.sampled\<close> yet: the samples of a worker stay in its ticks.\<close>

record sampled_response_msg =
  spm_rps_at_send :: f64
  spm_status :: i32
  spm_corrected_lat_us :: i64
  spm_ttfb_us :: i64
  spm_response_headers :: "(string \<times> string) list"
  spm_body :: bytes
  spm_body_truncated :: bool

record partial =
  pt_worker_id :: string
  pt_tick :: u64
  pt_final :: bool
  pt_corrected_hist :: bytes
  pt_uncorrected_hist :: bytes
  pt_ttfb_hist :: bytes
  pt_this_tick_corrected :: bytes
  pt_buckets :: "rps_bucket list"
  pt_offered_rps :: f64
  pt_achieved_rps :: f64
  pt_sched_slip_us :: u64
  pt_client_saturated :: bool
  pt_in_flight :: u32
  pt_conn_errors :: u32
  pt_timeouts :: u32
  pt_rate_limit :: "rate_limit_signal option"
  pt_bytes_sent :: u64
  pt_bytes_recv :: u64
  pt_sampled :: "sampled_response_msg list"

datatype event_kind =
    KStarted (actual_start_unix_us: i64) (skew_us: i64)
  | KPartial partial
  | KSaturated u64 string
  | KError string string bool

text \<open>A \<open>WorkerEvent\<close> is its \<open>kind\<close>.\<close>

type_synonym worker_event_msg = "event_kind option"

section \<open>Registration, health and abort\<close>

record worker_info =
  wi_worker_id :: string
  wi_address :: string
  wi_contract_version :: string
  wi_max_rps :: u32

record register_ack =
  ack_accepted :: bool
  ack_reason :: string

record worker_health =
  wh_worker_id :: string
  wh_run_id :: string
  wh_ts_unix_us :: i64
  wh_cpu_pct :: f64
  wh_rss_bytes :: u64
  wh_fd_count :: u32

record health_ack =
  ha_ok :: bool

record abort_request =
  ar_run_id :: string
  ar_worker_id :: string
  ar_reason :: string

record abort_ack =
  aa_accepted :: bool

end
