(* ===== verification/Coordinator.thy ===== *)
theory Coordinator
  imports Hash_Map Proto
begin

text \<open>
  The coordinator's state and its half of the gRPC service, \<open>engine/src/coordinator/mod.rs\<close>: the registry of workers with
  its heartbeat reaper and the registry of runs in flight. Each operation is one critical section of the code. Instants
  are microseconds; a cancellation token is a number and \<open>co_cancelled\<close> lists the cancelled ones.
\<close>

section \<open>State\<close>

record worker =
  wk_worker_id :: string
  wk_address :: string
  wk_contract_version :: string
  wk_max_rps :: u32
  wk_registered_at :: nat
  wk_last_heartbeat :: nat

definition CONTRACT_VERSION :: string where
  "CONTRACT_VERSION = ''1.0.0''"

definition REAPER_SCAN_INTERVAL :: nat where
  "REAPER_SCAN_INTERVAL = 1000000"

definition HEARTBEAT_DEAD_AFTER :: nat where
  "HEARTBEAT_DEAD_AFTER = 3000000"

record run_handle =
  rh_worker_addrs :: "string list"
  rh_cancel :: nat

record coordinator =
  co_workers :: "(string \<times> worker) list"
  co_runs :: "(string \<times> run_handle) list"
  co_cancelled :: "nat list"

definition coordinator_new :: coordinator where
  "coordinator_new = \<lparr> co_workers = [], co_runs = [], co_cancelled = [] \<rparr>"

section \<open>Operations on the registries\<close>

definition list_workers :: "coordinator \<Rightarrow> worker list" where
  "list_workers st = hm_values (co_workers st)"

definition reap_dead_workers :: "nat \<Rightarrow> nat \<Rightarrow> coordinator \<Rightarrow> string list \<times> coordinator" where
  "reap_dead_workers dead_after now st =
     (let dead = map fst (filter (\<lambda>(_, w). dead_after < now - wk_last_heartbeat w) (co_workers st))
      in (dead, st\<lparr>co_workers := fold hm_remove dead (co_workers st)\<rparr>))"

definition register_run :: "string \<Rightarrow> run_handle \<Rightarrow> coordinator \<Rightarrow> coordinator" where
  "register_run run_id h st = st\<lparr>co_runs := hm_insert run_id h (co_runs st)\<rparr>"

definition deregister_run :: "string \<Rightarrow> coordinator \<Rightarrow> coordinator" where
  "deregister_run run_id st = st\<lparr>co_runs := hm_remove run_id (co_runs st)\<rparr>"

definition is_run_active :: "string \<Rightarrow> coordinator \<Rightarrow> bool" where
  "is_run_active run_id st \<longleftrightarrow> hm_get (co_runs st) run_id \<noteq> None"

definition worker_url :: "string \<Rightarrow> string" where
  "worker_url addr =
     (if starts_with addr ''http://'' \<or> starts_with addr ''https://'' then addr else ''http://'' @ addr)"

text \<open>What the detached fan-out sends: one abort request to each worker of the run, best effort.\<close>

definition fan_out_aborts :: "string \<Rightarrow> string list \<Rightarrow> (string \<times> abort_request) list" where
  "fan_out_aborts run_id addrs =
     map (\<lambda>addr. (worker_url addr, \<lparr> ar_run_id = run_id, ar_worker_id = [], ar_reason = ''operator abort'' \<rparr>)) addrs"

definition abort_run :: "string \<Rightarrow> coordinator \<Rightarrow> bool \<times> coordinator \<times> (string \<times> abort_request) list" where
  "abort_run run_id st =
     (case hm_get (co_runs st) run_id of
        None \<Rightarrow> (False, st, [])
      | Some h \<Rightarrow>
          (True, st\<lparr>co_cancelled := rh_cancel h # co_cancelled st\<rparr>, fan_out_aborts run_id (rh_worker_addrs h)))"

section \<open>The service\<close>

definition co_register :: "worker_info \<Rightarrow> nat \<Rightarrow> coordinator \<Rightarrow> register_ack \<times> coordinator" where
  "co_register info now st =
     (if wi_contract_version info \<noteq> CONTRACT_VERSION then
        (\<lparr> ack_accepted = False,
           ack_reason = ''contract version mismatch: worker='' @ wi_contract_version info
                        @ '' coordinator='' @ CONTRACT_VERSION \<rparr>, st)
      else if wi_worker_id info = [] \<or> wi_address info = [] then
        (\<lparr> ack_accepted = False, ack_reason = ''worker_id and address are required'' \<rparr>, st)
      else
        (\<lparr> ack_accepted = True, ack_reason = [] \<rparr>,
         st\<lparr>co_workers := hm_insert (wi_worker_id info)
              \<lparr> wk_worker_id = wi_worker_id info, wk_address = wi_address info,
                wk_contract_version = wi_contract_version info, wk_max_rps = wi_max_rps info,
                wk_registered_at = now, wk_last_heartbeat = now \<rparr> (co_workers st)\<rparr>))"

text \<open>One message of a heartbeat stream; the acknowledgement is always sent.\<close>

definition co_heartbeat :: "string \<Rightarrow> nat \<Rightarrow> coordinator \<Rightarrow> health_ack \<times> coordinator" where
  "co_heartbeat worker_id now st =
     (\<lparr> ha_ok = True \<rparr>,
      case hm_get (co_workers st) worker_id of
        Some w \<Rightarrow> st\<lparr>co_workers := hm_insert worker_id (w\<lparr>wk_last_heartbeat := now\<rparr>) (co_workers st)\<rparr>
      | None \<Rightarrow> st)"

text \<open>The stream of a worker, with the instants at which its messages arrive, until it ends or breaks.\<close>

fun co_heartbeat_stream :: "(worker_health \<times> nat) list \<Rightarrow> coordinator \<Rightarrow> health_ack list \<times> coordinator" where
  "co_heartbeat_stream [] st = ([], st)"
| "co_heartbeat_stream ((msg, now) # msgs) st =
     (case co_heartbeat (wh_worker_id msg) now st of
        (ack, st1) \<Rightarrow> (case co_heartbeat_stream msgs st1 of (acks, st2) \<Rightarrow> (ack # acks, st2)))"

text \<open>\<open>RunSlice\<close> and \<open>Abort\<close> are unimplemented on this side.\<close>

definition co_run_slice :: "assignment \<Rightarrow> string" where
  "co_run_slice a = ''RunSlice is implemented on the worker side, not the coordinator''"

definition co_abort :: "abort_request \<Rightarrow> string" where
  "co_abort r = ''Abort is implemented on the worker side, not the coordinator''"

datatype co_event =
    Registers worker_info nat
  | Heartbeats string nat
  | Scans nat
  | RunStarts string run_handle
  | RunEnds string
  | AbortsRun string

fun co_step :: "co_event \<Rightarrow> coordinator \<Rightarrow> coordinator" where
  "co_step (Registers info now) st = snd (co_register info now st)"
| "co_step (Heartbeats w now) st = snd (co_heartbeat w now st)"
| "co_step (Scans now) st = snd (reap_dead_workers HEARTBEAT_DEAD_AFTER now st)"
| "co_step (RunStarts r h) st = register_run r h st"
| "co_step (RunEnds r) st = deregister_run r st"
| "co_step (AbortsRun r) st = fst (snd (abort_run r st))"

definition co_run :: "co_event list \<Rightarrow> coordinator \<Rightarrow> coordinator" where
  "co_run es st = fold co_step es st"

text \<open>A stream is a sequence of heartbeats, each of them acknowledged, and whatever it carries beside the name is ignored.\<close>

lemma heartbeat_stream:
  "length (fst (co_heartbeat_stream msgs st)) = length msgs \<and> list_all ha_ok (fst (co_heartbeat_stream msgs st))
   \<and> snd (co_heartbeat_stream msgs st) = co_run (map (\<lambda>(msg, now). Heartbeats (wh_worker_id msg) now) msgs) st"
  by (induction msgs st rule: co_heartbeat_stream.induct)
    (auto simp: co_run_def co_heartbeat_def split: prod.splits)

section \<open>Well-formed registries\<close>

definition worker_ok :: "string \<Rightarrow> worker \<Rightarrow> bool" where
  "worker_ok k w \<longleftrightarrow> wk_worker_id w = k \<and> k \<noteq> [] \<and> wk_address w \<noteq> [] \<and> wk_contract_version w = CONTRACT_VERSION"

definition co_inv :: "coordinator \<Rightarrow> bool" where
  "co_inv st \<longleftrightarrow> hm_wf (co_workers st) \<and> hm_wf (co_runs st)
     \<and> (\<forall>k w. hm_get (co_workers st) k = Some w \<longrightarrow> worker_ok k w)"

lemma co_invD:
  assumes "co_inv st"
  shows "hm_wf (co_workers st)" "hm_wf (co_runs st)" "hm_get (co_workers st) k = Some w \<Longrightarrow> worker_ok k w"
  using assms by (auto simp: co_inv_def)

lemma reap_get:
  assumes "hm_wf (co_workers st)"
  shows "hm_get (co_workers (snd (reap_dead_workers dead_after now st))) k =
      (case hm_get (co_workers st) k of
         None \<Rightarrow> None
       | Some w \<Rightarrow> if dead_after < now - wk_last_heartbeat w then None else Some w)"
    and "k \<in> set (fst (reap_dead_workers dead_after now st)) \<longleftrightarrow>
      (\<exists>w. hm_get (co_workers st) k = Some w \<and> dead_after < now - wk_last_heartbeat w)"
    and "hm_wf (co_workers (snd (reap_dead_workers dead_after now st)))"
proof -
  let ?dead = "fst (reap_dead_workers dead_after now st)"
  show dead: "k \<in> set ?dead \<longleftrightarrow> (\<exists>w. hm_get (co_workers st) k = Some w \<and> dead_after < now - wk_last_heartbeat w)"
    using hm_get_in [OF assms] by (force simp: reap_dead_workers_def Let_def)
  have st': "co_workers (snd (reap_dead_workers dead_after now st)) = fold hm_remove ?dead (co_workers st)"
    by (simp add: reap_dead_workers_def Let_def)
  show "hm_wf (co_workers (snd (reap_dead_workers dead_after now st)))"
    unfolding st' by (rule hm.inv_removes [OF assms])
  show "hm_get (co_workers (snd (reap_dead_workers dead_after now st))) k =
      (case hm_get (co_workers st) k of
         None \<Rightarrow> None
       | Some w \<Rightarrow> if dead_after < now - wk_last_heartbeat w then None else Some w)"
    unfolding st' by (subst hm.get_removes [OF assms]) (use dead in \<open>auto split: option.split\<close>)
qed

lemma heartbeat_get:
  assumes "hm_wf (co_workers st)"
  shows "hm_get (co_workers (snd (co_heartbeat w now st))) k =
      (if k = w then map_option (\<lambda>x. x\<lparr>wk_last_heartbeat := now\<rparr>) (hm_get (co_workers st) w)
       else hm_get (co_workers st) k)"
    and "hm_wf (co_workers (snd (co_heartbeat w now st)))"
  using assms by (auto simp: co_heartbeat_def hm.get_insert hm.inv_insert split: option.split)

lemma register_get:
  assumes "hm_wf (co_workers st)" "ack_accepted (fst (co_register info now st))"
  shows "hm_get (co_workers (snd (co_register info now st))) =
      (hm_get (co_workers st))(wi_worker_id info \<mapsto>
         \<lparr> wk_worker_id = wi_worker_id info, wk_address = wi_address info,
           wk_contract_version = wi_contract_version info, wk_max_rps = wi_max_rps info,
           wk_registered_at = now, wk_last_heartbeat = now \<rparr>)"
    and "hm_wf (co_workers (snd (co_register info now st)))"
  using assms by (auto simp: co_register_def hm.get_insert hm.inv_insert split: if_splits)

lemma register_rejected: "\<not> ack_accepted (fst (co_register info now st)) \<Longrightarrow> snd (co_register info now st) = st"
  by (auto simp: co_register_def split: if_splits)

lemma register_accepted:
  "ack_accepted (fst (co_register info now st)) \<longleftrightarrow>
     wi_contract_version info = CONTRACT_VERSION \<and> wi_worker_id info \<noteq> [] \<and> wi_address info \<noteq> []"
  by (simp add: co_register_def)

lemma co_inv_step: "co_inv st \<Longrightarrow> co_inv (co_step e st)"
proof (cases e)
  case (Registers info now)
  assume inv: "co_inv st"
  show ?thesis
  proof (cases "ack_accepted (fst (co_register info now st))")
    case True
    then have "wi_contract_version info = CONTRACT_VERSION \<and> wi_worker_id info \<noteq> [] \<and> wi_address info \<noteq> []"
      by (rule register_accepted [THEN iffD1])
    moreover have "co_runs (snd (co_register info now st)) = co_runs st" by (simp add: co_register_def)
    ultimately show ?thesis
      using register_get [OF co_invD(1) [OF inv] True] co_invD [OF inv] Registers
      by (auto simp: co_inv_def worker_ok_def)
  next
    case False
    then show ?thesis using register_rejected inv Registers by simp
  qed
next
  case (Heartbeats w now)
  assume inv: "co_inv st"
  have "co_runs (snd (co_heartbeat w now st)) = co_runs st" by (simp add: co_heartbeat_def split: option.split)
  then show ?thesis
    using heartbeat_get [OF co_invD(1) [OF inv], of w now] co_invD [OF inv] Heartbeats
    by (auto simp: co_inv_def worker_ok_def split: if_splits)
next
  case (Scans now)
  assume inv: "co_inv st"
  have "co_runs (snd (reap_dead_workers HEARTBEAT_DEAD_AFTER now st)) = co_runs st"
    by (simp add: reap_dead_workers_def Let_def)
  then show ?thesis
    using reap_get(1,3) [OF co_invD(1) [OF inv], where now = now] co_invD [OF inv] Scans
    by (auto simp: co_inv_def split: option.splits if_splits)
qed (auto simp: co_inv_def register_run_def deregister_run_def abort_run_def hm.inv_insert hm.inv_remove
    split: option.splits)

lemma co_run_simps [simp]: "co_run [] st = st" "co_run (e # es) st = co_run es (co_step e st)"
  by (simp_all add: co_run_def)

lemma co_inv_run: "co_inv st \<Longrightarrow> co_inv (co_run es st)"
  by (induction es arbitrary: st) (simp_all add: co_inv_step)

section \<open>The liveness of one worker\<close>

text \<open>
  The abstract view of one worker: the time of its last sign of life, or nothing. A valid registration creates or renews
  it, a heartbeat renews it only while it exists, a scan ends it when it is too old.
\<close>

fun live_step :: "string \<Rightarrow> co_event \<Rightarrow> nat option \<Rightarrow> nat option" where
  "live_step w (Registers info now) a =
     (if wi_worker_id info = w \<and> wi_contract_version info = CONTRACT_VERSION \<and> w \<noteq> [] \<and> wi_address info \<noteq> []
      then Some now else a)"
| "live_step w (Heartbeats w' now) a = (if w' = w \<and> a \<noteq> None then Some now else a)"
| "live_step w (Scans now) a =
     (case a of None \<Rightarrow> None | Some seen \<Rightarrow> if HEARTBEAT_DEAD_AFTER < now - seen then None else Some seen)"
| "live_step w _ a = a"

definition last_sign :: "string \<Rightarrow> coordinator \<Rightarrow> nat option" where
  "last_sign w st = map_option wk_last_heartbeat (hm_get (co_workers st) w)"

lemma live_step_refines:
  assumes "co_inv st"
  shows "last_sign w (co_step e st) = live_step w e (last_sign w st)"
proof (cases e)
  case (Registers info now)
  show ?thesis
  proof (cases "ack_accepted (fst (co_register info now st))")
    case True
    then show ?thesis
      using register_get(1) [OF co_invD(1) [OF assms] True] True [unfolded register_accepted] Registers
      by (auto simp: last_sign_def)
  next
    case False
    then show ?thesis
      using register_rejected [OF False] False [unfolded register_accepted] Registers by (auto simp: last_sign_def)
  qed
next
  case (Heartbeats w' now)
  then show ?thesis
    using heartbeat_get(1) [OF co_invD(1) [OF assms]] by (auto simp: last_sign_def option.map_comp comp_def)
next
  case (Scans now)
  then show ?thesis
    using reap_get(1) [OF co_invD(1) [OF assms]] by (auto simp: last_sign_def split: option.split)
qed (simp_all add: last_sign_def register_run_def deregister_run_def abort_run_def split: option.split)

lemma live_run_refines:
  "co_inv st \<Longrightarrow> last_sign w (co_run es st) = fold (live_step w) es (last_sign w st)"
  by (induction es arbitrary: st) (simp_all add: co_inv_step live_step_refines)

text \<open>No sign of life of a worker, and the scans all come in time after one.\<close>

fun silent :: "string \<Rightarrow> co_event \<Rightarrow> bool" where
  "silent w (Registers info now) \<longleftrightarrow> wi_worker_id info \<noteq> w"
| "silent w (Heartbeats w' now) \<longleftrightarrow> w' \<noteq> w"
| "silent w _ \<longleftrightarrow> True"

fun beats_in_time :: "string \<Rightarrow> nat \<Rightarrow> co_event list \<Rightarrow> bool" where
  "beats_in_time w seen [] \<longleftrightarrow> True"
| "beats_in_time w seen (Scans now # es) \<longleftrightarrow> now - seen \<le> HEARTBEAT_DEAD_AFTER \<and> beats_in_time w seen es"
| "beats_in_time w seen (e # es) \<longleftrightarrow>
     beats_in_time w (case live_step w e (Some seen) of Some l \<Rightarrow> l | None \<Rightarrow> seen) es"

lemma beating_live: "beats_in_time w seen es \<Longrightarrow> fold (live_step w) es (Some seen) \<noteq> None"
proof (induction w seen es rule: beats_in_time.induct)
  case (2 w seen now es)
  then show ?case by simp
qed (auto split: if_splits)

lemma dead_stays_dead: "\<forall>e\<in>set es. silent w e \<Longrightarrow> fold (live_step w) es None = None"
proof (induction es)
  case (Cons e es)
  have "live_step w e None = None" using Cons.prems by (cases e) auto
  with Cons show ?case by simp
qed simp

lemma silent_step:
  "silent w e \<Longrightarrow> live_step w e (Some seen) = (case e of
     Scans now \<Rightarrow> if HEARTBEAT_DEAD_AFTER < now - seen then None else Some seen | _ \<Rightarrow> Some seen)"
  by (cases e) auto

lemma silent_dies:
  "\<forall>e\<in>set es. silent w e \<Longrightarrow> Scans now \<in> set es \<Longrightarrow> HEARTBEAT_DEAD_AFTER < now - seen \<Longrightarrow>
   fold (live_step w) es (Some seen) = None"
proof (induction es)
  case (Cons e es)
  show ?case
  proof (cases "live_step w e (Some seen)")
    case None
    with Cons.prems show ?thesis by (simp add: dead_stays_dead)
  next
    case (Some l)
    with Cons.prems(1) have "l = seen" by (auto simp: silent_step split: co_event.splits if_splits)
    moreover have "Scans now \<in> set es" using Cons.prems Some by (auto simp: silent_step)
    ultimately show ?thesis using Cons Some by simp
  qed
qed simp

text \<open>C12. The worker registry is a product of independent workers: whatever the fleet does, the entry of a worker is what the
  abstract life cycle of that worker alone computes from the events, and the registry keeps its invariant (distinct
  keys, each entry under its own id, only validated entries).\<close>

theorem registry_refines_life_cycles:
  assumes "co_inv st"
  shows "last_sign w (co_run es st) = fold (live_step w) es (last_sign w st) \<and> co_inv (co_run es st)"
  using live_run_refines [OF assms] co_inv_run [OF assms] by blast

text \<open>C29. The reaper is exact: a worker that gives a sign of life within three seconds before every scan is never evicted, and
  a worker that stays silent is gone after the first scan that is more than three seconds late.\<close>

theorem reaper_is_exact:
  assumes "co_inv st" "hm_get (co_workers st) w = Some x"
  shows "(beats_in_time w (wk_last_heartbeat x) es \<longrightarrow> hm_get (co_workers (co_run es st)) w \<noteq> None)
    \<and> ((\<forall>e\<in>set es. silent w e) \<and> Scans now \<in> set es \<and> HEARTBEAT_DEAD_AFTER < now - wk_last_heartbeat x
        \<longrightarrow> hm_get (co_workers (co_run es st)) w = None)"
proof -
  have "last_sign w (co_run es st) = fold (live_step w) es (Some (wk_last_heartbeat x))"
    using live_run_refines [OF assms(1)] assms(2) by (simp add: last_sign_def)
  then show ?thesis
    using beating_live [of w "wk_last_heartbeat x" es] silent_dies [of es w now "wk_last_heartbeat x"]
    by (auto simp: last_sign_def)
qed

text \<open>Aborting a run answers whether it is in flight; if it is, its token is cancelled and exactly its workers are told
  to abort exactly this run, and if it is not, nothing changes and nobody is told.\<close>

lemma abort_run_is_exact:
  assumes "abort_run run_id st = (found, st', sent)"
  shows "found = is_run_active run_id st
    \<and> (case hm_get (co_runs st) run_id of
         Some h \<Rightarrow> st' = st\<lparr>co_cancelled := rh_cancel h # co_cancelled st\<rparr>
             \<and> map fst sent = map worker_url (rh_worker_addrs h) \<and> (\<forall>q\<in>set sent. ar_run_id (snd q) = run_id)
       | None \<Rightarrow> st' = st \<and> sent = [])"
  using assms by (auto simp: abort_run_def is_run_active_def fan_out_aborts_def split: option.splits)

section \<open>An example\<close>

definition demo_info :: worker_info where
  "demo_info = \<lparr> wi_worker_id = ''w1'', wi_address = ''10.0.0.1:7001'', wi_contract_version = ''1.0.0'', wi_max_rps = 0 \<rparr>"

definition demo_coordinator :: coordinator where
  "demo_coordinator = co_run [Registers demo_info 0] coordinator_new"

lemma co_inv_new: "co_inv coordinator_new"
  by (simp add: co_inv_def coordinator_new_def hm.inv_empty hm.get_empty)

lemma demo_registered:
  "co_inv demo_coordinator" "map_option wk_last_heartbeat (hm_get (co_workers demo_coordinator) ''w1'') = Some 0"
  unfolding demo_coordinator_def
  by (rule co_inv_run [OF co_inv_new])
    (simp add: co_register_def demo_info_def CONTRACT_VERSION_def coordinator_new_def hm.get_insert hm.inv_empty)

theorem registry_refines_life_cycles_witness:
  "last_sign ''w1'' (co_run [Heartbeats ''w1'' 2500000, Scans 5000000] demo_coordinator) = Some 2500000"
  using registry_refines_life_cycles [OF demo_registered(1), of "''w1''" "[Heartbeats ''w1'' 2500000, Scans 5000000]"]
    demo_registered(2)
  by (simp add: last_sign_def HEARTBEAT_DEAD_AFTER_def)

theorem reaper_is_exact_witness:
  "hm_get (co_workers (co_run [Scans 1000000, Heartbeats ''w1'' 1100000, Scans 4000000] demo_coordinator)) ''w1'' \<noteq> None
   \<and> hm_get (co_workers (co_run [Scans 1000000, Scans 4000000] demo_coordinator)) ''w1'' = None"
proof -
  obtain x where x: "hm_get (co_workers demo_coordinator) ''w1'' = Some x" "wk_last_heartbeat x = 0"
    using demo_registered(2) by auto
  show ?thesis
    using reaper_is_exact [OF demo_registered(1) x(1), of "[Scans 1000000, Heartbeats ''w1'' 1100000, Scans 4000000]"]
      reaper_is_exact [OF demo_registered(1) x(1), of "[Scans 1000000, Scans 4000000]" 4000000] x(2)
    by (simp add: HEARTBEAT_DEAD_AFTER_def del: co_run_simps)
qed

text \<open>
  The worker binary renews its registration every ten seconds and sends no heartbeats, while the coordinator scans every
  second: such a worker is evicted four seconds after each registration, for the rest of the interval.
\<close>

lemma reregistering_worker_is_evicted:
  "hm_get (co_workers (co_run [Scans 1000000, Scans 2000000, Scans 3000000, Scans 4000000] demo_coordinator)) ''w1'' = None"
proof -
  let ?es = "[Scans 1000000, Scans 2000000, Scans 3000000, Scans 4000000]"
  have "last_sign ''w1'' demo_coordinator = Some 0" using demo_registered(2) by (simp only: last_sign_def)
  then have "last_sign ''w1'' (co_run ?es demo_coordinator) = fold (live_step ''w1'') ?es (Some 0)"
    by (simp only: live_run_refines [OF demo_registered(1)])
  also have "\<dots> = None" by (simp add: HEARTBEAT_DEAD_AFTER_def)
  finally show ?thesis by (simp only: last_sign_def option.map_disc_iff)
qed

end
