(* ===== verification/Http_Reader.thy ===== *)
theory Http_Reader
  imports Verdicts "HOL-Library.Sublist"
begin

text \<open>
  Reading one HTTP/1.1 response off a connection: \<open>read_one_response\<close> and \<open>parse_retry_after_ms\<close> of
  \<open>engine/src/worker.rs\<close>, with the parts of \<open>core::str\<close> they use. The \<open>httparse\<close> crate is an argument: a function from
  the bytes read so far to its verdict. The socket is the list of the outcomes of its reads.
\<close>

section \<open>Fragments of core::str\<close>

text \<open>\<open>str::from_utf8\<close>: the well-formed byte sequences of the Unicode standard.\<close>

definition cont_byte :: "nat \<Rightarrow> bool" where
  "cont_byte b \<longleftrightarrow> 128 \<le> b \<and> b \<le> 191"

fun utf8_valid :: "nat list \<Rightarrow> bool" where
  "utf8_valid [] = True"
| "utf8_valid (a # bs) =
     (if a < 128 then utf8_valid bs
      else case bs of
        [] \<Rightarrow> False
      | b # cs \<Rightarrow>
          if 194 \<le> a \<and> a \<le> 223 then cont_byte b \<and> utf8_valid cs
          else case cs of
            [] \<Rightarrow> False
          | c # ds \<Rightarrow>
              if a = 224 then 160 \<le> b \<and> b \<le> 191 \<and> cont_byte c \<and> utf8_valid ds
              else if a = 237 then 128 \<le> b \<and> b \<le> 159 \<and> cont_byte c \<and> utf8_valid ds
              else if 225 \<le> a \<and> a \<le> 239 then cont_byte b \<and> cont_byte c \<and> utf8_valid ds
              else case ds of
                [] \<Rightarrow> False
              | d # es \<Rightarrow>
                  if a = 240 then 144 \<le> b \<and> b \<le> 191 \<and> cont_byte c \<and> cont_byte d \<and> utf8_valid es
                  else if 241 \<le> a \<and> a \<le> 243 then cont_byte b \<and> cont_byte c \<and> cont_byte d \<and> utf8_valid es
                  else if a = 244 then 128 \<le> b \<and> b \<le> 143 \<and> cont_byte c \<and> cont_byte d \<and> utf8_valid es
                  else False)"

definition from_utf8 :: "bytes \<Rightarrow> string option" where
  "from_utf8 bs = (if utf8_valid (map of_char bs) then Some bs else None)"

text \<open>\<open>str::trim\<close>: the UTF-8 encodings of the White_Space code points are stripped from both ends.\<close>

definition white_space :: "string list" where
  "white_space = map (map char_of)
     ([[9], [10], [11], [12], [13], [32], [194, 133], [194, 160], [225, 154, 128]]
      @ map (\<lambda>b. [226, 128, b]) [128, 129, 130, 131, 132, 133, 134, 135, 136, 137, 138, 168, 169, 175]
      @ [[226, 129, 159], [227, 128, 128 :: nat]])"

fun strip_prefix_any :: "string list \<Rightarrow> string \<Rightarrow> string option" where
  "strip_prefix_any [] s = None"
| "strip_prefix_any (w # ws) s =
     (if w \<noteq> [] \<and> starts_with s w then Some (drop (length w) s) else strip_prefix_any ws s)"

lemma strip_prefix_any_shorter: "strip_prefix_any ws s = Some t \<Longrightarrow> length t < length s"
  by (induction ws) (auto simp: starts_with_iff split: if_splits)

function strip_all :: "string list \<Rightarrow> string \<Rightarrow> string" where
  "strip_all ws s = (case strip_prefix_any ws s of None \<Rightarrow> s | Some t \<Rightarrow> strip_all ws t)"
  by pat_completeness auto
termination
  by (relation "measure (\<lambda>(ws, s). length s)") (auto dest: strip_prefix_any_shorter)

declare strip_all.simps [simp del]

definition trim :: "string \<Rightarrow> string" where
  "trim s = rev (strip_all (map rev white_space) (rev (strip_all white_space s)))"

lemma strip_all_plain:
  "\<forall>w\<in>set ws. w \<noteq> [] \<and> hd w \<noteq> c \<Longrightarrow> strip_all ws (c # s) = c # s"
proof -
  have "\<forall>w\<in>set ws. w \<noteq> [] \<and> hd w \<noteq> c \<Longrightarrow> strip_prefix_any ws (c # s) = None"
    by (induction ws) (auto simp: starts_with_iff neq_Nil_conv)
  then show "\<forall>w\<in>set ws. w \<noteq> [] \<and> hd w \<noteq> c \<Longrightarrow> ?thesis" by (simp add: strip_all.simps)
qed

lemma white_space_ends:
  "w \<in> set white_space \<Longrightarrow> w \<noteq> [] \<and> (of_char (hd w) :: nat) \<notin> {33..127} \<and> (of_char (last w) :: nat) \<notin> {33..127}"
  by (auto simp: white_space_def of_char_of)

text \<open>A value that begins and ends with a printable ASCII character is left alone.\<close>

lemma trim_plain:
  assumes "(of_char (hd s) :: nat) \<in> {33..127}" "(of_char (last s) :: nat) \<in> {33..127}" "s \<noteq> []"
  shows "trim s = s"
proof -
  obtain c cs where s: "s = c # cs" using assms(3) by (cases s) auto
  have "strip_all white_space s = s"
    unfolding s by (rule strip_all_plain) (use white_space_ends assms(1) s in fastforce)
  moreover obtain d ds where r: "rev s = d # ds" "d = last s" using assms(3) by (cases "rev s") (auto simp: last_rev [symmetric])
  have "strip_all (map rev white_space) (rev s) = rev s"
    unfolding r(1) by (rule strip_all_plain) (use white_space_ends assms(2) r(2) in \<open>fastforce simp: hd_rev\<close>)
  ultimately show ?thesis by (simp add: trim_def)
qed

text \<open>\<open>str::parse::<u64>\<close>: an optional plus sign, at least one decimal digit, no overflow.\<close>

definition digit_of :: "char \<Rightarrow> nat option" where
  "digit_of c = (let n = (of_char c :: nat) in if 48 \<le> n \<and> n \<le> 57 then Some (n - 48) else None)"

fun digits_value :: "nat \<Rightarrow> string \<Rightarrow> nat option" where
  "digits_value acc [] = Some acc"
| "digits_value acc (c # cs) =
     (case digit_of c of None \<Rightarrow> None | Some d \<Rightarrow> digits_value (10 * acc + d) cs)"

definition parse_u64 :: "string \<Rightarrow> u64 option" where
  "parse_u64 s =
     (let ds = (case s of c # cs \<Rightarrow> if c = CHR ''+'' then cs else s | [] \<Rightarrow> s) in
      if ds = [] then None
      else case digits_value 0 ds of
        None \<Rightarrow> None
      | Some n \<Rightarrow> if n < 2 ^ 64 then Some (of_nat n) else None)"

definition parse_retry_after_ms :: "string \<Rightarrow> u64 option" where
  "parse_retry_after_ms v = map_option (\<lambda>secs. saturating_mul secs 1000) (parse_u64 v)"

section \<open>Parsing what has been read\<close>

datatype parse_status =
    Complete usize "u16 option" "(string \<times> bytes) list"
  | Partial
  | ParseError

record parsed_response =
  msg_len :: usize
  status :: u16
  content_length :: u64
  content_type_lc :: "string option"
  retry_after_ms :: "u64 option"

record header_fields =
  hf_cl :: u64
  hf_ct :: "string option"
  hf_ra :: "u64 option"

definition scan_header :: "string \<times> bytes \<Rightarrow> header_fields \<Rightarrow> header_fields" where
  "scan_header h f =
     (if eq_ignore_ascii_case (fst h) ''content-length'' then
        (case from_utf8 (snd h) of
           Some s \<Rightarrow> f\<lparr>hf_cl := (case parse_u64 (trim s) of Some n \<Rightarrow> n | None \<Rightarrow> 0)\<rparr>
         | None \<Rightarrow> f)
      else if eq_ignore_ascii_case (fst h) ''content-type'' then
        (case from_utf8 (snd h) of
           Some s \<Rightarrow> f\<lparr>hf_ct := Some (to_ascii_lowercase (trim s))\<rparr>
         | None \<Rightarrow> f)
      else if eq_ignore_ascii_case (fst h) ''retry-after'' then
        (case from_utf8 (snd h) of
           Some s \<Rightarrow> f\<lparr>hf_ra := parse_retry_after_ms (trim s)\<rparr>
         | None \<Rightarrow> f)
      else f)"

definition scan_headers :: "(string \<times> bytes) list \<Rightarrow> header_fields" where
  "scan_headers hs = fold scan_header hs \<lparr> hf_cl = 0, hf_ct = None, hf_ra = None \<rparr>"

datatype parse_outcome = OutcomeComplete parsed_response | NeedMore | Bad

definition parse_outcome_of :: "(bytes \<Rightarrow> parse_status) \<Rightarrow> bytes \<Rightarrow> parse_outcome" where
  "parse_outcome_of httparse buf =
     (case httparse buf of
        Complete hdr_end code headers \<Rightarrow>
          (let f = scan_headers headers;
               total = hdr_end + hf_cl f
           in if unat total \<le> length buf
              then OutcomeComplete
                \<lparr> msg_len = total, status = (case code of Some c \<Rightarrow> c | None \<Rightarrow> 0),
                  content_length = hf_cl f, content_type_lc = hf_ct f, retry_after_ms = hf_ra f \<rparr>
              else NeedMore)
      | Partial \<Rightarrow> NeedMore
      | ParseError \<Rightarrow> Bad)"

section \<open>The read loop\<close>

datatype read_result = ReadOk parsed_response | Timeout | Err

text \<open>
  One element per turn of the loop that has to wait for the socket: the deadline had already passed, or
  what \<open>timeout(remaining, stream.read(..))\<close> gave. \<open>Chunk []\<close> is the end of the stream. A chunk longer than the free
  space of the buffer is delivered in part; its rest stays in the socket. A script that ends is a peer that sends
  nothing more, until the deadline.
\<close>

datatype socket_event = DeadlinePassed | Chunk bytes | IoError | Elapsed

definition READ_BUF_BYTES :: nat where
  "READ_BUF_BYTES = 64 * 1024"

fun socket_weight :: "socket_event list \<Rightarrow> nat" where
  "socket_weight [] = 0"
| "socket_weight (Chunk bs # es) = Suc (length bs) + socket_weight es"
| "socket_weight (e # es) = Suc (socket_weight es)"

function read_one_response ::
  "(bytes \<Rightarrow> parse_status) \<Rightarrow> bytes \<Rightarrow> socket_event list \<Rightarrow> read_result \<times> bytes \<times> socket_event list" where
  "read_one_response httparse buf es =
     (case parse_outcome_of httparse buf of
        OutcomeComplete p \<Rightarrow> (ReadOk p, buf, es)
      | Bad \<Rightarrow> (Err, buf, es)
      | NeedMore \<Rightarrow>
          (case es of
             [] \<Rightarrow> (if length buf \<ge> READ_BUF_BYTES then Err else Timeout, buf, [])
           | DeadlinePassed # es' \<Rightarrow> (Timeout, buf, es')
           | e # es' \<Rightarrow>
               if length buf \<ge> READ_BUF_BYTES then (Err, buf, es)
               else case e of
                 Chunk bs \<Rightarrow>
                   (let space = READ_BUF_BYTES - length buf in
                    if bs = [] then (Err, buf, es')
                    else if length bs \<le> space then read_one_response httparse (buf @ bs) es'
                    else read_one_response httparse (buf @ take space bs) (Chunk (drop space bs) # es'))
               | IoError \<Rightarrow> (Err, buf, es')
               | Elapsed \<Rightarrow> (Timeout, buf, es')
               | DeadlinePassed \<Rightarrow> (Timeout, buf, es')))"
  by pat_completeness auto
termination
  by (relation "measure (\<lambda>(httparse, buf, es). socket_weight es)") auto

declare read_one_response.simps [simp del]

text \<open>After a response the bytes of the next one move to the front of the buffer.\<close>

definition shift_buffer :: "bytes \<Rightarrow> usize \<Rightarrow> bytes" where
  "shift_buffer buf len = (if unat len < length buf then drop (unat len) buf else [])"

section \<open>Numbers in headers\<close>

text \<open>The decimal numeral of a number, as \<open>Display\<close> prints it.\<close>

fun decimal :: "nat \<Rightarrow> string" where
  "decimal n = (if n < 10 then [char_of (48 + n)] else decimal (n div 10) @ [char_of (48 + n mod 10)])"

declare decimal.simps [simp del]

lemma digit_of_char: "d < 10 \<Longrightarrow> digit_of (char_of (48 + d)) = Some d"
  by (simp add: digit_of_def Let_def of_char_of)

lemma digits_value_append:
  "digits_value acc (s @ t) = (case digits_value acc s of None \<Rightarrow> None | Some n \<Rightarrow> digits_value n t)"
  by (induction s arbitrary: acc) (auto split: option.split)

lemma digits_value_decimal: "digits_value 0 (decimal n) = Some n"
proof (induction n rule: decimal.induct)
  case (1 n)
  show ?case
  proof (cases "n < 10")
    case True
    then show ?thesis by (simp add: decimal.simps [of n] digit_of_char)
  next
    case False
    with 1 show ?thesis by (simp add: decimal.simps [of n] digits_value_append digit_of_char)
  qed
qed

lemma decimal_nonempty [simp]: "decimal n \<noteq> []"
  by (subst decimal.simps) simp

lemma plus_not_digit: "digits_value acc (CHR ''+'' # cs) = None"
  by (simp add: digit_of_def Let_def)

lemma parse_u64_decimal: "parse_u64 (decimal n) = (if n < 2 ^ 64 then Some (of_nat n) else None)"
proof -
  have "\<exists>c cs. decimal n = c # cs \<and> c \<noteq> CHR ''+''"
    using digits_value_decimal [of n] plus_not_digit [of 0] decimal_nonempty [of n]
    by (cases "decimal n") auto
  then show ?thesis
    using digits_value_decimal [of n] by (auto simp: parse_u64_def Let_def)
qed

lemma digits_value_nondigit: "c \<in> set s \<Longrightarrow> digit_of c = None \<Longrightarrow> digits_value acc s = None"
  by (induction s arbitrary: acc) (auto split: option.split)

lemma parse_u64_nondigit: "c \<in> set v \<Longrightarrow> digit_of c = None \<Longrightarrow> parse_u64 (x # v) = None"
  using digits_value_nondigit [of c v 0] digits_value_nondigit [of c "x # v" 0]
  by (simp add: parse_u64_def Let_def)

text \<open>\<open>Retry-After\<close> in delta-seconds form is read back exactly, in milliseconds (saturating), and
  every value with a character other than a digit after the optional plus sign, such as an HTTP date, is ignored.\<close>

lemma retry_after_roundtrip:
  "parse_retry_after_ms (decimal n)
     = (if n < 2 ^ 64 then Some (saturating_mul (of_nat n) 1000) else None)
   \<and> (c \<in> set v \<and> digit_of c = None \<longrightarrow> parse_retry_after_ms (x # v) = None)"
  using parse_u64_nondigit [of c v x] by (simp add: parse_retry_after_ms_def parse_u64_decimal)

section \<open>Framing\<close>

text \<open>
  What the reader relies on, for one response head: \<open>httparse\<close> reports \<open>Partial\<close> on every proper prefix of the head,
  and the complete head, with the same fields, whatever follows it.
\<close>

definition well_framed ::
  "(bytes \<Rightarrow> parse_status) \<Rightarrow> bytes \<Rightarrow> u16 option \<Rightarrow> (string \<times> bytes) list \<Rightarrow> bool" where
  "well_framed httparse head code headers \<longleftrightarrow>
     (\<forall>b. strict_prefix b head \<longrightarrow> httparse b = Partial) \<and>
     (\<forall>ext. httparse (head @ ext) = Complete (of_nat (length head)) code headers)"

definition response_of :: "bytes \<Rightarrow> u16 option \<Rightarrow> (string \<times> bytes) list \<Rightarrow> parsed_response" where
  "response_of head code headers =
     (let f = scan_headers headers in
      \<lparr> msg_len = of_nat (length head) + hf_cl f, status = (case code of Some c \<Rightarrow> c | None \<Rightarrow> 0),
        content_length = hf_cl f, content_type_lc = hf_ct f, retry_after_ms = hf_ra f \<rparr>)"

lemma total_no_wrap:
  "length head + n < 2 ^ 64 \<Longrightarrow> unat (of_nat (length head) + of_nat n :: usize) = length head + n"
  by (simp add: unat_word_ariths unat_of_nat)

lemma outcome_partial:
  assumes "well_framed httparse head code headers" "hf_cl (scan_headers headers) = of_nat n"
    and "length head + n < 2 ^ 64" "length b < length head + n"
    and "prefix b (head @ rest)"
  shows "parse_outcome_of httparse b = NeedMore"
proof (cases "strict_prefix b head")
  case True
  then show ?thesis using assms(1) by (simp add: well_framed_def parse_outcome_of_def)
next
  case False
  then obtain ext where b: "b = head @ ext"
    using assms(5) by (auto simp: prefix_append strict_prefix_def)
  have "httparse (head @ ext) = Complete (of_nat (length head)) code headers"
    using assms(1) by (simp add: well_framed_def)
  then show ?thesis
    using total_no_wrap [OF assms(3)] assms(2,4) by (simp add: b parse_outcome_of_def Let_def)
qed

lemma outcome_complete:
  assumes "well_framed httparse head code headers" "hf_cl (scan_headers headers) = of_nat n"
    and "length head + n < 2 ^ 64" "n \<le> length ext"
  shows "parse_outcome_of httparse (head @ ext) = OutcomeComplete (response_of head code headers)"
proof -
  have "httparse (head @ ext) = Complete (of_nat (length head)) code headers"
    using assms(1) by (simp add: well_framed_def)
  then show ?thesis
    using total_no_wrap [OF assms(3)] assms(2,4)
    by (simp add: parse_outcome_of_def response_of_def Let_def)
qed

lemma read_complete:
  "parse_outcome_of httparse buf = OutcomeComplete p \<Longrightarrow> read_one_response httparse buf es = (ReadOk p, buf, es)"
  by (simp add: read_one_response.simps [of httparse buf es])

lemma read_chunk:
  assumes "parse_outcome_of httparse buf = NeedMore" "length buf < READ_BUF_BYTES" "c \<noteq> []"
  shows "read_one_response httparse buf (Chunk c # es) =
    (if length buf + length c \<le> READ_BUF_BYTES then read_one_response httparse (buf @ c) es
     else read_one_response httparse (buf @ take (READ_BUF_BYTES - length buf) c)
            (Chunk (drop (READ_BUF_BYTES - length buf) c) # es))"
  using assms by (subst read_one_response.simps) (auto simp: Let_def)

lemma frame_complete:
  assumes "well_framed httparse head code headers" "hf_cl (scan_headers headers) = of_nat (length body)"
    and "length head + length body < 2 ^ 64"
    and "length head + length body \<le> length b" "b @ r = head @ body @ extra"
  obtains ext where "read_one_response httparse b es
      = (ReadOk (response_of head code headers), head @ body @ ext, es)" "ext @ r = extra"
proof -
  define ext where "ext = drop (length head + length body) b"
  have *: "b @ r = (head @ body) @ extra" using assms(5) by simp
  have "take (length head + length body) (b @ r) = head @ body" by (subst *) simp
  then have b: "b = head @ body @ ext"
    using assms(4) append_take_drop_id [of "length head + length body" b] by (simp add: ext_def)
  then have "ext @ r = extra" using assms(5) by simp
  moreover have "parse_outcome_of httparse b = OutcomeComplete (response_of head code headers)"
    using outcome_complete [OF assms(1-3), of "body @ ext"] by (simp add: b)
  then have "read_one_response httparse b es = (ReadOk (response_of head code headers), head @ body @ ext, es)"
    by (simp add: read_complete b)
  ultimately show ?thesis using that by blast
qed

lemma read_framed:
  assumes "well_framed httparse head code headers" "hf_cl (scan_headers headers) = of_nat (length body)"
    and small: "length head + length body \<le> READ_BUF_BYTES"
    and "buf @ concat chunks = head @ body @ extra"
    and "[] \<notin> set chunks" "length buf \<le> READ_BUF_BYTES"
  shows "\<exists>ext rest. read_one_response httparse buf (map Chunk chunks @ es)
           = (ReadOk (response_of head code headers), head @ body @ ext, map Chunk rest @ es)
         \<and> ext @ concat rest = extra"
  using assms(4-6)
proof (induction chunks arbitrary: buf)
  case Nil
  have "length head + length body < 2 ^ 64" using small by (simp add: READ_BUF_BYTES_def)
  note fin = frame_complete [OF assms(1,2) this, of buf "[]"]
  from Nil.prems(1) have eq: "buf @ [] = head @ body @ extra" by simp
  have "length head + length body \<le> length buf" using Nil.prems(1) by simp
  then obtain ext where "read_one_response httparse buf es
      = (ReadOk (response_of head code headers), head @ body @ ext, es)" "ext @ [] = extra"
    using fin [OF _ eq] by blast
  then show ?case by (intro exI [of _ ext] exI [of _ "[]"]) simp
next
  case (Cons c cs)
  have "length head + length body < 2 ^ 64" using small by (simp add: READ_BUF_BYTES_def)
  note fin = frame_complete [OF assms(1,2) this]
  show ?case
  proof (cases "length head + length body \<le> length buf")
    case True
    obtain ext where "read_one_response httparse buf (map Chunk (c # cs) @ es)
        = (ReadOk (response_of head code headers), head @ body @ ext, map Chunk (c # cs) @ es)"
        "ext @ concat (c # cs) = extra"
      using fin [OF True Cons.prems(1)] by blast
    then show ?thesis by blast
  next
    case False
    have "prefix buf (head @ body @ extra)" using Cons.prems(1) by (metis prefixI)
    then have more: "parse_outcome_of httparse buf = NeedMore"
      using outcome_partial [OF assms(1,2)] False small by (simp add: READ_BUF_BYTES_def)
    have room: "length buf < READ_BUF_BYTES" using False small by simp
    have "c \<noteq> []" using Cons.prems(2) by auto
    note step = read_chunk [OF more room this, of "map Chunk cs @ es"]
    show ?thesis
    proof (cases "length buf + length c \<le> READ_BUF_BYTES")
      case fits: True
      have "\<exists>ext rest. read_one_response httparse (buf @ c) (map Chunk cs @ es)
           = (ReadOk (response_of head code headers), head @ body @ ext, map Chunk rest @ es)
         \<and> ext @ concat rest = extra"
        by (rule Cons.IH) (use Cons.prems fits in simp_all)
      then show ?thesis using step fits by simp
    next
      case big: False
      define b where "b = buf @ take (READ_BUF_BYTES - length buf) c"
      define d where "d = drop (READ_BUF_BYTES - length buf) c"
      have "length head + length body \<le> length b" using big small room by (simp add: b_def)
      moreover have "b @ d @ concat cs = head @ body @ extra"
        using Cons.prems(1) append_take_drop_id [of "READ_BUF_BYTES - length buf" c]
        unfolding b_def d_def by (metis append.assoc concat.simps(2))
      ultimately obtain ext where "read_one_response httparse b (Chunk d # map Chunk cs @ es)
          = (ReadOk (response_of head code headers), head @ body @ ext, Chunk d # map Chunk cs @ es)"
          "ext @ d @ concat cs = extra"
        using fin by blast
      then show ?thesis
        using step big by (intro exI [of _ ext] exI [of _ "d # cs"]) (simp add: b_def d_def)
    qed
  qed
qed

lemma read_within_buffer:
  "read_one_response httparse buf es = (r, got, rest) \<Longrightarrow> length buf \<le> READ_BUF_BYTES \<Longrightarrow>
     prefix buf got \<and> length got \<le> READ_BUF_BYTES \<and> (\<forall>p. r = ReadOk p \<longrightarrow> parse_outcome_of httparse got = OutcomeComplete p)"
proof (induction httparse buf es arbitrary: r got rest rule: read_one_response.induct)
  case (1 httparse buf es)
  show ?case
  proof (cases "parse_outcome_of httparse buf")
    case NeedMore
    show ?thesis
    proof (cases es)
      case Nil
      then show ?thesis
        using "1.prems" NeedMore by (auto simp: read_one_response.simps [of httparse buf "[]"] split: if_splits)
    next
      case (Cons e es')
      show ?thesis
      proof (cases "length buf < READ_BUF_BYTES \<and> (\<exists>c. e = Chunk c \<and> c \<noteq> [])")
        case False
        then show ?thesis using "1.prems" NeedMore Cons
          by (auto simp: read_one_response.simps [of httparse buf "e # es'"] split: socket_event.splits if_splits)
      next
        case True
        then obtain c where c: "e = Chunk c" "c \<noteq> []" "length buf < READ_BUF_BYTES" by blast
        show ?thesis
        proof (cases "length c \<le> READ_BUF_BYTES - length buf")
          case fits: True
          from "1.prems" read_chunk [OF NeedMore c(3,2)] fits c Cons
          have "read_one_response httparse (buf @ c) es' = (r, got, rest)" by (auto split: if_splits)
          from 1(1) [OF NeedMore Cons c(1) _ refl refl c(2) fits this] fits c
          have "prefix (buf @ c) got \<and> length got \<le> READ_BUF_BYTES \<and>
              (\<forall>p. r = ReadOk p \<longrightarrow> parse_outcome_of httparse got = OutcomeComplete p)"
            by simp
          then show ?thesis by (auto simp: prefix_def)
        next
          case big: False
          from "1.prems" read_chunk [OF NeedMore c(3,2)] big c Cons
          have "read_one_response httparse (buf @ take (READ_BUF_BYTES - length buf) c)
            (Chunk (drop (READ_BUF_BYTES - length buf) c) # es') = (r, got, rest)" by (auto split: if_splits)
          from 1(2) [OF NeedMore Cons c(1) _ refl refl c(2) big this] c
          have "prefix (buf @ take (READ_BUF_BYTES - length buf) c) got \<and> length got \<le> READ_BUF_BYTES \<and>
              (\<forall>p. r = ReadOk p \<longrightarrow> parse_outcome_of httparse got = OutcomeComplete p)"
            by simp
          then show ?thesis by (auto simp: prefix_def)
        qed
      qed
    qed
  qed (use "1.prems" in \<open>auto simp: read_one_response.simps [of httparse buf es]\<close>)
qed

text \<open>What a complete outcome says of the bytes it was found in: the message length is the sum of the head's and the declared
  length in 64 bits, and the bytes are there; so is the whole response when that sum does not wrap.\<close>

definition held_in :: "(bytes \<Rightarrow> parse_status) \<Rightarrow> bytes \<Rightarrow> parsed_response \<Rightarrow> bool" where
  "held_in httparse got p \<longleftrightarrow>
     (case httparse got of
        Complete hdr_end code headers \<Rightarrow>
          content_length p = hf_cl (scan_headers headers)
          \<and> msg_len p = hdr_end + content_length p
          \<and> unat (msg_len p) \<le> length got
          \<and> (unat hdr_end + unat (content_length p) < 2 ^ 64 \<longrightarrow>
               unat hdr_end + unat (content_length p) \<le> length got)
      | _ \<Rightarrow> False)"

lemma complete_held: "parse_outcome_of httparse got = OutcomeComplete p \<Longrightarrow> held_in httparse got p"
  by (auto simp: parse_outcome_of_def held_in_def Let_def rust_int split: parse_status.splits if_splits)

text \<open>A parser of one known head: it shows that the framing hypotheses can hold.\<close>

definition one_head_parser ::
  "bytes \<Rightarrow> u16 option \<Rightarrow> (string \<times> bytes) list \<Rightarrow> bytes \<Rightarrow> parse_status" where
  "one_head_parser head code headers b =
     (if starts_with b head then Complete (of_nat (length head)) code headers else Partial)"

lemma one_head_parser_framed: "well_framed (one_head_parser head code headers) head code headers"
  by (auto simp: well_framed_def one_head_parser_def starts_with_iff strict_prefix_def prefix_def)

text \<open>C13. Framing: however the peer cuts its byte stream into segments, one call returns exactly the fields of the
  first response in it, and after the shift the bytes of the following responses are all still there, in order: first
  those in the buffer, then those in the socket.\<close>

theorem response_independent_of_chunking:
  assumes "well_framed httparse head code headers" "hf_cl (scan_headers headers) = of_nat (length body)"
    and "length head + length body \<le> READ_BUF_BYTES"
    and "buf @ concat chunks = head @ body @ extra"
    and "[] \<notin> set chunks" "length buf \<le> READ_BUF_BYTES"
  shows "\<exists>buf' rest. read_one_response httparse buf (map Chunk chunks @ es)
           = (ReadOk (response_of head code headers), buf', map Chunk rest @ es)
         \<and> shift_buffer buf' (msg_len (response_of head code headers)) @ concat rest = extra"
proof -
  have "length head + length body < 2 ^ 64" using assms(3) by (simp add: READ_BUF_BYTES_def)
  from total_no_wrap [OF this] assms(2)
  have "unat (msg_len (response_of head code headers)) = length head + length body"
    by (simp add: response_of_def Let_def)
  then have "shift_buffer (head @ body @ ext) (msg_len (response_of head code headers)) = ext" for ext
    by (auto simp: shift_buffer_def)
  then show ?thesis using read_framed [OF assms, of es] by auto
qed

theorem response_independent_of_chunking_witness:
  "\<exists>buf' rest.
     read_one_response (one_head_parser ''HEAD'' (Some 200) [(''Content-Length'', ''2'')]) []
       (map Chunk [''HE'', ''ADo'', ''kHEA''] @ [])
     = (ReadOk (response_of ''HEAD'' (Some 200) [(''Content-Length'', ''2'')]), buf', map Chunk rest @ [])
     \<and> shift_buffer buf' (msg_len (response_of ''HEAD'' (Some 200) [(''Content-Length'', ''2'')])) @ concat rest = ''HEA''"
proof -
  have "from_utf8 ''2'' = Some ''2''" "eq_ignore_ascii_case ''Content-Length'' ''content-length''"
    by code_simp+
  moreover have "trim ''2'' = ''2''" "parse_u64 ''2'' = Some 2"
    by (simp_all add: trim_plain parse_u64_def digit_of_def)
  ultimately have cl: "hf_cl (scan_headers [(''Content-Length'', ''2'')]) = of_nat (length ''ok'')"
    by (simp add: scan_headers_def scan_header_def)
  show ?thesis
    by (rule response_independent_of_chunking [OF one_head_parser_framed cl])
      (simp_all only: READ_BUF_BYTES_def list.size concat.simps append.simps, simp_all)
qed

text \<open>C40. A call never runs past the read buffer and keeps the bytes it started from. A response is returned only when
  the parser finds a complete head in the buffer and the buffer holds at least the message length, which is the length of the
  head plus the declared Content-Length in 64-bit arithmetic. So the response is held whole when that sum does not wrap; a
  Content-Length close to \<open>2 ^ 64\<close> wraps, and then only the wrapped length is held (\<open>content_length_wraps\<close> below).\<close>

theorem read_stays_in_buffer:
  assumes "read_one_response httparse buf es = (r, got, rest)" "length buf \<le> READ_BUF_BYTES"
  shows "prefix buf got \<and> length got \<le> READ_BUF_BYTES
    \<and> (case r of ReadOk p \<Rightarrow> held_in httparse got p | _ \<Rightarrow> True)"
  using read_within_buffer [OF assms] complete_held by (auto split: read_result.split)

theorem read_stays_in_buffer_witness:
  "\<exists>got. read_one_response (one_head_parser ''HEAD'' (Some 204) []) ''HE'' [Chunk ''ADx'', IoError]
      = (ReadOk (response_of ''HEAD'' (Some 204) []), got, [IoError])
    \<and> prefix ''HE'' got \<and> length got \<le> READ_BUF_BYTES
    \<and> held_in (one_head_parser ''HEAD'' (Some 204) []) got (response_of ''HEAD'' (Some 204) [])"
proof -
  have run: "read_one_response (one_head_parser ''HEAD'' (Some 204) []) ''HE'' [Chunk ''ADx'', IoError]
      = (ReadOk (response_of ''HEAD'' (Some 204) []), ''HEADx'', [IoError])"
    by (simp add: read_one_response.simps [of _ "''HE''"] read_one_response.simps [of _ "''HEADx''"]
        parse_outcome_of_def one_head_parser_def starts_with_iff READ_BUF_BYTES_def scan_headers_def
        response_of_def)
  from read_stays_in_buffer [OF this] show ?thesis
    by (intro exI conjI) (simp_all only: run, simp_all add: READ_BUF_BYTES_def)
qed

text \<open>
  Two places where the framing hypotheses matter. The message length is computed modulo \<open>2 ^ 64\<close> in a release build, so
  a declared length of \<open>2 ^ 64 - 1\<close> passes for a response one byte shorter than its own head. And a response that
  declares a length but carries no body, as the answer to a HEAD request does, is waited for until the deadline.
\<close>

lemma content_length_wraps:
  assumes "well_framed httparse head code headers" "hf_cl (scan_headers headers) = - 1"
    and "0 < length head" "length head \<le> READ_BUF_BYTES"
  shows "\<exists>p. read_one_response httparse head es = (ReadOk p, head, es) \<and> unat (msg_len p) = length head - 1"
proof -
  have "httparse (head @ []) = Complete (of_nat (length head)) code headers"
    using assms(1) by (simp only: well_framed_def)
  moreover have "unat (of_nat (length head) - 1 :: usize) = length head - 1"
  proof -
    have "of_nat (length head) - 1 = (of_nat (length head - 1) :: usize)" using assms(3) by (cases "length head") simp_all
    moreover have "length head - 1 < 2 ^ 64" using assms(4) by (simp add: READ_BUF_BYTES_def)
    ultimately show ?thesis by (simp add: unat_of_nat take_bit_nat_eq_self)
  qed
  ultimately show ?thesis
    using assms(2) by (intro exI) (rule conjI, rule read_complete, simp add: parse_outcome_of_def Let_def, simp)
qed

lemma bodyless_response_times_out:
  assumes "well_framed httparse head code headers" "hf_cl (scan_headers headers) = of_nat n"
    and "0 < n" "length head + n < 2 ^ 64" "length head < READ_BUF_BYTES"
  shows "read_one_response httparse head [Elapsed] = (Timeout, head, [])"
  using outcome_partial [OF assms(1,2,4), of head "[]"] assms(3,5)
  by (simp add: read_one_response.simps [of httparse head])

end
