(* ===== verification/Utf8.thy ===== *)
theory Utf8
  imports Http_Reader
begin

text \<open>
  \<open>String::from_utf8_lossy\<close>: sampled bodies (\<open>engine/src/worker.rs\<close>) and the chunks of the event stream
  (\<open>cli/src/main.rs\<close>) become strings with it. Well-formed text is kept, each ill-formed sequence is replaced.
\<close>

section \<open>Lossy decoding\<close>

text \<open>One step of \<open>Utf8Chunks\<close>: is the next sequence a character, and how many bytes it takes. A bad sequence ends before
  the first byte that cannot continue it.\<close>

definition utf8_width :: "nat \<Rightarrow> nat" where
  "utf8_width a =
     (if a < 128 then 1 else if 194 \<le> a \<and> a \<le> 223 then 2 else if 224 \<le> a \<and> a \<le> 239 then 3
      else if 240 \<le> a \<and> a \<le> 244 then 4 else 0)"

definition utf8_second :: "nat \<Rightarrow> nat \<Rightarrow> bool" where
  "utf8_second a b \<longleftrightarrow>
     (if a = 224 then 160 \<le> b \<and> b \<le> 191 else if a = 237 then 128 \<le> b \<and> b \<le> 159
      else if a = 240 then 144 \<le> b \<and> b \<le> 191 else if a = 244 then 128 \<le> b \<and> b \<le> 143 else cont_byte b)"

text \<open>\<open>safe_get\<close>: a byte beyond the end reads as 0.\<close>

definition byte_at :: "bytes \<Rightarrow> nat \<Rightarrow> nat" where
  "byte_at bs i = (if i < length bs then of_char (bs ! i) else 0)"

definition utf8_step :: "bytes \<Rightarrow> bool \<times> nat" where
  "utf8_step bs =
     (let w = utf8_width (byte_at bs 0) in
      if w \<le> 1 then (w = 1, 1)
      else if \<not> utf8_second (byte_at bs 0) (byte_at bs 1) then (False, 1)
      else if w = 2 then (True, 2)
      else if \<not> cont_byte (byte_at bs 2) then (False, 2)
      else if w = 3 then (True, 3)
      else if \<not> cont_byte (byte_at bs 3) then (False, 3)
      else (True, 4))"

definition REPLACEMENT :: string where
  "REPLACEMENT = map char_of [239, 191, 189 :: nat]"

lemma utf8_step_pos: "0 < snd (utf8_step bs)"
  by (simp add: utf8_step_def Let_def)

function from_utf8_lossy :: "bytes \<Rightarrow> string" where
  "from_utf8_lossy bs =
     (if bs = [] then []
      else let (ok, n) = utf8_step bs in (if ok then take n bs else REPLACEMENT) @ from_utf8_lossy (drop n bs))"
  by pat_completeness auto
termination
proof (relation "measure length")
  fix bs :: bytes and x ok n
  assume "bs \<noteq> []" "x = utf8_step bs" "(ok, n) = x"
  then have "0 < n" using utf8_step_pos [of bs] by (metis snd_conv)
  with \<open>bs \<noteq> []\<close> show "(drop n bs, bs) \<in> measure length" by simp
qed simp

declare from_utf8_lossy.simps [simp del]

lemma from_utf8_lossy_Nil [simp]: "from_utf8_lossy [] = []"
  by (simp add: from_utf8_lossy.simps)

lemma utf8_valid_lead:
  assumes "utf8_valid (a # bs)"
  shows "utf8_width a \<noteq> 0"
proof -
  have "a < 128 \<or> 194 \<le> a \<and> a \<le> 244"
  proof (rule ccontr)
    assume "\<not> ?thesis"
    then have "128 \<le> a" "a < 194 \<or> 244 < a" by auto
    then show False using assms by (elim disjE) (simp_all split: list.splits if_splits)
  qed
  then show ?thesis by (auto simp: utf8_width_def)
qed

lemma utf8_valid_2:
  assumes "utf8_valid (a # bs)" "194 \<le> a" "a \<le> 223"
  shows "\<exists>b cs. bs = b # cs \<and> utf8_second a b \<and> utf8_valid cs"
  using assms by (simp add: utf8_second_def split: list.splits)

lemma utf8_valid_3:
  assumes "utf8_valid (a # bs)" "224 \<le> a" "a \<le> 239"
  shows "\<exists>b c ds. bs = b # c # ds \<and> utf8_second a b \<and> cont_byte c \<and> utf8_valid ds"
  using assms by (simp add: utf8_second_def split: list.splits if_splits)

lemma utf8_valid_4:
  assumes "utf8_valid (a # bs)" "240 \<le> a" "a \<le> 244"
  shows "\<exists>b c d es. bs = b # c # d # es \<and> utf8_second a b \<and> cont_byte c \<and> cont_byte d \<and> utf8_valid es"
  using assms by (simp add: utf8_second_def split: list.splits if_splits)

lemma utf8_valid_step:
  assumes "utf8_valid (map of_char bs)" "bs \<noteq> []"
  obtains n where "utf8_step bs = (True, n)" "n \<le> length bs" "utf8_valid (map of_char (drop n bs))" "0 < n"
proof -
  obtain a as where bs: "bs = a # as" using assms(2) by (cases bs) auto
  define x where "x = (of_char a :: nat)"
  have v: "utf8_valid (x # map of_char as)" using assms(1) by (simp only: bs x_def list.map)
  consider "x < 128" | "194 \<le> x" "x \<le> 223" | "224 \<le> x" "x \<le> 239" | "240 \<le> x" "x \<le> 244"
    using utf8_valid_lead [OF v] by (auto simp only: utf8_width_def split: if_splits)
  then show ?thesis
  proof cases
    case 1
    then have "utf8_step bs = (True, 1)" "utf8_valid (map of_char as)"
      using v by (simp_all add: utf8_step_def byte_at_def bs utf8_width_def flip: x_def)
    then show ?thesis using that [of 1] by (simp add: bs)
  next
    case 2
    with utf8_valid_2 [OF v] obtain b cs where "as = b # cs" "utf8_second x (of_char b)" "utf8_valid (map of_char cs)"
      by (auto simp: map_eq_Cons_conv)
    with 2 show ?thesis
      using that [of 2] by (simp add: utf8_step_def byte_at_def bs utf8_width_def del: utf8_valid.simps flip: x_def)
  next
    case 3
    with utf8_valid_3 [OF v] obtain b c ds where "as = b # c # ds" "utf8_second x (of_char b)" "cont_byte (of_char c)"
      "utf8_valid (map of_char ds)"
      by (auto simp: map_eq_Cons_conv simp del: utf8_valid.simps)
    with 3 show ?thesis
      using that [of 3] by (simp add: utf8_step_def byte_at_def bs utf8_width_def del: utf8_valid.simps flip: x_def)
  next
    case 4
    with utf8_valid_4 [OF v] obtain b c d es where "as = b # c # d # es" "utf8_second x (of_char b)"
      "cont_byte (of_char c)" "cont_byte (of_char d)" "utf8_valid (map of_char es)"
      by (auto simp: map_eq_Cons_conv simp del: utf8_valid.simps)
    with 4 show ?thesis
      using that [of 4] by (simp add: utf8_step_def byte_at_def bs utf8_width_def del: utf8_valid.simps flip: x_def)
  qed
qed

text \<open>Well-formed text is not changed.\<close>

lemma from_utf8_lossy_valid: "utf8_valid (map of_char bs) \<Longrightarrow> from_utf8_lossy bs = bs"
proof (induction bs rule: length_induct)
  case (1 bs)
  show ?case
  proof (cases "bs = []")
    case False
    obtain n where n: "utf8_step bs = (True, n)" "n \<le> length bs" "utf8_valid (map of_char (drop n bs))" "0 < n"
      using utf8_valid_step [OF 1(2) False] .
    then have "from_utf8_lossy (drop n bs) = drop n bs" using 1(1) False by (simp add: length_greater_0_conv)
    then show ?thesis using n(1) False by (simp add: from_utf8_lossy.simps [of bs])
  qed simp
qed

lemma utf8_valid_ascii: "\<forall>b\<in>set ns. b < 128 \<Longrightarrow> utf8_valid ns"
  by (induction ns) simp_all

end
