(* ===== verification/Hist.thy ===== *)
theory Hist
  imports Float64 "HOL-Library.Multiset"
begin

text \<open>
  \<open>engine/src/hist.rs\<close>: the pair of latency histograms of a worker. The \<open>hdrhistogram\<close> crate is
  not part of the repository, so its operations are an argument of every definition here; what the code
  relies on is the predicate \<open>hdr_laws\<close>, over an abstraction of a histogram to the multiset of its recorded
  cells. \<open>exact_hdr\<close> satisfies the laws, and serves the examples.
\<close>

section \<open>The histogram library\<close>

record 'h hdr =
  hdr_new :: "u64 \<Rightarrow> u64 \<Rightarrow> nat \<Rightarrow> 'h"
  hdr_record :: "'h \<Rightarrow> u64 \<Rightarrow> 'h option"
  hdr_add :: "'h \<Rightarrow> 'h \<Rightarrow> 'h option"
  hdr_len :: "'h \<Rightarrow> u64"
  hdr_max :: "'h \<Rightarrow> u64"
  hdr_quantile :: "'h \<Rightarrow> f64 \<Rightarrow> u64"
  hdr_serialize :: "'h \<Rightarrow> bytes"
  hdr_deserialize :: "bytes \<Rightarrow> 'h option"

definition MIN_US :: u64 where "MIN_US = 1"
definition MAX_US :: u64 where "MAX_US = 60000000"
definition SIG_FIGS :: nat where "SIG_FIGS = 3"

definition new_corrected_target :: "'h hdr \<Rightarrow> 'h" where
  "new_corrected_target L = hdr_new L MIN_US MAX_US SIG_FIGS"

definition serialize_v2 :: "'h hdr \<Rightarrow> 'h \<Rightarrow> bytes" where
  "serialize_v2 L h = hdr_serialize L h"

definition deserialize_v2 :: "'h hdr \<Rightarrow> bytes \<Rightarrow> 'h option" where
  "deserialize_v2 L bs = (if bs = [] then None else hdr_deserialize L bs)"

section \<open>The pair of a worker\<close>

record 'h histos =
  corrected :: 'h
  uncorrected :: 'h

definition histos_new :: "'h hdr \<Rightarrow> 'h histos" where
  "histos_new L = \<lparr> corrected = hdr_new L MIN_US MAX_US SIG_FIGS,
                    uncorrected = hdr_new L MIN_US MAX_US SIG_FIGS \<rparr>"

text \<open>\<open>let _ = h.record(v)\<close>: an error leaves the histogram as it was.\<close>

definition record_or_keep :: "'h hdr \<Rightarrow> 'h \<Rightarrow> u64 \<Rightarrow> 'h" where
  "record_or_keep L h v = (case hdr_record L h v of None \<Rightarrow> h | Some h' \<Rightarrow> h')"

definition histos_record :: "'h hdr \<Rightarrow> 'h histos \<Rightarrow> u64 \<Rightarrow> u64 \<Rightarrow> 'h histos" where
  "histos_record L hs corrected_us uncorrected_us =
     (let c = clamp_word MIN_US MAX_US corrected_us;
          u = clamp_word MIN_US MAX_US uncorrected_us
      in \<lparr> corrected = record_or_keep L (corrected hs) c,
           uncorrected = record_or_keep L (uncorrected hs) u \<rparr>)"

text \<open>\<open>merge\<close> unwraps both additions: \<open>None\<close> is the panic.\<close>

definition histos_merge :: "'h hdr \<Rightarrow> 'h histos \<Rightarrow> 'h histos \<Rightarrow> 'h histos option" where
  "histos_merge L hs other =
     (case hdr_add L (corrected hs) (corrected other) of
        None \<Rightarrow> None
      | Some c \<Rightarrow> (case hdr_add L (uncorrected hs) (uncorrected other) of
          None \<Rightarrow> None
        | Some u \<Rightarrow> Some \<lparr> corrected = c, uncorrected = u \<rparr>))"

record summary =
  summary_count :: u64
  p50_us :: u64
  p95_us :: u64
  p99_us :: u64
  p999_us :: u64
  max_us :: u64

definition summary_from :: "'h hdr \<Rightarrow> 'h \<Rightarrow> summary" where
  "summary_from L h =
     \<lparr> summary_count = hdr_len L h,
       p50_us = hdr_quantile L h (f64_lit (1 / 2)),
       p95_us = hdr_quantile L h (f64_lit (95 / 100)),
       p99_us = hdr_quantile L h (f64_lit (99 / 100)),
       p999_us = hdr_quantile L h (f64_lit (999 / 1000)),
       max_us = hdr_max L h \<rparr>"

section \<open>What the code relies on\<close>

text \<open>
  \<open>ok h\<close>: the histogram has the engine's bounds. \<open>cells h\<close>: the multiset of recorded values, each
  rounded to its cell by \<open>cell\<close>. Values in range are always recorded, additions of like bounds succeed and keep
  every count, quantiles and counts depend on the cells only, and the V2 encoding is lossless and never empty.
\<close>

definition hdr_laws ::
  "'h hdr \<Rightarrow> ('h \<Rightarrow> bool) \<Rightarrow> ('h \<Rightarrow> nat multiset) \<Rightarrow> (u64 \<Rightarrow> nat) \<Rightarrow> bool" where
  "hdr_laws L ok cells cell \<longleftrightarrow>
     ok (hdr_new L MIN_US MAX_US SIG_FIGS) \<and> cells (hdr_new L MIN_US MAX_US SIG_FIGS) = {#} \<and>
     (\<forall>h v. ok h \<longrightarrow> MIN_US \<le> v \<longrightarrow> v \<le> MAX_US \<longrightarrow>
        (\<exists>h'. hdr_record L h v = Some h' \<and> ok h' \<and> cells h' = add_mset (cell v) (cells h))) \<and>
     (\<forall>h g. ok h \<longrightarrow> ok g \<longrightarrow> (\<exists>k. hdr_add L h g = Some k \<and> ok k \<and> cells k = cells h + cells g)) \<and>
     (\<forall>h. ok h \<longrightarrow> hdr_serialize L h \<noteq> [] \<and>
        (\<exists>g. hdr_deserialize L (hdr_serialize L h) = Some g \<and> ok g \<and> cells g = cells h)) \<and>
     (\<forall>h g. ok h \<longrightarrow> ok g \<longrightarrow> cells h = cells g \<longrightarrow>
        hdr_quantile L h = hdr_quantile L g \<and> hdr_max L h = hdr_max L g) \<and>
     (\<forall>h. ok h \<longrightarrow> hdr_len L h = of_nat (size (cells h)))"

lemma hdr_newD:
  "hdr_laws L ok cells cell \<Longrightarrow>
   ok (hdr_new L MIN_US MAX_US SIG_FIGS) \<and> cells (hdr_new L MIN_US MAX_US SIG_FIGS) = {#}"
  by (simp add: hdr_laws_def)

lemma hdr_recordD:
  "hdr_laws L ok cells cell \<Longrightarrow> ok h \<Longrightarrow> MIN_US \<le> v \<Longrightarrow> v \<le> MAX_US \<Longrightarrow>
   ok (record_or_keep L h v) \<and> cells (record_or_keep L h v) = add_mset (cell v) (cells h)"
proof -
  assume laws: "hdr_laws L ok cells cell" and h: "ok h" "MIN_US \<le> v" "v \<le> MAX_US"
  from laws have "\<forall>h v. ok h \<longrightarrow> MIN_US \<le> v \<longrightarrow> v \<le> MAX_US \<longrightarrow>
      (\<exists>h'. hdr_record L h v = Some h' \<and> ok h' \<and> cells h' = add_mset (cell v) (cells h))"
    unfolding hdr_laws_def by (elim conjE)
  with h obtain h' where "hdr_record L h v = Some h'" "ok h'" "cells h' = add_mset (cell v) (cells h)"
    by blast
  then show ?thesis by (simp add: record_or_keep_def)
qed

lemma hdr_addD:
  "hdr_laws L ok cells cell \<Longrightarrow> ok h \<Longrightarrow> ok g \<Longrightarrow>
   \<exists>k. hdr_add L h g = Some k \<and> ok k \<and> cells k = cells h + cells g"
  unfolding hdr_laws_def by (elim conjE) blast

lemma hdr_quantileD:
  "hdr_laws L ok cells cell \<Longrightarrow> ok h \<Longrightarrow> ok g \<Longrightarrow> cells h = cells g \<Longrightarrow>
   hdr_quantile L h = hdr_quantile L g"
  unfolding hdr_laws_def by (elim conjE) blast

lemma hdr_wireD:
  "hdr_laws L ok cells cell \<Longrightarrow> ok h \<Longrightarrow>
   serialize_v2 L h \<noteq> [] \<and> (\<exists>g. deserialize_v2 L (serialize_v2 L h) = Some g \<and> ok g \<and> cells g = cells h)"
  unfolding hdr_laws_def serialize_v2_def deserialize_v2_def by (elim conjE) simp

lemma clamp_us_range: "MIN_US \<le> clamp_word MIN_US MAX_US v \<and> clamp_word MIN_US MAX_US v \<le> MAX_US"
  by (rule clamp_word_bounds) (simp add: MIN_US_def MAX_US_def)

lemma histos_record_cells:
  assumes "hdr_laws L ok cells cell" "ok (corrected hs)" "ok (uncorrected hs)"
  shows "ok (corrected (histos_record L hs c u)) \<and> ok (uncorrected (histos_record L hs c u))
    \<and> cells (corrected (histos_record L hs c u))
        = add_mset (cell (clamp_word MIN_US MAX_US c)) (cells (corrected hs))
    \<and> cells (uncorrected (histos_record L hs c u))
        = add_mset (cell (clamp_word MIN_US MAX_US u)) (cells (uncorrected hs))"
  using hdr_recordD [OF assms(1,2)] hdr_recordD [OF assms(1,3)] clamp_us_range
  by (simp add: histos_record_def Let_def)

text \<open>Recording never drops a response: whatever the two latencies are, also 0 or far past the
  histogram's range, each of the two streams grows by exactly one value, the latency saturated to the range,
  and stays readable.\<close>

lemma record_never_drops:
  assumes "hdr_laws L ok cells cell" "ok (corrected hs)" "ok (uncorrected hs)"
  shows "let hs' = histos_record L hs c u in
      ok (corrected hs') \<and> ok (uncorrected hs')
    \<and> cells (corrected hs') = add_mset (cell (clamp_word MIN_US MAX_US c)) (cells (corrected hs))
    \<and> cells (uncorrected hs') = add_mset (cell (clamp_word MIN_US MAX_US u)) (cells (uncorrected hs))"
  using histos_record_cells [OF assms] by (simp add: Let_def)

section \<open>A histogram that keeps every value\<close>

fun unary :: "nat \<Rightarrow> bytes" where
  "unary n = replicate n (CHR ''1'') @ ''0''"

fun of_unary :: "nat \<Rightarrow> bytes \<Rightarrow> nat list" where
  "of_unary n [] = []"
| "of_unary n (c # cs) = (if c = CHR ''1'' then of_unary (Suc n) cs else n # of_unary 0 cs)"

definition exact_hdr :: "nat list hdr" where
  "exact_hdr =
     \<lparr> hdr_new = (\<lambda>_ _ _. []),
       hdr_record = (\<lambda>h v. Some (insort (unat v) h)),
       hdr_add = (\<lambda>h g. Some (sort (h @ g))),
       hdr_len = (\<lambda>h. of_nat (length h)),
       hdr_max = (\<lambda>h. if h = [] then 0 else of_nat (last h)),
       hdr_quantile = (\<lambda>h q. if h = [] then 0
          else of_nat (h ! min (length h - 1) (unat (as_u64 (q * of_u64 (of_nat (length h))))))),
       hdr_serialize = (\<lambda>h. CHR ''v'' # concat (map unary h)),
       hdr_deserialize = (\<lambda>bs. Some (of_unary 0 (tl bs))) \<rparr>"

lemma of_unary_unary: "of_unary k (unary n @ bs) = (k + n) # of_unary 0 bs"
  by (induction n arbitrary: k) auto

lemma of_unary_concat: "of_unary 0 (concat (map unary h)) = h"
  by (induction h) (auto simp: of_unary_unary simp del: unary.simps)

lemma sorted_mset_unique: "sorted h \<Longrightarrow> sorted g \<Longrightarrow> mset h = mset g \<Longrightarrow> h = g"
  by (metis properties_for_sort sorted_sort_id)

lemma exact_hdr_laws: "hdr_laws exact_hdr sorted mset unat"
  unfolding hdr_laws_def exact_hdr_def
  by (auto simp: sorted_insort of_unary_concat simp del: unary.simps dest: sorted_mset_unique)

end
