(* ===== verification/Conn_Task.thy ===== *)
theory Conn_Task
  imports Utf8 Hist
begin

text \<open>
  One connection of the load generator: the set-up of a run and \<open>connection_task\<close> of \<open>engine/src/worker.rs\<close>. The local
  state of a task is a record; what it does to the counters, histograms and samples shared with the other tasks is a
  list of actions, one for each atomic operation or lock section of the code, in program order. The interleaving of the
  tasks is in \<open>Worker_Run\<close>. Clock readings are whole microseconds since \<open>worker_start\<close>.
\<close>

section \<open>Setting up a run\<close>

record run_plan =
  plan_host :: string
  plan_port :: u16
  plan_host_header :: string
  plan_path :: string
  plan_schedule :: rate_schedule
  plan_stagger_us :: u64
  plan_req_bytes :: bytes

datatype setup_error = MissingHost | SchemeNotHttp

definition crlf :: string where
  "crlf = [CHR 0x0D, CHR 0x0A]"

definition request_bytes :: "string \<Rightarrow> string \<Rightarrow> string \<Rightarrow> bytes" where
  "request_bytes meth path host_header =
     meth @ '' '' @ path @ '' HTTP/1.1'' @ crlf
     @ ''Host: '' @ host_header @ crlf
     @ ''Accept: */*'' @ crlf
     @ ''Connection: keep-alive'' @ crlf
     @ ''User-Agent: engine-worker/0.1'' @ crlf @ crlf"

definition run_setup :: "run_spec \<Rightarrow> setup_error + run_plan" where
  "run_setup spec =
     (case uri_host (url spec) of
        None \<Rightarrow> Inl MissingHost
      | Some host \<Rightarrow>
          (let port = (case uri_port_u16 (url spec) of Some p \<Rightarrow> p | None \<Rightarrow> 80);
               scheme = (case uri_scheme_str (url spec) of Some s \<Rightarrow> s | None \<Rightarrow> ''http'')
           in if scheme \<noteq> ''http'' then Inl SchemeNotHttp
              else
                let host_header = (if port = 80 then host else host @ '':'' @ decimal (unat port));
                    path = (case uri_path_and_query (url spec) of Some p \<Rightarrow> p | None \<Rightarrow> ''/'');
                    per_conn_rps = target_rps spec / of_u64 (connections spec);
                    per_conn_throughput_us = per_conn_rps / f64_lit 1000000;
                    per_conn_schedule =
                      (if ramp spec
                       then Ramp (saturating_mul (duration_s spec) 1000000) per_conn_throughput_us
                       else Constant per_conn_throughput_us);
                    per_conn_interval_us = as_u64 (f64_lit 1000000 / per_conn_rps);
                    stagger_us = per_conn_interval_us div max (connections spec) 1
                in Inr
                  \<lparr> plan_host = host, plan_port = port, plan_host_header = host_header,
                    plan_path = path, plan_schedule = per_conn_schedule, plan_stagger_us = stagger_us,
                    plan_req_bytes = request_bytes (method_str spec) path host_header \<rparr>))"

definition rl_config_of :: "run_spec \<Rightarrow> rl_config" where
  "rl_config_of spec =
     \<lparr> rl_act = rate_limit_action spec, rl_max_backoff_ms = max_backoff_ms spec,
       rl_record_onset = record_onset spec, rl_target_rps = target_rps spec,
       rl_ramp = ramp spec, rl_duration_s = duration_s spec \<rparr>"

section \<open>Local and shared state\<close>

record conn_result =
  r_completed :: u64
  r_pass :: u64
  r_fail_status :: u64
  r_fail_latency :: u64
  r_fail_size :: u64
  r_fail_content_type :: u64
  r_rate_limited :: u64
  r_backoff_us_total :: u64
  r_conn_errors :: u64
  r_timeouts :: u64

definition conn_result_default :: conn_result where
  "conn_result_default =
     \<lparr> r_completed = 0, r_pass = 0, r_fail_status = 0, r_fail_latency = 0, r_fail_size = 0,
       r_fail_content_type = 0, r_rate_limited = 0, r_backoff_us_total = 0, r_conn_errors = 0,
       r_timeouts = 0 \<rparr>"

fun count_verdict :: "verdict \<Rightarrow> conn_result \<Rightarrow> conn_result" where
  "count_verdict Pass r = r\<lparr>r_pass := r_pass r + 1\<rparr>"
| "count_verdict FailStatus r = r\<lparr>r_fail_status := r_fail_status r + 1\<rparr>"
| "count_verdict FailLatency r = r\<lparr>r_fail_latency := r_fail_latency r + 1\<rparr>"
| "count_verdict FailSize r = r\<lparr>r_fail_size := r_fail_size r + 1\<rparr>"
| "count_verdict FailContentType r = r\<lparr>r_fail_content_type := r_fail_content_type r + 1\<rparr>"
| "count_verdict RateLimited r = r\<lparr>r_rate_limited := r_rate_limited r + 1\<rparr>"

text \<open>\<open>rps_at_send\<close> is the constant zero in the code; the body is the text \<open>from_utf8_lossy\<close> makes of its bytes.\<close>

record sampled_response =
  sm_rps_at_send :: f64
  sm_status :: u16
  sm_corrected_lat_us :: u64
  sm_body :: string
  sm_body_truncated :: bool

datatype action =
    RecordHistos u64 u64
  | IncCompleted
  | SampleSeq sampled_response
  | PushSample sampled_response
  | IncVerdict verdict
  | ClaimOnset f64
  | StoreOnset f64
  | StoreAbort
  | StoreRetryAfter i64
  | AddBackoff u64

text \<open>
  \<open>Prewarm\<close>: before the start barrier. \<open>AtTop\<close>: at the top of the loop. \<open>Firing\<close>: committed to a request, until its
  response has been read. \<open>Done\<close>: out of the loop. \<open>cn_target\<close> is the end of the wait for the send.
\<close>

datatype phase = Prewarm | AtTop | Firing | Done

record conn =
  cn_phase :: phase
  cn_sched :: conn_sched
  cn_target :: nat
  cn_buf :: bytes
  cn_res :: conn_result
  cn_todo :: "action list"

definition conn_sched_init :: "rate_schedule \<Rightarrow> u64 \<Rightarrow> conn_sched" where
  "conn_sched_init sch offset_us =
     (case sch of
        Constant throughput \<Rightarrow> conn_sched_new offset_us throughput
      | Ramp duration peak \<Rightarrow> conn_sched_ramp offset_us duration peak)"

definition conn_init :: "run_plan \<Rightarrow> nat \<Rightarrow> conn" where
  "conn_init plan conn_id =
     \<lparr> cn_phase = Prewarm,
       cn_sched = conn_sched_init (plan_schedule plan) (of_nat conn_id * plan_stagger_us plan),
       cn_target = 0, cn_buf = [], cn_res = conn_result_default, cn_todo = [] \<rparr>"

section \<open>One turn of the loop\<close>

definition conn_refused :: "conn \<Rightarrow> conn" where
  "conn_refused c =
     c\<lparr>cn_phase := Done, cn_res := (cn_res c)\<lparr>r_conn_errors := r_conn_errors (cn_res c) + 1\<rparr>\<rparr>"

definition conn_started :: "conn \<Rightarrow> conn" where
  "conn_started c = c\<lparr>cn_phase := AtTop\<rparr>"

definition deadline_us :: "u64 \<Rightarrow> nat" where
  "deadline_us duration = unat duration * 1000000"

text \<open>The top of the loop, up to the wait: \<open>aborted\<close> is the abort flag as loaded, \<open>now\<close> the clock.\<close>

definition loop_top :: "u64 \<Rightarrow> bool \<Rightarrow> nat \<Rightarrow> conn \<Rightarrow> conn" where
  "loop_top duration aborted now c =
     (if aborted then c\<lparr>cn_phase := Done\<rparr>
      else if deadline_us duration \<le> now then c\<lparr>cn_phase := Done\<rparr>
      else case usec_to_next_send (cn_sched c) (of_nat now) of
        (wait_us, s) \<Rightarrow> c\<lparr>cn_phase := Firing, cn_sched := s, cn_target := now + unat wait_us\<rparr>)"

definition capture_sample :: "inline_assert \<Rightarrow> parsed_response \<Rightarrow> bytes \<Rightarrow> u64 \<Rightarrow> sampled_response" where
  "capture_sample a p buf corrected_us =
     (let body_start = unat (saturating_sub (msg_len p) (content_length p));
          body_end = min (unat (msg_len p)) READ_BUF_BYTES;
          body_slice = drop body_start (take body_end buf);
          cap = unat (ia_max_sampled_body_bytes a);
          truncated = 0 < cap \<and> cap < length body_slice
      in \<lparr> sm_rps_at_send = f64_lit 0, sm_status = status p, sm_corrected_lat_us = corrected_us,
           sm_body = from_utf8_lossy (if truncated then take cap body_slice else body_slice),
           sm_body_truncated = truncated \<rparr>)"

text \<open>The policy for a 429: the actions on the shared state and the backoff in microseconds, if there is one.\<close>

definition rate_limit_policy :: "rl_config \<Rightarrow> parsed_response \<Rightarrow> action list \<times> u64 option" where
  "rate_limit_policy rl p =
     (case rl_act rl of
        Continue \<Rightarrow> ([], None)
      | Abort \<Rightarrow> ([StoreAbort], None)
      | Backoff \<Rightarrow>
          (case retry_after_ms p of
             None \<Rightarrow> ([], None)
           | Some ra_ms \<Rightarrow>
               (let backoff_ms = min ra_ms (rl_max_backoff_ms rl)
                in if 0 < backoff_ms
                   then let backoff_us = saturating_mul backoff_ms 1000
                        in ([StoreRetryAfter ra_ms, AddBackoff backoff_us], Some backoff_us)
                   else ([StoreRetryAfter ra_ms], None))))"

definition on_response ::
  "inline_assert \<Rightarrow> rl_config \<Rightarrow> u64 \<Rightarrow> u64 \<Rightarrow> u64 \<Rightarrow> parsed_response \<Rightarrow> bytes \<Rightarrow> conn \<Rightarrow> conn" where
  "on_response a rl intended_us actual_send_us recv_us p buf c =
     (let corrected_us = max (saturating_sub recv_us intended_us) 1;
          uncorrected_us = max (saturating_sub recv_us actual_send_us) 1;
          res = (cn_res c)\<lparr>r_completed := r_completed (cn_res c) + 1\<rparr>;
          sampling = (if 0 < ia_sample_every_n a
            then [SampleSeq (capture_sample a p buf corrected_us)] else []);
          v = classify a (status p) corrected_us (content_length p) (content_type_lc p);
          onset = (if v = RateLimited \<and> rl_record_onset rl
            then [ClaimOnset (offered_rps_at rl intended_us)] else []);
          (policy, backoff) = (if v = RateLimited then rate_limit_policy rl p else ([], None));
          res = count_verdict v res;
          res = (case backoff of None \<Rightarrow> res
                 | Some us \<Rightarrow> res\<lparr>r_backoff_us_total := r_backoff_us_total res + us\<rparr>);
          s = (case backoff of None \<Rightarrow> cn_sched c | Some us \<Rightarrow> defer_origin (cn_sched c) us)
      in c\<lparr>cn_phase := AtTop, cn_sched := advance s, cn_buf := shift_buffer buf (msg_len p), cn_res := res,
           cn_todo := [RecordHistos corrected_us uncorrected_us, IncCompleted] @ sampling
                       @ [IncVerdict v] @ onset @ policy\<rparr>)"

text \<open>What the environment contributes to a request: three clock readings, the write, and the reads. A write that does not
  return is no exchange; \<open>Start_Barrier\<close> has it as an event of its own.\<close>

record exchange =
  ex_ready :: nat
  ex_sent :: nat
  ex_write_ok :: bool
  ex_reads :: "socket_event list"
  ex_recv :: nat

definition fire ::
  "(bytes \<Rightarrow> parse_status) \<Rightarrow> inline_assert \<Rightarrow> rl_config \<Rightarrow> u64 \<Rightarrow> exchange \<Rightarrow> conn \<Rightarrow> conn" where
  "fire httparse a rl duration x c =
     (if deadline_us duration \<le> ex_ready x then c\<lparr>cn_phase := Done\<rparr>
      else if \<not> ex_write_ok x then conn_refused c
      else case read_one_response httparse (cn_buf c) (ex_reads x) of
        (ReadOk p, buf, _) \<Rightarrow>
          on_response a rl (intended_send_time (cn_sched c)) (of_nat (ex_sent x)) (of_nat (ex_recv x)) p buf c
      | (Timeout, buf, _) \<Rightarrow>
          c\<lparr>cn_phase := Done, cn_buf := buf, cn_res := (cn_res c)\<lparr>r_timeouts := r_timeouts (cn_res c) + 1\<rparr>\<rparr>
      | (Err, buf, _) \<Rightarrow> conn_refused (c\<lparr>cn_buf := buf\<rparr>))"

section \<open>The tallies of a connection\<close>

definition verdict_count :: "conn_result \<Rightarrow> u64" where
  "verdict_count r = r_pass r + r_fail_status r + r_fail_latency r + r_fail_size r
     + r_fail_content_type r + r_rate_limited r"

definition adds_up :: "conn_result \<Rightarrow> bool" where
  "adds_up r \<longleftrightarrow> r_completed r = verdict_count r"

named_theorems conn_simps \<open>what the operations of a connection leave alone\<close>

lemma count_verdict_frame [conn_simps]:
  "r_completed (count_verdict v r) = r_completed r"
  "r_backoff_us_total (count_verdict v r) = r_backoff_us_total r"
  "r_conn_errors (count_verdict v r) = r_conn_errors r" "r_timeouts (count_verdict v r) = r_timeouts r"
  "verdict_count (count_verdict v r) = verdict_count r + 1"
  by (cases v; simp add: verdict_count_def)+

lemma verdict_count_frame [conn_simps]:
  "verdict_count (r\<lparr>r_completed := n\<rparr>) = verdict_count r"
  "verdict_count (r\<lparr>r_backoff_us_total := n\<rparr>) = verdict_count r"
  "verdict_count (r\<lparr>r_conn_errors := n\<rparr>) = verdict_count r"
  "verdict_count (r\<lparr>r_timeouts := n\<rparr>) = verdict_count r"
  "verdict_count (r\<lparr>r_rate_limited := n\<rparr>) = verdict_count r - r_rate_limited r + n"
  by (simp_all add: verdict_count_def)

lemma on_response_result [conn_simps]:
  "cn_phase (on_response a rl i s t p buf c) = AtTop"
  "r_completed (cn_res (on_response a rl i s t p buf c)) = r_completed (cn_res c) + 1"
  "verdict_count (cn_res (on_response a rl i s t p buf c)) = verdict_count (cn_res c) + 1"
  "r_conn_errors (cn_res (on_response a rl i s t p buf c)) = r_conn_errors (cn_res c)"
  "r_timeouts (cn_res (on_response a rl i s t p buf c)) = r_timeouts (cn_res c)"
  by (simp_all add: on_response_def Let_def conn_simps split: option.split prod.split)

lemma adds_up_fire: "adds_up (cn_res c) \<Longrightarrow> adds_up (cn_res (fire httparse a rl d x c))"
  by (simp add: fire_def adds_up_def conn_refused_def conn_simps split: prod.split read_result.split)

lemma adds_up_loop_top: "adds_up (cn_res c) \<Longrightarrow> adds_up (cn_res (loop_top d ab now c))"
  by (simp add: loop_top_def split: prod.split)

section \<open>Samples\<close>

lemma scanned_length:
  assumes "length head + n < 2 ^ 64" "hf_cl (scan_headers headers) = of_nat n"
  shows "unat (msg_len (response_of head code headers)) = length head + n"
    and "unat (content_length (response_of head code headers)) = n"
  using total_no_wrap [OF assms(1)] assms
  by (simp_all add: response_of_def Let_def unat_of_nat take_bit_nat_eq_self)

text \<open>A sample holds the body of the response, the whole body and nothing else, cut at the configured cap and marked as
  cut exactly when the body is longer. It is decoded lossily: what is well-formed is kept as it is.\<close>

lemma sample_is_the_body:
  assumes "hf_cl (scan_headers headers) = of_nat (length body)"
    and "length head + length body \<le> READ_BUF_BYTES"
  shows "let cap = unat (ia_max_sampled_body_bytes a); cut = 0 < cap \<and> cap < length body;
      shown = (if cut then take cap body else body);
      sample = capture_sample a (response_of head code headers) (head @ body @ ext) lat in
    sample = \<lparr> sm_rps_at_send = f64_lit 0, sm_status = (case code of Some s \<Rightarrow> s | None \<Rightarrow> 0),
      sm_corrected_lat_us = lat, sm_body = from_utf8_lossy shown, sm_body_truncated = cut \<rparr>
    \<and> (utf8_valid (map of_char shown) \<longrightarrow> sm_body sample = shown)"
proof -
  have "length head + length body < 2 ^ 64" using assms(2) by (simp add: READ_BUF_BYTES_def)
  note len = scanned_length [OF this assms(1), of code]
  have "unat (saturating_sub (msg_len (response_of head code headers))
          (content_length (response_of head code headers))) = length head"
    by (simp add: rust_int len)
  then show ?thesis
    using assms(2) len by (simp add: capture_sample_def Let_def response_of_def from_utf8_lossy_valid)
qed

definition example_plan :: run_plan where
  "example_plan =
     \<lparr> plan_host = ''h'', plan_port = 80, plan_host_header = ''h'', plan_path = ''/'',
       plan_schedule = Constant (f64_lit (1 / 1000)), plan_stagger_us = 500, plan_req_bytes = [] \<rparr>"

section \<open>Latency\<close>

lemma fire_todo:
  assumes "RecordHistos cor unc \<in> set (cn_todo (fire httparse a rl d x c))" "cn_todo c = []"
  shows "cor = max (saturating_sub (of_nat (ex_recv x)) (intended_send_time (cn_sched c))) 1"
    and "unc = max (saturating_sub (of_nat (ex_recv x)) (of_nat (ex_sent x))) 1"
proof -
  have policy: "RecordHistos c1 c2 \<notin> set (fst (rate_limit_policy rl p))" for c1 c2 p
    by (simp add: rate_limit_policy_def Let_def split: rl_action.split option.split)
  have "RecordHistos cor unc \<in> set (cn_todo (on_response a rl i s t p buf c)) \<Longrightarrow>
      cor = max (saturating_sub t i) 1 \<and> unc = max (saturating_sub t s) 1" for i s t p buf
    using policy [of cor unc p]
    by (cases "rate_limit_policy rl p") (auto simp: on_response_def Let_def split: if_splits)
  then show "cor = max (saturating_sub (of_nat (ex_recv x)) (intended_send_time (cn_sched c))) 1"
    and "unc = max (saturating_sub (of_nat (ex_recv x)) (of_nat (ex_sent x))) 1"
    using assms by (auto simp: fire_def conn_refused_def split: if_splits prod.splits read_result.splits)
qed

text \<open>C4. Coordinated omission: the latency recorded as corrected counts from the intended slot of the request and is
  never below the uncorrected one, which counts from the send; both are at least one microsecond. The clock is
  assumed monotone and the wait honoured.\<close>

theorem corrected_dominates:
  assumes "cn_todo c = []" "cn_phase (loop_top d False now c) = Firing"
    and "cn_target (loop_top d False now c) \<le> ex_sent x" "ex_sent x < 2 ^ 64"
    and "RecordHistos cor unc \<in> set (cn_todo (fire httparse a rl d x (loop_top d False now c)))"
  shows "cor = max (saturating_sub (of_nat (ex_recv x)) (intended_send_time (cn_sched c))) 1
    \<and> unc \<le> cor \<and> 1 \<le> unc"
proof -
  obtain w s where poll: "usec_to_next_send (cn_sched c) (of_nat now) = (w, s)" by fastforce
  have c': "loop_top d False now c = c\<lparr>cn_phase := Firing, cn_sched := s, cn_target := now + unat w\<rparr>"
    using assms(2) poll by (cases "deadline_us d \<le> now") (simp_all add: loop_top_def)
  have slot: "intended_send_time s = intended_send_time (cn_sched c)"
    using conn.poll_keeps_slot [of "cn_sched c" "of_nat now"] poll by simp
  have "unat (of_nat now :: u64) + unat w \<le> unat (of_nat (ex_sent x) :: u64)"
    using assms(3,4) c' by (simp add: unat_of_nat take_bit_nat_eq_self)
  from conn.corrected_ge_uncorrected [OF poll this]
  have "saturating_sub (of_nat (ex_recv x)) (of_nat (ex_sent x))
      \<le> saturating_sub (of_nat (ex_recv x) :: u64) (intended_send_time s)" .
  moreover have "cor = max (saturating_sub (of_nat (ex_recv x)) (intended_send_time s)) 1"
    "unc = max (saturating_sub (of_nat (ex_recv x)) (of_nat (ex_sent x))) 1"
    using fire_todo [OF assms(5)] assms(1) c' by simp_all
  ultimately show ?thesis by (simp add: slot max.coboundedI1 max.mono)
qed

theorem corrected_dominates_witness:
  "let x = \<lparr> ex_ready = 3, ex_sent = 5, ex_write_ok = True, ex_reads = [Chunk ''HEAD''], ex_recv = 900 \<rparr>;
       c = loop_top 10 False 2 (conn_started (conn_init example_plan 0))
   in RecordHistos 900 895 \<in> set (cn_todo (fire (one_head_parser ''HEAD'' (Some 200) []) (from_spec example_spec)
        (rl_config_of example_spec) 10 x c)) \<and> (895 :: u64) \<le> 900"
proof -
  define x where "x = \<lparr> ex_ready = 3, ex_sent = 5, ex_write_ok = True, ex_reads = [Chunk ''HEAD''], ex_recv = 900 \<rparr>"
  define c where "c = conn_started (conn_init example_plan 0)"
  let ?P = "one_head_parser ''HEAD'' (Some 200) []"
  have slot: "intended_send_time (cn_sched c) = 0" and c: "caught_up (cn_sched c)" "cn_buf c = []" "cn_todo c = []"
      "schedule (cn_sched c) = Constant (f64_lit (1 / 1000))"
    by (simp_all add: c_def conn_started_def conn_init_def example_plan_def conn_sched_init_def conn_sched_new_def
        intended_send_time_def float_eval)
  then have top: "cn_phase (loop_top 10 False 2 c) = Firing" "cn_target (loop_top 10 False 2 c) = 2"
      "cn_buf (loop_top 10 False 2 c) = []" "intended_send_time (cn_sched (loop_top 10 False 2 c)) = 0"
    using conn.poll_keeps_slot [of "cn_sched c" 2] by (simp_all add: loop_top_def deadline_us_def poll_falls_behind)
  have "read_one_response ?P [] [Chunk ''HEAD''] = (ReadOk (response_of ''HEAD'' (Some 200) []), ''HEAD'', [])"
    by (simp add: read_one_response.simps [of _ "[]"] read_one_response.simps [of _ "''HEAD''"]
        parse_outcome_of_def one_head_parser_def starts_with_iff READ_BUF_BYTES_def scan_headers_def response_of_def)
  moreover have "max 900 1 = (900 :: u64)" "max 895 1 = (895 :: u64)" by (simp_all add: max_def word_le_nat_alt)
  ultimately have rec: "RecordHistos 900 895 \<in> set (cn_todo (fire ?P (from_spec example_spec) (rl_config_of example_spec) 10 x
      (loop_top 10 False 2 c)))"
    using top by (simp add: fire_def x_def deadline_us_def on_response_def Let_def saturating_sub_def split: prod.split)
  have "cn_target (loop_top 10 False 2 c) \<le> ex_sent x" "ex_sent x < 2 ^ 64" by (simp_all add: top x_def)
  from corrected_dominates [OF c(3) top(1) this rec] rec show ?thesis
    unfolding Let_def by (fold x_def c_def) simp
qed

section \<open>Backoff\<close>

lemma policy_backoff:
  "snd (rate_limit_policy rl p) =
    (case (rl_act rl, retry_after_ms p) of
       (Backoff, Some ra) \<Rightarrow>
         if 0 < min ra (rl_max_backoff_ms rl)
         then Some (saturating_mul (min ra (rl_max_backoff_ms rl)) 1000) else None
     | _ \<Rightarrow> None)"
  by (simp add: rate_limit_policy_def Let_def split: rl_action.split option.split)

text \<open>The time a response makes the connection wait, as charged to the local total.\<close>

definition charged_backoff :: "inline_assert \<Rightarrow> rl_config \<Rightarrow> parsed_response \<Rightarrow> u64" where
  "charged_backoff a rl p =
     (if status p = 429
      then case snd (rate_limit_policy rl p) of Some us \<Rightarrow> us | None \<Rightarrow> 0
      else 0)"

lemma charged_bound: "unat (charged_backoff a rl p) \<le> unat (rl_max_backoff_ms rl) * 1000"
proof -
  have "unat (saturating_mul (min ra (rl_max_backoff_ms rl)) 1000) \<le> unat (rl_max_backoff_ms rl) * 1000" for ra
    by (auto simp: rust_int min_def word_le_nat_alt intro: order.trans [OF min.cobounded1])
  then show ?thesis
    by (auto simp: charged_backoff_def policy_backoff split: option.split rl_action.split)
qed

lemma classify_429: "classify a s l n ct = RateLimited \<longleftrightarrow> s = 429"
  by (simp add: classify_def)

lemma on_response_backoff:
  "r_backoff_us_total (cn_res (on_response a rl i s t p buf c))
     = r_backoff_us_total (cn_res c) + charged_backoff a rl p"
  "cn_sched (on_response a rl i s t p buf c) =
     (if \<exists>us. status p = 429 \<and> snd (rate_limit_policy rl p) = Some us
      then advance (defer_origin (cn_sched c) (charged_backoff a rl p)) else advance (cn_sched c))"
  by (auto simp: on_response_def Let_def conn_simps charged_backoff_def classify_429
      split: option.split prod.split)

lemma intended_advance_defer:
  assumes "unat (thread_start_us s) + unat us < 2 ^ 64"
  shows "intended_send_time (advance (defer_origin s us)) = intended_send_time (advance s) + us"
  using assms by (simp add: intended_send_time_def defer_origin_def schedule_simps saturating_add_def)

text \<open>C20. Honouring Retry-After is a pause of the schedule: the next intended slot, from which the next corrected latency
  counts, moves by exactly the backoff charged to the connection; the charge never exceeds the configured cap, and it
  is zero unless the response is a 429 under the backoff policy that carries a delay.\<close>

theorem backoff_is_a_pause:
  assumes "unat (thread_start_us (cn_sched c)) + unat (rl_max_backoff_ms rl) * 1000 < 2 ^ 64"
    and "c' = on_response a rl i s t p buf c"
    and "charge = r_backoff_us_total (cn_res c') - r_backoff_us_total (cn_res c)"
  shows "intended_send_time (cn_sched c') = intended_send_time (advance (cn_sched c)) + charge
    \<and> unat charge \<le> unat (rl_max_backoff_ms rl) * 1000
    \<and> (status p \<noteq> 429 \<or> rl_act rl \<noteq> Backoff \<or> retry_after_ms p = None \<longrightarrow> charge = 0)"
proof -
  have charge: "charge = charged_backoff a rl p"
    using assms(2,3) by (simp add: on_response_backoff)
  then have "unat charge \<le> unat (rl_max_backoff_ms rl) * 1000" using charged_bound by simp
  then have "unat (thread_start_us (cn_sched c)) + unat charge < 2 ^ 64" using assms(1) by linarith
  then have "intended_send_time (cn_sched c') = intended_send_time (advance (cn_sched c)) + charge"
    using assms(2) charge
    by (auto simp: on_response_backoff intended_advance_defer charged_backoff_def split: option.splits)
  moreover have "status p \<noteq> 429 \<or> rl_act rl \<noteq> Backoff \<or> retry_after_ms p = None \<longrightarrow> charge = 0"
    by (auto simp: charge charged_backoff_def policy_backoff split: rl_action.split)
  ultimately show ?thesis using charged_bound [of a rl p] charge by simp
qed

theorem backoff_is_a_pause_witness:
  "let rl = rl_config_of (example_spec\<lparr>rate_limit_action := Backoff, max_backoff_ms := 250\<rparr>);
       p = \<lparr> msg_len = 4, status = 429, content_length = 0, content_type_lc = None, retry_after_ms = Some 2000 \<rparr>;
       c = conn_init example_plan 1;
       c' = on_response (from_spec example_spec) rl 500 510 900 p ''HEAD'' c
   in r_backoff_us_total (cn_res c') = 250000
     \<and> intended_send_time (cn_sched c') = intended_send_time (advance (cn_sched c)) + 250000"
proof -
  define rl where "rl = rl_config_of (example_spec\<lparr>rate_limit_action := Backoff, max_backoff_ms := 250\<rparr>)"
  define p :: parsed_response where "p = \<lparr> msg_len = 4, status = 429, content_length = 0, content_type_lc = None,
    retry_after_ms = Some 2000 \<rparr>"
  define c where "c = conn_init example_plan 1"
  have small: "unat (thread_start_us (cn_sched c)) + unat (rl_max_backoff_ms rl) * 1000 < 2 ^ 64"
    by (simp add: c_def rl_def conn_init_def conn_sched_init_def conn_sched_new_def example_plan_def rl_config_of_def)
  have "charged_backoff (from_spec example_spec) rl p = 250000"
    by (simp add: charged_backoff_def policy_backoff p_def rl_def rl_config_of_def saturating_mul_def min_def)
  then have "r_backoff_us_total (cn_res (on_response (from_spec example_spec) rl 500 510 900 p ''HEAD'' c))
      - r_backoff_us_total (cn_res c) = 250000"
    and "r_backoff_us_total (cn_res c) = 0"
    by (simp_all add: on_response_backoff c_def conn_init_def conn_result_default_def)
  then show ?thesis
    using backoff_is_a_pause [OF small refl refl, of "from_spec example_spec" 500 510 900 p "''HEAD''"]
    unfolding Let_def by (fold c_def p_def rl_def) auto
qed

section \<open>Staggered starts\<close>

lemma setup_schedule:
  assumes "run_setup spec = Inr plan"
  shows "plan_schedule plan =
      (let throughput = target_rps spec / of_u64 (connections spec) / f64_lit 1000000
       in if ramp spec then Ramp (saturating_mul (duration_s spec) 1000000) throughput else Constant throughput)"
    and "plan_stagger_us plan =
      as_u64 (f64_lit 1000000 / (target_rps spec / of_u64 (connections spec))) div max (connections spec) 1"
  using assms by (cases "uri_host (url spec)"; force simp: run_setup_def Let_def split: if_split_asm)+

lemma length_u64: "LENGTH(64) = 64"
  by simp

lemma stagger_bound: "i < n \<Longrightarrow> (Suc i) * (m div n) \<le> m" for m n :: nat
  by (metis Suc_leI div_le_mono le_trans mult.commute mult_le_mono1 times_div_less_eq_dividend)

text \<open>The connections of a run start evenly spread over one interval of the per-connection rate: connection \<open>i\<close> starts
  at \<open>i\<close> times the stagger, without wrap-around, and its share of the interval ends within it.\<close>

lemma starts_within_one_interval:
  assumes "run_setup spec = Inr plan" "i < unat (connections spec)"
  shows "unat (thread_start_us (cn_sched (conn_init plan i))) = i * unat (plan_stagger_us plan)
    \<and> Suc i * unat (plan_stagger_us plan)
       \<le> unat (as_u64 (f64_lit 1000000 / (target_rps spec / of_u64 (connections spec))))"
proof -
  let ?m = "as_u64 (f64_lit 1000000 / (target_rps spec / of_u64 (connections spec)))"
  have "0 < connections spec" using assms(2) by (simp add: word_less_nat_alt)
  then have "max (connections spec) 1 = connections spec" 
    by (metis max.absorb1 word_less_1 linorder_not_le less_irrefl)
  then have stagger: "unat (plan_stagger_us plan) = unat ?m div unat (connections spec)"
    using setup_schedule(2) [OF assms(1)] by (simp add: unat_div)
  have bound: "Suc i * unat (plan_stagger_us plan) \<le> unat ?m"
    unfolding stagger by (rule stagger_bound [OF assms(2)])
  have "i * unat (plan_stagger_us plan) < 2 ^ 64"
    using bound unat_lt [of ?m] by simp
  then have "unat (of_nat (i * unat (plan_stagger_us plan)) :: u64) = i * unat (plan_stagger_us plan)"
    by (simp only: unat_of_nat length_u64 mod_less)
  then have "unat (of_nat i * plan_stagger_us plan) = i * unat (plan_stagger_us plan)"
    by (simp add: of_nat_unat)
  moreover have "thread_start_us (cn_sched (conn_init plan i)) = of_nat i * plan_stagger_us plan"
    by (simp add: conn_init_def conn_sched_init_def conn_sched_new_def conn_sched_ramp_def split: rate_schedule.split)
  ultimately show ?thesis using bound by simp
qed

end
