(* ===== verification/Worker_Run.thy ===== *)
theory Worker_Run
  imports Conn_Task
begin

text \<open>
  A whole run of one worker: the counters its connections share (\<open>LiveCounters\<close>), the 1 Hz tick emitter, the cancellation
  bridge and the final report of \<open>run_with_ticks_cancel\<close> in \<open>engine/src/worker.rs\<close>. The tasks interleave: an event is one
  atomic operation of one of them, and \<open>reachable\<close> is every state that some sequence of events produces. The order of
  events is less constrained than in the code, which also has a clock, and a start barrier that \<open>Start_Barrier\<close> adds.
\<close>

section \<open>Shared state\<close>

text \<open>
  \<open>l_first_429_rps\<close> is read back from the bits of the atomic: \<open>None\<close> is the sentinel \<open>u64::MAX\<close>, a bit pattern that no
  computed number has.
\<close>

record live_counters =
  l_completed :: u64
  l_pass :: u64
  l_fail_status :: u64
  l_fail_latency :: u64
  l_fail_size :: u64
  l_fail_content_type :: u64
  l_rate_limited :: u64
  l_first_429_seen :: bool
  l_first_429_rps :: "f64 option"
  l_backoff_us_total :: u64
  l_last_retry_after_ms :: i64
  l_abort :: bool
  l_sample_seq :: u64

definition i64_min :: i64 where
  "i64_min = push_bit 63 1"

definition live_default :: live_counters where
  "live_default =
     \<lparr> l_completed = 0, l_pass = 0, l_fail_status = 0, l_fail_latency = 0, l_fail_size = 0,
       l_fail_content_type = 0, l_rate_limited = 0, l_first_429_seen = False, l_first_429_rps = None,
       l_backoff_us_total = 0, l_last_retry_after_ms = i64_min, l_abort = False, l_sample_seq = 0 \<rparr>"

definition load_first_429_rps :: "live_counters \<Rightarrow> f64 option" where
  "load_first_429_rps l = l_first_429_rps l"

definition load_last_retry_after_ms :: "live_counters \<Rightarrow> i64 option" where
  "load_last_retry_after_ms l =
     (let v = l_last_retry_after_ms l in if v = i64_min then None else Some v)"

record 'h shared =
  sh_live :: live_counters
  sh_histos :: "'h histos"
  sh_samples :: "sampled_response list"

fun live_verdict :: "verdict \<Rightarrow> live_counters \<Rightarrow> live_counters" where
  "live_verdict Pass l = l\<lparr>l_pass := l_pass l + 1\<rparr>"
| "live_verdict FailStatus l = l\<lparr>l_fail_status := l_fail_status l + 1\<rparr>"
| "live_verdict FailLatency l = l\<lparr>l_fail_latency := l_fail_latency l + 1\<rparr>"
| "live_verdict FailSize l = l\<lparr>l_fail_size := l_fail_size l + 1\<rparr>"
| "live_verdict FailContentType l = l\<lparr>l_fail_content_type := l_fail_content_type l + 1\<rparr>"
| "live_verdict RateLimited l = l\<lparr>l_rate_limited := l_rate_limited l + 1\<rparr>"

text \<open>One atomic operation of a connection; the second component is what it does next because of the outcome.\<close>

fun perform :: "'h hdr \<Rightarrow> inline_assert \<Rightarrow> action \<Rightarrow> 'h shared \<Rightarrow> 'h shared \<times> action list" where
  "perform L a (RecordHistos c u) sh = (sh\<lparr>sh_histos := histos_record L (sh_histos sh) c u\<rparr>, [])"
| "perform L a IncCompleted sh =
     (sh\<lparr>sh_live := (sh_live sh)\<lparr>l_completed := l_completed (sh_live sh) + 1\<rparr>\<rparr>, [])"
| "perform L a (SampleSeq s) sh =
     (let seq = l_sample_seq (sh_live sh) + 1 in
      (sh\<lparr>sh_live := (sh_live sh)\<lparr>l_sample_seq := seq\<rparr>\<rparr>,
       if seq mod ucast (ia_sample_every_n a) = 0 then [PushSample s] else []))"
| "perform L a (PushSample s) sh = (sh\<lparr>sh_samples := sh_samples sh @ [s]\<rparr>, [])"
| "perform L a (IncVerdict v) sh = (sh\<lparr>sh_live := live_verdict v (sh_live sh)\<rparr>, [])"
| "perform L a (ClaimOnset offered) sh =
     (if l_first_429_seen (sh_live sh) then (sh, [])
      else (sh\<lparr>sh_live := (sh_live sh)\<lparr>l_first_429_seen := True\<rparr>\<rparr>, [StoreOnset offered]))"
| "perform L a (StoreOnset offered) sh =
     (sh\<lparr>sh_live := (sh_live sh)\<lparr>l_first_429_rps := Some offered\<rparr>\<rparr>, [])"
| "perform L a StoreAbort sh = (sh\<lparr>sh_live := (sh_live sh)\<lparr>l_abort := True\<rparr>\<rparr>, [])"
| "perform L a (StoreRetryAfter ms) sh =
     (sh\<lparr>sh_live := (sh_live sh)\<lparr>l_last_retry_after_ms := ms\<rparr>\<rparr>, [])"
| "perform L a (AddBackoff us) sh =
     (sh\<lparr>sh_live := (sh_live sh)\<lparr>l_backoff_us_total := l_backoff_us_total (sh_live sh) + us\<rparr>\<rparr>, [])"

section \<open>Ticks\<close>

record this_tick =
  tt_total :: u64
  tt_pass :: u64
  tt_fail_status :: u64
  tt_fail_latency :: u64
  tt_fail_size :: u64
  tt_fail_content_type :: u64
  tt_rate_limited :: u64

record bucket =
  bk_rps_lo :: f64
  bk_rps_hi :: f64
  bk_total :: u64
  bk_pass :: u64
  bk_fail_status :: u64
  bk_fail_latency :: u64
  bk_fail_size :: u64
  bk_fail_content_type :: u64
  bk_rate_limited :: u64

record percentiles =
  so_far_p50_us :: u64
  so_far_p99_us :: u64

record tick =
  tk_elapsed_s :: u64
  tk_achieved_rps_1s :: f64
  tk_completed_total :: u64
  tk_pass_total :: u64
  tk_fail_status_total :: u64
  tk_rate_limited_total :: u64
  tk_rate_limit_onset_rps :: "f64 option"
  tk_backoff_us_total :: u64
  tk_last_retry_after_ms :: "i64 option"
  tk_this_tick :: this_tick
  tk_percentiles_so_far :: percentiles
  tk_buckets :: "bucket list"
  tk_sampled :: "sampled_response list"
  tk_corrected_hist_v2 :: bytes
  tk_uncorrected_hist_v2 :: bytes

definition BUCKET_WIDTH_RPS :: f64 where
  "BUCKET_WIDTH_RPS = f64_lit 10"

definition tick_bucket :: "f64 \<Rightarrow> this_tick \<Rightarrow> bucket" where
  "tick_bucket achieved t =
     (let lo = f64_floor (achieved / BUCKET_WIDTH_RPS) * BUCKET_WIDTH_RPS in
      \<lparr> bk_rps_lo = lo, bk_rps_hi = lo + BUCKET_WIDTH_RPS, bk_total = tt_total t, bk_pass = tt_pass t,
        bk_fail_status = tt_fail_status t, bk_fail_latency = tt_fail_latency t,
        bk_fail_size = tt_fail_size t, bk_fail_content_type = tt_fail_content_type t,
        bk_rate_limited = tt_rate_limited t \<rparr>)"

text \<open>What the emitter reads in one second, one atomic load (or lock section) after the other.\<close>

datatype load =
    LdCompleted | LdVerdict verdict | LdOnset | LdBackoff | LdRetryAfter | LdHistos

record reads =
  rd_counts :: this_tick
  rd_onset :: "f64 option"
  rd_backoff :: u64
  rd_retry_after :: "i64 option"
  rd_percentiles :: percentiles
  rd_corrected :: bytes
  rd_uncorrected :: bytes

definition all_loads :: "load list" where
  "all_loads =
     [LdCompleted, LdVerdict Pass, LdVerdict FailStatus, LdVerdict FailLatency, LdVerdict FailSize,
      LdVerdict FailContentType, LdVerdict RateLimited, LdOnset, LdBackoff, LdRetryAfter, LdHistos]"

fun load_verdict :: "verdict \<Rightarrow> live_counters \<Rightarrow> this_tick \<Rightarrow> this_tick" where
  "load_verdict Pass l t = t\<lparr>tt_pass := l_pass l\<rparr>"
| "load_verdict FailStatus l t = t\<lparr>tt_fail_status := l_fail_status l\<rparr>"
| "load_verdict FailLatency l t = t\<lparr>tt_fail_latency := l_fail_latency l\<rparr>"
| "load_verdict FailSize l t = t\<lparr>tt_fail_size := l_fail_size l\<rparr>"
| "load_verdict FailContentType l t = t\<lparr>tt_fail_content_type := l_fail_content_type l\<rparr>"
| "load_verdict RateLimited l t = t\<lparr>tt_rate_limited := l_rate_limited l\<rparr>"

fun do_load :: "'h hdr \<Rightarrow> load \<Rightarrow> 'h shared \<Rightarrow> reads \<Rightarrow> reads" where
  "do_load L LdCompleted sh r = r\<lparr>rd_counts := (rd_counts r)\<lparr>tt_total := l_completed (sh_live sh)\<rparr>\<rparr>"
| "do_load L (LdVerdict v) sh r = r\<lparr>rd_counts := load_verdict v (sh_live sh) (rd_counts r)\<rparr>"
| "do_load L LdOnset sh r = r\<lparr>rd_onset := load_first_429_rps (sh_live sh)\<rparr>"
| "do_load L LdBackoff sh r = r\<lparr>rd_backoff := l_backoff_us_total (sh_live sh)\<rparr>"
| "do_load L LdRetryAfter sh r = r\<lparr>rd_retry_after := load_last_retry_after_ms (sh_live sh)\<rparr>"
| "do_load L LdHistos sh r =
     r\<lparr>rd_percentiles :=
         \<lparr> so_far_p50_us = hdr_quantile L (corrected (sh_histos sh)) (f64_lit (1 / 2)),
           so_far_p99_us = hdr_quantile L (corrected (sh_histos sh)) (f64_lit (99 / 100)) \<rparr>,
       rd_corrected := serialize_v2 L (corrected (sh_histos sh)),
       rd_uncorrected := serialize_v2 L (uncorrected (sh_histos sh))\<rparr>"

definition tick_delta :: "this_tick \<Rightarrow> this_tick \<Rightarrow> this_tick" where
  "tick_delta now prev =
     \<lparr> tt_total = saturating_sub (tt_total now) (tt_total prev),
       tt_pass = saturating_sub (tt_pass now) (tt_pass prev),
       tt_fail_status = saturating_sub (tt_fail_status now) (tt_fail_status prev),
       tt_fail_latency = saturating_sub (tt_fail_latency now) (tt_fail_latency prev),
       tt_fail_size = saturating_sub (tt_fail_size now) (tt_fail_size prev),
       tt_fail_content_type = saturating_sub (tt_fail_content_type now) (tt_fail_content_type prev),
       tt_rate_limited = saturating_sub (tt_rate_limited now) (tt_rate_limited prev) \<rparr>"

definition make_tick :: "u64 \<Rightarrow> this_tick \<Rightarrow> reads \<Rightarrow> sampled_response list \<Rightarrow> tick" where
  "make_tick elapsed_s prev r sampled =
     (let t = tick_delta (rd_counts r) prev;
          achieved = of_u64 (tt_total t)
      in \<lparr> tk_elapsed_s = elapsed_s, tk_achieved_rps_1s = achieved,
           tk_completed_total = tt_total (rd_counts r), tk_pass_total = tt_pass (rd_counts r),
           tk_fail_status_total = tt_fail_status (rd_counts r),
           tk_rate_limited_total = tt_rate_limited (rd_counts r),
           tk_rate_limit_onset_rps = rd_onset r, tk_backoff_us_total = rd_backoff r,
           tk_last_retry_after_ms = rd_retry_after r, tk_this_tick = t,
           tk_percentiles_so_far = rd_percentiles r, tk_buckets = [tick_bucket achieved t],
           tk_sampled = sampled, tk_corrected_hist_v2 = rd_corrected r,
           tk_uncorrected_hist_v2 = rd_uncorrected r \<rparr>)"

text \<open>\<open>em_next\<close> is the second the emitter waits for or is reporting; \<open>em_prev\<close> the counts at its last report.\<close>

datatype emitter_phase = Sleeping | Awake | Ended

record emitter =
  em_phase :: emitter_phase
  em_next :: u64
  em_prev :: this_tick
  em_reads :: reads
  em_loads :: "load list"

definition zero_tick :: this_tick where
  "zero_tick = \<lparr> tt_total = 0, tt_pass = 0, tt_fail_status = 0, tt_fail_latency = 0, tt_fail_size = 0,
                 tt_fail_content_type = 0, tt_rate_limited = 0 \<rparr>"

definition emitter_init :: "emitter" where
  "emitter_init =
     \<lparr> em_phase = Sleeping, em_next = 1, em_prev = zero_tick,
       em_reads = \<lparr> rd_counts = zero_tick, rd_onset = None, rd_backoff = 0, rd_retry_after = None,
                    rd_percentiles = \<lparr> so_far_p50_us = 0, so_far_p99_us = 0 \<rparr>, rd_corrected = [], rd_uncorrected = [] \<rparr>,
       em_loads = [] \<rparr>"

section \<open>The run as a state machine\<close>

record 'h config =
  cf_hdr :: "'h hdr"
  cf_httparse :: "bytes \<Rightarrow> parse_status"
  cf_spec :: run_spec
  cf_plan :: run_plan
  cf_cancellable :: bool

record 'h world =
  w_shared :: "'h shared"
  w_conns :: "conn list"
  w_emitter :: emitter
  w_ticks :: "tick list"

definition world_init :: "'h config \<Rightarrow> 'h world" where
  "world_init cf =
     \<lparr> w_shared = \<lparr> sh_live = live_default, sh_histos = histos_new (cf_hdr cf), sh_samples = [] \<rparr>,
       w_conns = map (conn_init (cf_plan cf)) [0..<unat (connections (cf_spec cf))],
       w_emitter = emitter_init, w_ticks = [] \<rparr>"

datatype worker_event =
    Refuse nat
  | Start nat
  | Top nat nat
  | Fire nat exchange
  | Act nat
  | Cancel
  | Wake
  | Load
  | Emit bool

text \<open>\<open>None\<close>: the event is not possible in this state.\<close>

definition on_conn :: "'h world \<Rightarrow> nat \<Rightarrow> (conn \<Rightarrow> bool) \<Rightarrow> (conn \<Rightarrow> conn) \<Rightarrow> 'h world option" where
  "on_conn w i enabled f =
     (if i < length (w_conns w) \<and> enabled (w_conns w ! i)
      then Some (w\<lparr>w_conns := (w_conns w)[i := f (w_conns w ! i)]\<rparr>) else None)"

definition act :: "'h config \<Rightarrow> nat \<Rightarrow> 'h world \<Rightarrow> 'h world option" where
  "act cf i w =
     (if i < length (w_conns w)
      then case cn_todo (w_conns w ! i) of
             [] \<Rightarrow> None
           | a # as \<Rightarrow>
               (case perform (cf_hdr cf) (from_spec (cf_spec cf)) a (w_shared w) of
                  (sh, follow) \<Rightarrow>
                    Some (w\<lparr>w_shared := sh, w_conns := (w_conns w)[i := (w_conns w ! i)\<lparr>cn_todo := follow @ as\<rparr>]\<rparr>))
      else None)"

definition emit :: "bool \<Rightarrow> 'h world \<Rightarrow> 'h world" where
  "emit receiver_alive w =
     (let e = w_emitter w;
          t = make_tick (em_next e) (em_prev e) (em_reads e) (sh_samples (w_shared w))
      in w\<lparr>w_shared := (w_shared w)\<lparr>sh_samples := []\<rparr>,
           w_emitter := e\<lparr>em_phase := (if receiver_alive then Sleeping else Ended),
                          em_next := em_next e + 1, em_prev := rd_counts (em_reads e)\<rparr>,
           w_ticks := (if receiver_alive then w_ticks w @ [t] else w_ticks w)\<rparr>)"

fun worker_exec :: "'h config \<Rightarrow> worker_event \<Rightarrow> 'h world \<Rightarrow> 'h world option" where
  "worker_exec cf (Refuse i) w = on_conn w i (\<lambda>c. cn_phase c = Prewarm) conn_refused"
| "worker_exec cf (Start i) w = on_conn w i (\<lambda>c. cn_phase c = Prewarm) conn_started"
| "worker_exec cf (Top i now) w =
     on_conn w i (\<lambda>c. cn_phase c = AtTop \<and> cn_todo c = [])
       (loop_top (duration_s (cf_spec cf)) (l_abort (sh_live (w_shared w))) now)"
| "worker_exec cf (Fire i x) w =
     on_conn w i (\<lambda>c. cn_phase c = Firing \<and> cn_target c \<le> ex_ready x \<and> ex_ready x \<le> ex_sent x \<and> ex_sent x \<le> ex_recv x)
       (fire (cf_httparse cf) (from_spec (cf_spec cf)) (rl_config_of (cf_spec cf)) (duration_s (cf_spec cf)) x)"
| "worker_exec cf (Act i) w = act cf i w"
| "worker_exec cf Cancel w =
     (if cf_cancellable cf
      then Some (w\<lparr>w_shared := (w_shared w)\<lparr>sh_live := (sh_live (w_shared w))\<lparr>l_abort := True\<rparr>\<rparr>\<rparr>) else None)"
| "worker_exec cf Wake w =
     (if em_phase (w_emitter w) = Sleeping \<and> em_next (w_emitter w) \<le> duration_s (cf_spec cf)
      then Some (w\<lparr>w_emitter := (w_emitter w)\<lparr>em_phase := Awake, em_loads := all_loads\<rparr>\<rparr>) else None)"
| "worker_exec cf Load w =
     (case em_loads (w_emitter w) of
        [] \<Rightarrow> None
      | ld # lds \<Rightarrow>
          Some (w\<lparr>w_emitter := (w_emitter w)\<lparr>em_loads := lds,
                   em_reads := do_load (cf_hdr cf) ld (w_shared w) (em_reads (w_emitter w))\<rparr>\<rparr>))"
| "worker_exec cf (Emit alive) w =
     (if em_phase (w_emitter w) = Awake \<and> em_loads (w_emitter w) = [] then Some (emit alive w) else None)"

text \<open>The states reachable in \<open>n\<close> events.\<close>

inductive reachable :: "'h config \<Rightarrow> nat \<Rightarrow> 'h world \<Rightarrow> bool" for cf where
  start: "reachable cf 0 (world_init cf)"
| event: "reachable cf n w \<Longrightarrow> worker_exec cf ev w = Some w' \<Longrightarrow> reachable cf (Suc n) w'"

fun worker_runs :: "'h config \<Rightarrow> worker_event list \<Rightarrow> 'h world \<Rightarrow> 'h world option" where
  "worker_runs cf [] w = Some w"
| "worker_runs cf (e # es) w = (case worker_exec cf e w of None \<Rightarrow> None | Some w' \<Rightarrow> worker_runs cf es w')"

lemma runs_reachable:
  "reachable cf n w \<Longrightarrow> worker_runs cf es w = Some w' \<Longrightarrow> reachable cf (n + length es) w'"
  by (induction es arbitrary: n w) (auto split: option.splits, metis add_Suc reachable.event)

section \<open>The report\<close>

definition add_results :: "conn_result \<Rightarrow> conn_result \<Rightarrow> conn_result" where
  "add_results t r =
     \<lparr> r_completed = r_completed t + r_completed r, r_pass = r_pass t + r_pass r,
       r_fail_status = r_fail_status t + r_fail_status r, r_fail_latency = r_fail_latency t + r_fail_latency r,
       r_fail_size = r_fail_size t + r_fail_size r,
       r_fail_content_type = r_fail_content_type t + r_fail_content_type r,
       r_rate_limited = r_rate_limited t + r_rate_limited r,
       r_backoff_us_total = r_backoff_us_total t + r_backoff_us_total r,
       r_conn_errors = r_conn_errors t + r_conn_errors r, r_timeouts = r_timeouts t + r_timeouts r \<rparr>"

text \<open>\<open>join_next\<close> hands out the results in the order in which the tasks end.\<close>

definition join_totals :: "conn_result list \<Rightarrow> conn_result" where
  "join_totals rs = foldl add_results conn_result_default rs"

text \<open>\<open>Duration::as_secs_f64\<close> of a duration in nanoseconds.\<close>

definition as_secs_f64 :: "nat \<Rightarrow> f64" where
  "as_secs_f64 ns = of_u64 (of_nat (ns div 1000000000)) + of_u64 (of_nat (ns mod 1000000000)) / f64_lit 1000000000"

record 'h run_report =
  rp_spec :: run_spec
  rp_elapsed_ms :: nat
  rp_histos :: "'h histos"
  rp_achieved_rps :: f64
  rp_totals :: conn_result
  rp_first_429_rps :: "f64 option"
  rp_last_retry_after_ms :: "i64 option"
  rp_corrected :: summary
  rp_uncorrected :: summary

definition make_report :: "'h config \<Rightarrow> conn_result list \<Rightarrow> nat \<Rightarrow> 'h world \<Rightarrow> 'h run_report" where
  "make_report cf joined elapsed_ns w =
     (let totals = join_totals joined;
          merged = sh_histos (w_shared w);
          live = sh_live (w_shared w)
      in \<lparr> rp_spec = cf_spec cf, rp_elapsed_ms = elapsed_ns div 1000000, rp_histos = merged,
           rp_achieved_rps = of_u64 (r_completed totals) / as_secs_f64 elapsed_ns,
           rp_totals = totals, rp_first_429_rps = load_first_429_rps live,
           rp_last_retry_after_ms = load_last_retry_after_ms live,
           rp_corrected = summary_from (cf_hdr cf) (corrected merged),
           rp_uncorrected = summary_from (cf_hdr cf) (uncorrected merged) \<rparr>)"

definition all_joined :: "'h world \<Rightarrow> bool" where
  "all_joined w \<longleftrightarrow> (\<forall>c\<in>set (w_conns w). cn_phase c = Done \<and> cn_todo c = [])"

section \<open>Conservation of counts\<close>

text \<open>
  What is counted three times: in the result of each connection, in the shared state, and, between the two, in the
  actions still to do. \<open>KRecorded\<close> is the number of samples in the histogram.
\<close>

datatype account = KCompleted | KVerdict verdict | KBackoff | KCorrected | KUncorrected

fun local_count :: "account \<Rightarrow> conn_result \<Rightarrow> u64" where
  "local_count KCompleted r = r_completed r"
| "local_count (KVerdict Pass) r = r_pass r"
| "local_count (KVerdict FailStatus) r = r_fail_status r"
| "local_count (KVerdict FailLatency) r = r_fail_latency r"
| "local_count (KVerdict FailSize) r = r_fail_size r"
| "local_count (KVerdict FailContentType) r = r_fail_content_type r"
| "local_count (KVerdict RateLimited) r = r_rate_limited r"
| "local_count KBackoff r = r_backoff_us_total r"
| "local_count KCorrected r = r_completed r"
| "local_count KUncorrected r = r_completed r"

fun shared_count :: "('h \<Rightarrow> nat multiset) \<Rightarrow> account \<Rightarrow> 'h shared \<Rightarrow> u64" where
  "shared_count cells KCompleted sh = l_completed (sh_live sh)"
| "shared_count cells (KVerdict Pass) sh = l_pass (sh_live sh)"
| "shared_count cells (KVerdict FailStatus) sh = l_fail_status (sh_live sh)"
| "shared_count cells (KVerdict FailLatency) sh = l_fail_latency (sh_live sh)"
| "shared_count cells (KVerdict FailSize) sh = l_fail_size (sh_live sh)"
| "shared_count cells (KVerdict FailContentType) sh = l_fail_content_type (sh_live sh)"
| "shared_count cells (KVerdict RateLimited) sh = l_rate_limited (sh_live sh)"
| "shared_count cells KBackoff sh = l_backoff_us_total (sh_live sh)"
| "shared_count cells KCorrected sh = of_nat (size (cells (corrected (sh_histos sh))))"
| "shared_count cells KUncorrected sh = of_nat (size (cells (uncorrected (sh_histos sh))))"

fun weight :: "account \<Rightarrow> action \<Rightarrow> u64" where
  "weight k (RecordHistos c u) = (if k = KCorrected \<or> k = KUncorrected then 1 else 0)"
| "weight k IncCompleted = (if k = KCompleted then 1 else 0)"
| "weight k (IncVerdict v) = (if k = KVerdict v then 1 else 0)"
| "weight k (AddBackoff us) = (if k = KBackoff then us else 0)"
| "weight k _ = 0"

definition pending :: "account \<Rightarrow> action list \<Rightarrow> u64" where
  "pending k as = sum_list (map (weight k) as)"

lemma pending_simps [simp]:
  "pending k [] = 0" "pending k (a # as) = weight k a + pending k as"
  "pending k (as @ bs) = pending k as + pending k bs"
  by (simp_all add: pending_def)

definition settled :: "account \<Rightarrow> conn \<Rightarrow> u64" where
  "settled k c = local_count k (cn_res c) - pending k (cn_todo c)"

lemma count_verdict_local:
  "local_count k (count_verdict v r) = local_count k r + (if k = KVerdict v then 1 else 0)"
  by (cases v; cases "(k, r)" rule: local_count.cases; simp)

lemma pending_policy:
  "pending k (fst (rate_limit_policy rl p))
    = (if k = KBackoff then case snd (rate_limit_policy rl p) of Some us \<Rightarrow> us | None \<Rightarrow> 0 else 0)"
  by (simp add: rate_limit_policy_def Let_def split: rl_action.split option.split)

lemma local_count_frame:
  "local_count k (r\<lparr>r_completed := n\<rparr>) = (if k \<in> {KCompleted, KCorrected, KUncorrected} then n else local_count k r)"
  "local_count k (r\<lparr>r_backoff_us_total := n\<rparr>) = (if k = KBackoff then n else local_count k r)"
  "local_count k (r\<lparr>r_conn_errors := n\<rparr>) = local_count k r"
  "local_count k (r\<lparr>r_timeouts := n\<rparr>) = local_count k r"
  "local_count k (r\<lparr>r_rate_limited := n\<rparr>) = (if k = KVerdict RateLimited then n else local_count k r)"
  by (cases "(k, r)" rule: local_count.cases; simp)+

lemma settled_response:
  "cn_todo c = [] \<Longrightarrow> settled k (on_response a rl i s t p buf c) = settled k c"
  using pending_policy [of k rl p]
  by (cases "rate_limit_policy rl p")
    (auto simp: settled_def on_response_def Let_def count_verdict_local local_count_frame
      split: option.splits)

lemma settled_simps [simp]:
  "settled k (conn_refused c) = settled k c" "settled k (conn_started c) = settled k c"
  "settled k (c\<lparr>cn_phase := ph\<rparr>) = settled k c" "settled k (c\<lparr>cn_buf := b\<rparr>) = settled k c"
  "settled k (loop_top d ab now c) = settled k c"
  "settled k (conn_init plan i) = 0"
  by (cases "(k, cn_res c)" rule: local_count.cases;
      simp add: settled_def conn_refused_def conn_started_def loop_top_def conn_init_def conn_result_default_def
        local_count_frame split: prod.split)+

lemma settled_timeout [simp]:
  "settled k (c\<lparr>cn_phase := ph, cn_buf := b, cn_res := (cn_res c)\<lparr>r_timeouts := n\<rparr>\<rparr>) = settled k c"
  by (simp add: settled_def local_count_frame)

lemma settled_fire: "cn_todo c = [] \<Longrightarrow> settled k (fire httparse a rl d x c) = settled k c"
  by (simp add: fire_def settled_response split: prod.split read_result.split)

text \<open>Each operation moves what it does from the pending to the shared account.\<close>

definition histos_ok :: "('h \<Rightarrow> bool) \<Rightarrow> 'h shared \<Rightarrow> bool" where
  "histos_ok ok sh \<longleftrightarrow> ok (corrected (sh_histos sh)) \<and> ok (uncorrected (sh_histos sh))"

lemma shared_count_frame [simp]:
  "shared_count cells k (sh\<lparr>sh_samples := ss\<rparr>) = shared_count cells k sh"
  "shared_count cells k (sh\<lparr>sh_live := (sh_live sh)\<lparr>l_abort := b\<rparr>\<rparr>) = shared_count cells k sh"
  "shared_count cells k (sh\<lparr>sh_live := (sh_live sh)\<lparr>l_sample_seq := n\<rparr>\<rparr>) = shared_count cells k sh"
  "shared_count cells k (sh\<lparr>sh_live := (sh_live sh)\<lparr>l_first_429_seen := b\<rparr>\<rparr>) = shared_count cells k sh"
  "shared_count cells k (sh\<lparr>sh_live := (sh_live sh)\<lparr>l_first_429_rps := x\<rparr>\<rparr>) = shared_count cells k sh"
  "shared_count cells k (sh\<lparr>sh_live := (sh_live sh)\<lparr>l_last_retry_after_ms := ms\<rparr>\<rparr>) = shared_count cells k sh"
  by (cases "(cells, k, sh)" rule: shared_count.cases; simp)+

lemma perform_moves:
  assumes "hdr_laws L ok cells cell" "histos_ok ok sh" "perform L a x sh = (sh', follow)"
  shows "shared_count cells k sh' = shared_count cells k sh + weight k x \<and> pending k follow = 0 \<and> histos_ok ok sh'"
proof (cases x)
  case (RecordHistos c u)
  then show ?thesis
    using assms histos_record_cells [OF assms(1), of "sh_histos sh" c u]
    by (cases "(cells, k, sh)" rule: shared_count.cases; auto simp: histos_ok_def)
next
  case IncCompleted
  then show ?thesis using assms by (cases "(cells, k, sh)" rule: shared_count.cases; auto simp: histos_ok_def)
next
  case (AddBackoff us)
  then show ?thesis using assms by (cases "(cells, k, sh)" rule: shared_count.cases; auto simp: histos_ok_def)
next
  case (IncVerdict v)
  then show ?thesis
    using assms by (cases v; cases "(cells, k, sh)" rule: shared_count.cases; auto simp: histos_ok_def)
qed (use assms in \<open>auto simp: histos_ok_def Let_def split: if_splits\<close>)

lemma sum_list_settled:
  assumes "i < length cs"
  shows "sum_list (map (settled k) (cs[i := c])) = sum_list (map (settled k) cs) - settled k (cs ! i) + settled k c"
  using assms
proof (induction cs arbitrary: i)
  case (Cons x xs)
  then show ?case by (cases i) (simp_all add: algebra_simps)
qed simp

definition conserved :: "('h \<Rightarrow> bool) \<Rightarrow> ('h \<Rightarrow> nat multiset) \<Rightarrow> 'h world \<Rightarrow> bool" where
  "conserved ok cells w \<longleftrightarrow> histos_ok ok (w_shared w)
     \<and> (\<forall>k. shared_count cells k (w_shared w) = sum_list (map (settled k) (w_conns w)))"

lemma on_conn_cases:
  assumes "on_conn w i en f = Some w'"
  obtains "i < length (w_conns w)" "en (w_conns w ! i)" "w' = w\<lparr>w_conns := (w_conns w)[i := f (w_conns w ! i)]\<rparr>"
  using assms by (auto simp: on_conn_def split: if_splits)

lemma conserved_on_conn:
  assumes "conserved ok cells w" "on_conn w i en f = Some w'"
    and "\<And>k c. en c \<Longrightarrow> settled k (f c) = settled k c"
  shows "conserved ok cells w'"
  using assms(2) by (rule on_conn_cases) (use assms(1,3) in \<open>simp add: conserved_def sum_list_settled\<close>)

lemma act_cases:
  assumes "act cf i w = Some w'"
  obtains x as sh follow where "i < length (w_conns w)" "cn_todo (w_conns w ! i) = x # as"
    "perform (cf_hdr cf) (from_spec (cf_spec cf)) x (w_shared w) = (sh, follow)"
    "w' = w\<lparr>w_shared := sh, w_conns := (w_conns w)[i := (w_conns w ! i)\<lparr>cn_todo := follow @ as\<rparr>]\<rparr>"
  using assms by (auto simp: act_def split: if_splits list.splits prod.splits)

lemma conserved_act:
  assumes laws: "hdr_laws (cf_hdr cf) ok cells cell" and w: "conserved ok cells w" and "act cf i w = Some w'"
  shows "conserved ok cells w'"
  using assms(3)
proof (rule act_cases)
  fix x as sh follow
  assume i: "i < length (w_conns w)" and todo: "cn_todo (w_conns w ! i) = x # as"
    and p: "perform (cf_hdr cf) (from_spec (cf_spec cf)) x (w_shared w) = (sh, follow)"
    and w': "w' = w\<lparr>w_shared := sh, w_conns := (w_conns w)[i := (w_conns w ! i)\<lparr>cn_todo := follow @ as\<rparr>]\<rparr>"
  have "histos_ok ok (w_shared w)" using w by (simp add: conserved_def)
  note moves = perform_moves [OF laws this p]
  have "settled k ((w_conns w ! i)\<lparr>cn_todo := follow @ as\<rparr>) = settled k (w_conns w ! i) + weight k x" for k
    using moves todo by (simp add: settled_def)
  then show ?thesis
    using w moves by (simp add: conserved_def w' sum_list_settled [OF i])
qed

lemma conserved_exec:
  assumes laws: "hdr_laws (cf_hdr cf) ok cells cell" and w: "conserved ok cells w"
    and "worker_exec cf ev w = Some w'"
    and idle: "\<And>c. c \<in> set (w_conns w) \<Longrightarrow> cn_phase c = Firing \<Longrightarrow> cn_todo c = []"
  shows "conserved ok cells w'"
proof (cases ev)
  case (Fire i x)
  then have e: "on_conn w i (\<lambda>c. cn_phase c = Firing \<and> cn_target c \<le> ex_ready x \<and> ex_ready x \<le> ex_sent x
       \<and> ex_sent x \<le> ex_recv x)
     (fire (cf_httparse cf) (from_spec (cf_spec cf)) (rl_config_of (cf_spec cf)) (duration_s (cf_spec cf)) x) = Some w'"
    using assms(3) by simp
  then show ?thesis
    by (rule on_conn_cases) (use w idle in \<open>simp add: conserved_def sum_list_settled settled_fire\<close>)
next
  case (Act i)
  then show ?thesis using conserved_act [OF laws w] assms(3) by simp
next
  case (Emit alive)
  then show ?thesis using assms(3) w by (auto simp: emit_def Let_def conserved_def histos_ok_def split: if_splits)
next
  case (Load)
  then show ?thesis using assms(3) w by (auto simp: conserved_def histos_ok_def split: list.splits)
qed (use assms(3) w in \<open>auto simp: conserved_def histos_ok_def split: if_splits intro: conserved_on_conn [OF w]
      dest!: conserved_on_conn [OF w]\<close>)

section \<open>Invariants of the connections\<close>

lemma perform_follow:
  "perform L a x sh = (sh', follow) \<Longrightarrow>
    follow = [] \<or> (\<exists>s. x = SampleSeq s \<and> follow = [PushSample s]) \<or> (\<exists>o'. x = ClaimOnset o' \<and> follow = [StoreOnset o'])"
  by (cases x) (auto simp: Let_def split: if_splits)

text \<open>A property of single connections holds in every reachable state if each thing a connection can do keeps it.\<close>

lemma conns_induct:
  assumes "reachable cf n w"
    and init: "\<And>i. i < unat (connections (cf_spec cf)) \<Longrightarrow> P (conn_init (cf_plan cf) i)"
    and refused: "\<And>c. P c \<Longrightarrow> cn_phase c = Prewarm \<Longrightarrow> P (conn_refused c)"
    and started: "\<And>c. P c \<Longrightarrow> cn_phase c = Prewarm \<Longrightarrow> P (conn_started c)"
    and top: "\<And>c ab now. P c \<Longrightarrow> cn_phase c = AtTop \<Longrightarrow> cn_todo c = [] \<Longrightarrow>
       P (loop_top (duration_s (cf_spec cf)) ab now c)"
    and fire: "\<And>c x. P c \<Longrightarrow> cn_phase c = Firing \<Longrightarrow> cn_target c \<le> ex_ready x \<Longrightarrow>
       P (fire (cf_httparse cf) (from_spec (cf_spec cf)) (rl_config_of (cf_spec cf)) (duration_s (cf_spec cf)) x c)"
    and act: "\<And>c x as follow. P c \<Longrightarrow> cn_todo c = x # as \<Longrightarrow>
       follow = [] \<or> (\<exists>s. x = SampleSeq s \<and> follow = [PushSample s])
         \<or> (\<exists>o'. x = ClaimOnset o' \<and> follow = [StoreOnset o']) \<Longrightarrow>
       P (c\<lparr>cn_todo := follow @ as\<rparr>)"
  shows "\<forall>c\<in>set (w_conns w). P c"
  using assms(1)
proof induction
  case start
  then show ?case using init by (auto simp: world_init_def)
next
  case (event n w ev w')
  have upd: "\<forall>c\<in>set (w_conns w). P c \<Longrightarrow> P c' \<Longrightarrow> \<forall>c\<in>set ((w_conns w)[i := c']). P c" for i c'
    using set_update_subset_insert [of "w_conns w" i c'] by auto
  have on: "\<forall>c\<in>set (w_conns w'). P c"
    if "on_conn w i en f = Some w'" "\<And>c. P c \<Longrightarrow> en c \<Longrightarrow> P (f c)" for i en f
  proof -
    from that(1) obtain "i < length (w_conns w)" "en (w_conns w ! i)"
        and w': "w' = w\<lparr>w_conns := (w_conns w)[i := f (w_conns w ! i)]\<rparr>"
      by (rule on_conn_cases)
    then have "P (f (w_conns w ! i))" using event.IH that(2) by simp
    with upd [OF event.IH this, of i] show ?thesis by (simp add: w')
  qed
  show ?case
  proof (cases ev)
    case (Refuse i)
    show ?thesis by (rule on [OF event.hyps(2) [unfolded Refuse worker_exec.simps]]) (rule refused)
  next
    case (Start i)
    show ?thesis by (rule on [OF event.hyps(2) [unfolded Start worker_exec.simps]]) (rule started)
  next
    case (Top i now)
    show ?thesis by (rule on [OF event.hyps(2) [unfolded Top worker_exec.simps]]) (simp add: top)
  next
    case (Fire i x)
    show ?thesis by (rule on [OF event.hyps(2) [unfolded Fire worker_exec.simps]]) (simp add: fire)
  next
    case (Act i)
    with event.hyps have "act cf i w = Some w'" by simp
    then show ?thesis
    proof (rule act_cases)
      fix x as sh follow
      assume i: "i < length (w_conns w)" and todo: "cn_todo (w_conns w ! i) = x # as"
        and p: "perform (cf_hdr cf) (from_spec (cf_spec cf)) x (w_shared w) = (sh, follow)"
        and w': "w' = w\<lparr>w_shared := sh, w_conns := (w_conns w)[i := (w_conns w ! i)\<lparr>cn_todo := follow @ as\<rparr>]\<rparr>"
      have "P ((w_conns w ! i)\<lparr>cn_todo := follow @ as\<rparr>)"
        by (rule act [OF _ todo perform_follow [OF p]]) (use event.IH i in simp)
      with upd [OF event.IH this, of i] show ?thesis by (simp add: w')
    qed
  next
    case Cancel
    with event show ?thesis by (auto split: if_splits)
  next
    case Wake
    with event show ?thesis by (auto split: if_splits)
  next
    case Load
    with event show ?thesis by (auto split: list.splits)
  next
    case (Emit alive)
    with event show ?thesis by (auto simp: emit_def Let_def split: if_splits)
  qed
qed

lemma fire_phase: "cn_phase (fire httparse a rl d x c) \<in> {AtTop, Done}"
  by (simp add: fire_def conn_refused_def conn_simps split: prod.split read_result.split)

lemma fire_todo_done:
  "cn_todo c = [] \<Longrightarrow> cn_phase (fire httparse a rl d x c) \<noteq> AtTop \<Longrightarrow> cn_todo (fire httparse a rl d x c) = []"
  by (auto simp: fire_def conn_refused_def conn_simps split: prod.splits read_result.splits if_splits)

lemma todo_only_at_top:
  assumes "reachable cf n w" "c \<in> set (w_conns w)" "cn_phase c \<noteq> AtTop"
  shows "cn_todo c = []"
proof -
  have "\<forall>c\<in>set (w_conns w). cn_phase c \<noteq> AtTop \<longrightarrow> cn_todo c = []"
    using assms(1)
    by (rule conns_induct)
      (simp_all add: fire_todo_done conn_init_def conn_refused_def conn_started_def loop_top_def split: prod.split)
  then show ?thesis using assms(2,3) by blast
qed

lemma conns_add_up:
  assumes "reachable cf n w" "c \<in> set (w_conns w)"
  shows "adds_up (cn_res c)"
proof -
  have "\<forall>c\<in>set (w_conns w). adds_up (cn_res c)"
    using assms(1)
    by (rule conns_induct)
      (simp_all add: adds_up_fire adds_up_loop_top,
        simp_all add: conn_started_def conn_init_def conn_refused_def adds_up_def conn_simps conn_result_default_def
          verdict_count_def)
  then show ?thesis using assms(2) by blast
qed

lemma conserved_reachable:
  assumes "hdr_laws (cf_hdr cf) ok cells cell" "reachable cf n w"
  shows "conserved ok cells w"
  using assms(2)
proof induction
  case start
  have "shared_count cells k (w_shared (world_init cf)) = 0" for k
    using hdr_newD [OF assms(1)]
    by (cases "(cells, k, w_shared (world_init cf))" rule: shared_count.cases)
      (simp_all add: world_init_def live_default_def histos_new_def)
  moreover have "sum_list (map (settled k) (w_conns (world_init cf))) = 0" for k
    by (simp add: world_init_def comp_def del: upt_Suc)
  ultimately show ?case
    using hdr_newD [OF assms(1)] by (simp add: conserved_def histos_ok_def world_init_def histos_new_def)
next
  case (event n w ev w')
  have "cn_todo c = []" if "c \<in> set (w_conns w)" "cn_phase c = Firing" for c
    using todo_only_at_top [OF event.hyps(1) that(1)] that(2) by simp
  with event show ?case using conserved_exec [OF assms(1)] by blast
qed

section \<open>What the report says\<close>

lemma add_results_local [simp]: "local_count k (add_results t r) = local_count k t + local_count k r"
  by (cases "(k, r)" rule: local_count.cases) (simp_all add: add_results_def)

lemma local_count_default [simp]: "local_count k conn_result_default = 0"
  by (cases "(k, conn_result_default)" rule: local_count.cases) (simp_all add: conn_result_default_def)

lemma foldl_add_local:
  "local_count k (foldl add_results t rs) = local_count k t + sum_list (map (local_count k) rs)"
  by (induction rs arbitrary: t) (simp_all add: algebra_simps)

lemma join_totals_local:
  assumes "mset joined = mset (map cn_res cs)"
  shows "local_count k (join_totals joined) = sum_list (map (local_count k \<circ> cn_res) cs)"
proof -
  have "sum_list (map (local_count k) joined) = sum_mset (image_mset (local_count k) (mset joined))"
    by (metis mset_map sum_mset_sum_list)
  also have "\<dots> = sum_list (map (local_count k \<circ> cn_res) cs)"
    by (metis assms map_map mset_map sum_mset_sum_list)
  finally show ?thesis by (simp add: join_totals_def foldl_add_local)
qed

lemma foldl_adds_up: "adds_up t \<Longrightarrow> \<forall>r\<in>set rs. adds_up r \<Longrightarrow> adds_up (foldl add_results t rs)"
  by (induction rs arbitrary: t) (auto simp: adds_up_def verdict_count_def add_results_def algebra_simps)

lemma settled_joined:
  assumes "all_joined w"
  shows "sum_list (map (settled k) (w_conns w)) = sum_list (map (local_count k \<circ> cn_res) (w_conns w))"
  using assms by (auto simp: all_joined_def settled_def intro!: arg_cong [of _ _ sum_list])

text \<open>C1. At the end of a run nothing is lost or counted twice, however the tasks interleaved and in whatever order they
  were joined: every total of the report equals the shared counter the ticks read, the two histograms hold one value for
  each completed response, and completed splits exactly into passes, the failure tiers and rate-limited responses.\<close>

theorem report_accounts_for_every_response:
  assumes "hdr_laws (cf_hdr cf) ok cells cell" "reachable cf n w" "all_joined w"
    and "mset joined = mset (map cn_res (w_conns w))"
  shows "let rep = make_report cf joined ns w; t = rp_totals rep in
      (\<forall>k. local_count k t = shared_count cells k (w_shared w))
    \<and> r_completed t = r_pass t + r_fail_status t + r_fail_latency t + r_fail_size t + r_fail_content_type t
        + r_rate_limited t
    \<and> summary_count (rp_corrected rep) = r_completed t \<and> summary_count (rp_uncorrected rep) = r_completed t"
proof -
  have con: "conserved ok cells w" by (rule conserved_reachable [OF assms(1,2)])
  have eq: "local_count k (join_totals joined) = shared_count cells k (w_shared w)" for k
    using con by (simp add: conserved_def join_totals_local [OF assms(4)] settled_joined [OF assms(3)])
  have "\<forall>r\<in>set joined. adds_up r"
    using conns_add_up [OF assms(2)] assms(4) by (metis image_iff list.set_map mset_eq_setD)
  then have sum: "adds_up (join_totals joined)"
    unfolding join_totals_def
    by (rule foldl_adds_up [rotated]) (simp add: adds_up_def conn_result_default_def verdict_count_def)
  have "hdr_len (cf_hdr cf) h = of_nat (size (cells h))" if "ok h" for h
    using assms(1) that unfolding hdr_laws_def by (elim conjE) blast
  moreover have "histos_ok ok (w_shared w)" using con by (simp add: conserved_def)
  ultimately have "hdr_len (cf_hdr cf) (corrected (sh_histos (w_shared w))) = r_completed (join_totals joined)"
    and "hdr_len (cf_hdr cf) (uncorrected (sh_histos (w_shared w))) = r_completed (join_totals joined)"
    using eq [of KCorrected] eq [of KUncorrected] by (simp_all add: histos_ok_def)
  then show ?thesis
    using eq sum by (simp add: Let_def make_report_def summary_from_def adds_up_def verdict_count_def)
qed

section \<open>Failed connections\<close>

definition failures :: "conn_result \<Rightarrow> nat" where
  "failures r = unat (r_conn_errors r) + unat (r_timeouts r)"

lemma failures_frame [simp]:
  "failures (cn_res (on_response a rl i s t p buf c)) = failures (cn_res c)"
  "failures conn_result_default = 0"
  by (simp_all add: failures_def conn_simps conn_result_default_def)

lemma failures_once:
  "failures r = 0 \<Longrightarrow> failures (r\<lparr>r_conn_errors := r_conn_errors r + 1\<rparr>) = 1"
  "failures r = 0 \<Longrightarrow> failures (r\<lparr>r_timeouts := r_timeouts r + 1\<rparr>) = 1"
  by (simp_all add: failures_def unsigned_eq_0_iff)

definition fails_once :: "conn \<Rightarrow> bool" where
  "fails_once c \<longleftrightarrow> (if cn_phase c = Done then failures (cn_res c) \<le> 1 else failures (cn_res c) = 0)"

lemma conn_fails_once:
  assumes "reachable cf n w" "c \<in> set (w_conns w)"
  shows "fails_once c"
proof -
  have fire: "fails_once (fire httparse a rl d x c)" if "failures (cn_res c) = 0" for httparse a rl d x c
    using that
    by (simp add: fails_once_def fire_def conn_refused_def failures_once conn_simps split: prod.split read_result.split)
  have "\<forall>c\<in>set (w_conns w). fails_once c"
    using assms(1)
  proof (rule conns_induct)
    fix c x
    assume "fails_once c" "cn_phase c = Firing"
    then show "fails_once (fire (cf_httparse cf) (from_spec (cf_spec cf)) (rl_config_of (cf_spec cf))
        (duration_s (cf_spec cf)) x c)"
      by (intro fire) (simp add: fails_once_def)
  qed (simp_all add: fails_once_def failures_once conn_init_def conn_refused_def conn_started_def loop_top_def
      split: prod.split if_splits)
  then show ?thesis using assms(2) by blast
qed

lemma foldl_failures:
  assumes "\<forall>r\<in>set rs. failures r \<le> 1" "failures t + length rs < 2 ^ 64"
  shows "failures (foldl add_results t rs) \<le> failures t + length rs"
  using assms
proof (induction rs arbitrary: t)
  case (Cons r rs)
  have "unat (r_conn_errors t) + unat (r_conn_errors r) < 2 ^ 64" "unat (r_timeouts t) + unat (r_timeouts r) < 2 ^ 64"
    using Cons.prems by (auto simp: failures_def)
  then have "failures (add_results t r) = failures t + failures r"
    by (simp add: failures_def add_results_def unat_word_ariths)
  moreover have "failures r \<le> 1" using Cons.prems(1) by simp
  ultimately have step: "failures (add_results t r) \<le> failures t + 1" by simp
  then have "failures (foldl add_results (add_results t r) rs) \<le> failures (add_results t r) + length rs"
    using Cons by (intro Cons.IH) auto
  with step show ?case by simp
qed simp

text \<open>A connection is lost at most once, by an error or by a timeout, and is not replaced: the two totals of the report
  together never exceed the number of connections.\<close>

lemma failures_bounded_by_connections:
  assumes "reachable cf n w" "mset joined = mset (map cn_res (w_conns w))" "length (w_conns w) < 2 ^ 64"
  shows "unat (r_conn_errors (rp_totals (make_report cf joined ns w)))
       + unat (r_timeouts (rp_totals (make_report cf joined ns w))) \<le> length (w_conns w)"
proof -
  have len: "length joined = length (w_conns w)" using assms(2) by (metis length_map size_mset)
  have "failures (cn_res c) \<le> 1" if "c \<in> set (w_conns w)" for c
    using conn_fails_once [OF assms(1) that] by (simp add: fails_once_def split: if_splits)
  moreover have "set joined = cn_res ` set (w_conns w)" using assms(2) by (metis list.set_map mset_eq_setD)
  ultimately have "\<forall>r\<in>set joined. failures r \<le> 1" by simp
  from foldl_failures [OF this, of conn_result_default] len assms(3)
  have "failures (join_totals joined) \<le> length (w_conns w)" by (simp add: join_totals_def)
  then show ?thesis by (simp add: make_report_def Let_def failures_def)
qed

section \<open>A small run\<close>

text \<open>One connection answers one request with 200, a tick is emitted, the run is cancelled and the connection drains.\<close>

definition demo_config :: "nat list config" where
  "demo_config =
     \<lparr> cf_hdr = exact_hdr, cf_httparse = one_head_parser ''HEAD'' (Some 200) [],
       cf_spec = example_spec\<lparr>connections := 1, content_type := None\<rparr>, cf_plan = example_plan, cf_cancellable = True \<rparr>"

definition demo_exchange :: exchange where
  "demo_exchange =
     \<lparr> ex_ready = 3, ex_sent = 5, ex_write_ok = True, ex_reads = [Chunk ''HEAD''], ex_recv = 900 \<rparr>"

definition demo_events :: "worker_event list" where
  "demo_events = [Start 0, Top 0 2, Fire 0 demo_exchange, Act 0, Act 0, Act 0]"

definition demo_tick :: "worker_event list" where
  "demo_tick = [Wake, Load, Load, Load, Load, Load, Load, Load, Load, Load, Load, Load, Emit True]"

lemma demo_read:
  "read_one_response (one_head_parser ''HEAD'' (Some 200) []) [] [Chunk ''HEAD'']
     = (ReadOk (response_of ''HEAD'' (Some 200) []), ''HEAD'', [])"
  by (simp add: read_one_response.simps [of _ "[]"] read_one_response.simps [of _ "''HEAD''"]
      parse_outcome_of_def one_head_parser_def starts_with_iff READ_BUF_BYTES_def scan_headers_def response_of_def)

lemma demo_max: "max 900 1 = (900 :: u64)" "max 895 1 = (895 :: u64)" "\<not> (900 :: u64) \<le> 0"
  by (simp_all add: max_def word_le_nat_alt)

lemmas demo_eval = demo_config_def world_init_def on_conn_def example_spec_def conn_init_def
  conn_started_def example_plan_def loop_top_def deadline_us_def usec_to_next_send_def Let_def
  intended_send_time_def conn_sched_init_def conn_sched_new_def float_eval fire_def demo_exchange_def demo_read
  on_response_def from_spec_def classify_def response_of_def scan_headers_def status_ok_def above_def below_def
  content_type_ok_def saturating_sub_def demo_max act_def live_default_def

lemma demo_answered:
  "\<exists>w. worker_runs demo_config demo_events (world_init demo_config) = Some w
     \<and> sh_live (w_shared w) = live_default\<lparr>l_completed := 1, l_pass := 1\<rparr>
     \<and> map cn_phase (w_conns w) = [AtTop] \<and> map cn_todo (w_conns w) = [[]]
     \<and> map (r_completed \<circ> cn_res) (w_conns w) = [1]
     \<and> w_emitter w = emitter_init \<and> w_ticks w = []"
  by (simp add: demo_events_def demo_eval conn_result_default_def)

lemma runs_append:
  "worker_runs cf (es @ fs) w = (case worker_runs cf es w of None \<Rightarrow> None | Some w' \<Rightarrow> worker_runs cf fs w')"
  by (induction es arbitrary: w) (auto split: option.splits)

lemma demo_ticked:
  assumes "sh_live (w_shared w) = live_default\<lparr>l_completed := 1, l_pass := 1\<rparr>" "w_emitter w = emitter_init" "w_ticks w = []"
  shows "\<exists>w' t. worker_runs demo_config demo_tick w = Some w' \<and> w_conns w' = w_conns w \<and> length (w_ticks w') = 1
     \<and> sh_live (w_shared w') = sh_live (w_shared w) \<and> w_ticks w' = [t]
     \<and> tt_total (tk_this_tick t) = 1 \<and> tt_pass (tk_this_tick t) = 1 \<and> tk_completed_total t = 1"
  using assms
  by (simp add: demo_tick_def emitter_init_def demo_config_def example_spec_def all_loads_def emit_def Let_def
      make_tick_def tick_delta_def zero_tick_def saturating_sub_def)

lemma demo_drained:
  assumes "map cn_phase (w_conns w) = [AtTop]" "map cn_todo (w_conns w) = [[]]" "cf_cancellable cf"
  shows "\<exists>w'. worker_runs cf [Cancel, Top 0 1000] w = Some w' \<and> all_joined w'
     \<and> map cn_res (w_conns w') = map cn_res (w_conns w)
     \<and> l_completed (sh_live (w_shared w')) = l_completed (sh_live (w_shared w)) \<and> w_ticks w' = w_ticks w"
proof -
  obtain c where "w_conns w = [c]" using assms(1) by auto
  then show ?thesis
    using assms by (simp add: on_conn_def loop_top_def all_joined_def)
qed

definition demo_all :: "worker_event list" where
  "demo_all = demo_events @ demo_tick @ [Cancel, Top 0 1000]"

lemma demo_cancellable: "cf_cancellable demo_config"
  by (simp add: demo_config_def)

lemma demo_finished:
  obtains w where "worker_runs demo_config demo_all (world_init demo_config) = Some w" "all_joined w"
    "length (w_conns w) = 1" "map (r_completed \<circ> cn_res) (w_conns w) = [1]" "l_completed (sh_live (w_shared w)) = 1"
    "length (w_ticks w) = 1"
proof -
  obtain w1 where w1: "worker_runs demo_config demo_events (world_init demo_config) = Some w1"
    "sh_live (w_shared w1) = live_default\<lparr>l_completed := 1, l_pass := 1\<rparr>"
    "map cn_phase (w_conns w1) = [AtTop]" "map cn_todo (w_conns w1) = [[]]"
    "map (r_completed \<circ> cn_res) (w_conns w1) = [1]" "w_emitter w1 = emitter_init" "w_ticks w1 = []"
    using demo_answered by (elim exE conjE) (rule that)
  obtain w2 where w2: "worker_runs demo_config demo_tick w1 = Some w2" "w_conns w2 = w_conns w1"
    "sh_live (w_shared w2) = sh_live (w_shared w1)" "length (w_ticks w2) = 1"
    using demo_ticked [OF w1(2,6,7)] by (elim exE conjE) (rule that)
  have phases: "map cn_phase (w_conns w2) = [AtTop]" "map cn_todo (w_conns w2) = [[]]"
    by (simp_all only: w2(2) w1(3,4))
  obtain w where w: "worker_runs demo_config [Cancel, Top 0 1000] w2 = Some w" "all_joined w"
    "map cn_res (w_conns w) = map cn_res (w_conns w2)"
    "l_completed (sh_live (w_shared w)) = l_completed (sh_live (w_shared w2))" "w_ticks w = w_ticks w2"
    using demo_drained [OF phases demo_cancellable] by (elim exE conjE) (rule that)
  have "worker_runs demo_config demo_all (world_init demo_config) = Some w"
    unfolding demo_all_def by (simp only: runs_append w1(1) w2(1) w(1) option.simps)
  moreover have "map cn_res (w_conns w) = map cn_res (w_conns w1)" using w(3) by (simp only: w2(2))
  then have "map (r_completed \<circ> cn_res) (w_conns w) = [1]" using w1(5) by (metis map_map)
  moreover from this have "length (w_conns w) = 1" by (metis length_map length_Cons list.size(3) One_nat_def)
  moreover have "l_completed (sh_live (w_shared w)) = 1" by (simp only: w(4) w2(3) w1(2)) simp
  moreover have "length (w_ticks w) = 1" by (simp only: w(5) w2(4))
  ultimately show thesis using w(2) by (intro that)
qed

lemma demo_reachable:
  "worker_runs demo_config es (world_init demo_config) = Some w \<Longrightarrow> reachable demo_config (length es) w"
  using runs_reachable [OF reachable.start] by fastforce

theorem report_accounts_for_every_response_witness:
  "\<exists>w. all_joined w \<and> length (w_conns w) = 1
     \<and> summary_count (rp_corrected (make_report demo_config (map cn_res (w_conns w)) 1000000000 w)) = 1"
proof -
  obtain w where w: "worker_runs demo_config demo_all (world_init demo_config) = Some w" "all_joined w"
    "length (w_conns w) = 1" "l_completed (sh_live (w_shared w)) = 1"
    by (rule demo_finished)
  have "hdr_laws (cf_hdr demo_config) sorted mset unat" using exact_hdr_laws by (simp add: demo_config_def)
  from report_accounts_for_every_response [OF this demo_reachable [OF w(1)] w(2) refl, of 1000000000]
  have "summary_count (rp_corrected (make_report demo_config (map cn_res (w_conns w)) 1000000000 w))
      = shared_count mset KCompleted (w_shared w)"
    unfolding Let_def by (metis local_count.simps(1))
  then show ?thesis using w by auto
qed

section \<open>Abort\<close>

lemma l_abort_verdict [simp]: "l_abort (live_verdict v l) = l_abort l"
  by (cases v) simp_all

lemma perform_keeps_abort: "perform L a x sh = (sh', follow) \<Longrightarrow> l_abort (sh_live sh) \<Longrightarrow> l_abort (sh_live sh')"
  by (cases x) (auto simp: Let_def split: if_splits)

lemma abort_stays:
  assumes "worker_exec cf ev w = Some w'" "l_abort (sh_live (w_shared w))"
  shows "l_abort (sh_live (w_shared w'))"
proof (cases ev)
  case (Act i)
  with assms have "act cf i w = Some w'" by simp
  then show ?thesis by (rule act_cases) (use perform_keeps_abort assms(2) in auto)
qed (use assms in \<open>auto simp: on_conn_def emit_def Let_def split: if_splits list.splits\<close>)

text \<open>Where connection \<open>c\<close> may be, after the abort, when it was at \<open>c0\<close> when the flag was set.\<close>

definition draining :: "conn \<Rightarrow> conn \<Rightarrow> bool" where
  "draining c0 c \<longleftrightarrow>
     (cn_phase c = Firing \<longrightarrow> cn_phase c0 = Firing \<and> r_completed (cn_res c) = r_completed (cn_res c0)) \<and>
     (r_completed (cn_res c) = r_completed (cn_res c0)
      \<or> cn_phase c0 = Firing \<and> r_completed (cn_res c) = r_completed (cn_res c0) + 1)"

lemma fire_completed:
  "r_completed (cn_res (fire httparse a rl d x c)) \<in> {r_completed (cn_res c), r_completed (cn_res c) + 1}"
  by (simp add: fire_def conn_refused_def conn_simps split: prod.split read_result.split)

lemma draining_fire: "draining c0 c \<Longrightarrow> cn_phase c = Firing \<Longrightarrow> draining c0 (fire httparse a rl d x c)"
  using fire_completed [of httparse a rl d x c] fire_phase [of httparse a rl d x c]
  by (auto simp: draining_def)

definition all_draining :: "conn list \<Rightarrow> conn list \<Rightarrow> bool" where
  "all_draining cs0 cs \<longleftrightarrow> length cs = length cs0 \<and> (\<forall>i<length cs0. draining (cs0 ! i) (cs ! i))"

lemma all_draining_update:
  "all_draining cs0 cs \<Longrightarrow> (i < length cs \<Longrightarrow> draining (cs0 ! i) (cs ! i) \<Longrightarrow> draining (cs0 ! i) c) \<Longrightarrow>
   all_draining cs0 (cs[i := c])"
  unfolding all_draining_def by (metis length_list_update nth_list_update_eq nth_list_update_neq)

lemma draining_exec:
  assumes "all_draining cs0 (w_conns w)" "l_abort (sh_live (w_shared w))" "worker_exec cf ev w = Some w'"
  shows "all_draining cs0 (w_conns w')"
proof (cases ev)
  case (Fire i x)
  with assms(3) show ?thesis
    by (auto simp: on_conn_def split: if_splits intro!: all_draining_update [OF assms(1)] draining_fire)
next
  case (Act i)
  with assms(3) have "act cf i w = Some w'" by simp
  then show ?thesis
    by (rule act_cases) (auto intro!: all_draining_update [OF assms(1)] simp: draining_def)
qed (use assms in \<open>auto simp: on_conn_def emit_def Let_def draining_def conn_refused_def conn_started_def loop_top_def
      split: if_splits list.splits intro!: all_draining_update [OF assms(1)]\<close>)

lemma draining_runs:
  "all_draining cs0 (w_conns w) \<Longrightarrow> l_abort (sh_live (w_shared w)) \<Longrightarrow> worker_runs cf es w = Some w' \<Longrightarrow>
   all_draining cs0 (w_conns w') \<and> l_abort (sh_live (w_shared w'))"
  by (induction es arbitrary: w) (auto split: option.splits dest: draining_exec abort_stays)

text \<open>A turn of connection \<open>i\<close> past the check at the top of its loop: waiting for the slot, sending and reading. It is the only
  event in which a connection writes a request.\<close>

fun fires :: "nat \<Rightarrow> worker_event \<Rightarrow> bool" where
  "fires i (Fire j x) = (j = i)"
| "fires i _ = False"

text \<open>After the abort a connection can fire only if it was past the check when the flag was set, and it is not past it again.\<close>

lemma fires_after_abort:
  assumes "l_abort (sh_live (w_shared w))" "worker_exec cf ev w = Some w'" "i < length (w_conns w)"
  shows "(if fires i ev then cn_phase (w_conns w ! i) = Firing \<and> cn_phase (w_conns w' ! i) \<noteq> Firing
          else cn_phase (w_conns w' ! i) = Firing \<longrightarrow> cn_phase (w_conns w ! i) = Firing)
    \<and> length (w_conns w') = length (w_conns w)"
proof (cases ev)
  case (Fire j x)
  with assms show ?thesis
    using fire_phase [of "cf_httparse cf" "from_spec (cf_spec cf)" "rl_config_of (cf_spec cf)" "duration_s (cf_spec cf)" x "w_conns w ! j"]
    by (auto simp: on_conn_def nth_list_update split: if_splits)
next
  case (Act j)
  with assms(2) have "act cf j w = Some w'" by simp
  then show ?thesis by (rule act_cases) (auto simp: Act nth_list_update)
qed (use assms in \<open>auto simp: on_conn_def emit_def Let_def nth_list_update conn_refused_def conn_started_def loop_top_def
      split: if_splits list.splits\<close>)

lemma sends_bounded_after_abort:
  "l_abort (sh_live (w_shared w)) \<Longrightarrow> worker_runs cf es w = Some w' \<Longrightarrow> i < length (w_conns w) \<Longrightarrow>
   length (filter (fires i) es) \<le> (if cn_phase (w_conns w ! i) = Firing then 1 else 0)"
proof (induction es arbitrary: w)
  case (Cons ev es)
  then obtain w1 where w1: "worker_exec cf ev w = Some w1" "worker_runs cf es w1 = Some w'"
    by (auto split: option.splits)
  show ?case
    using Cons.IH [OF abort_stays [OF w1(1) Cons.prems(1)] w1(2)] fires_after_abort [OF Cons.prems(1) w1(1) Cons.prems(3)]
      Cons.prems(3) by (auto split: if_splits)
qed simp

text \<open>C5. Abort and cancellation drain: once the flag is set it stays set. A connection that is then past the check at the top
  of its loop - it waits for its slot, or for its answer - may still send that one request and complete it; every other
  connection sends nothing any more and completes nothing.\<close>

theorem abort_drains:
  assumes "l_abort (sh_live (w_shared w))" "worker_runs cf es w = Some w'" "i < length (w_conns w)"
  shows "l_abort (sh_live (w_shared w')) \<and> length (w_conns w') = length (w_conns w)
    \<and> length (filter (fires i) es) \<le> (if cn_phase (w_conns w ! i) = Firing then 1 else 0)
    \<and> draining (w_conns w ! i) (w_conns w' ! i)"
  using draining_runs [of "w_conns w" w cf es w'] sends_bounded_after_abort [OF assms] assms(1,2,3)
  by (auto simp: all_draining_def draining_def)

theorem abort_drains_witness:
  "\<exists>w w'. worker_runs demo_config [Start 0, Top 0 2, Cancel] (world_init demo_config) = Some w
     \<and> worker_runs demo_config [Fire 0 demo_exchange] w = Some w'
     \<and> map (r_completed \<circ> cn_res) (w_conns w) = [0] \<and> map (r_completed \<circ> cn_res) (w_conns w') = [1]
     \<and> length (filter (fires 0) [Fire 0 demo_exchange]) \<le> (if cn_phase (w_conns w ! 0) = Firing then 1 else 0)
     \<and> draining (w_conns w ! 0) (w_conns w' ! 0)"
proof -
  have "\<exists>w w'. worker_runs demo_config [Start 0, Top 0 2, Cancel] (world_init demo_config) = Some w
     \<and> worker_runs demo_config [Fire 0 demo_exchange] w = Some w' \<and> l_abort (sh_live (w_shared w))
     \<and> length (w_conns w) = 1
     \<and> map (r_completed \<circ> cn_res) (w_conns w) = [0] \<and> map (r_completed \<circ> cn_res) (w_conns w') = [1]"
    by (simp add: demo_eval conn_result_default_def)
  then obtain w w' where w: "worker_runs demo_config [Start 0, Top 0 2, Cancel] (world_init demo_config) = Some w"
    "worker_runs demo_config [Fire 0 demo_exchange] w = Some w'" "l_abort (sh_live (w_shared w))" "length (w_conns w) = 1"
    "map (r_completed \<circ> cn_res) (w_conns w) = [0]" "map (r_completed \<circ> cn_res) (w_conns w') = [1]"
    by (elim exE conjE) (rule that)
  have "0 < length (w_conns w)" by (simp only: w(4))
  note drained = abort_drains [OF w(3,2) this]
  have d: "length (filter (fires 0) [Fire 0 demo_exchange]) \<le> (if cn_phase (w_conns w ! 0) = Firing then 1 else 0)"
    "draining (w_conns w ! 0) (w_conns w' ! 0)"
    by (rule drained [THEN conjunct2, THEN conjunct2, THEN conjunct1], rule drained [THEN conjunct2, THEN conjunct2, THEN conjunct2])
  show ?thesis by (intro exI conjI) (rule w(1), rule w(2), rule w(5), rule w(6), rule d(1), rule d(2))
qed

section \<open>The onset of rate limiting\<close>

text \<open>
  How often each onset action is still to be done. The guard is claimed at most once: a claimed guard is followed by
  one store, pending or done; before the claim every rate-limited response still has its attempt pending.
\<close>

definition stores :: "action list \<Rightarrow> nat" where
  "stores as = length (filter (\<lambda>a. case a of StoreOnset _ \<Rightarrow> True | _ \<Rightarrow> False) as)"

definition claims :: "action list \<Rightarrow> nat" where
  "claims as = length (filter (\<lambda>a. case a of ClaimOnset _ \<Rightarrow> True | _ \<Rightarrow> False) as)"

lemma stores_claims_simps [simp]:
  "stores [] = 0" "claims [] = 0"
  "stores (a # as) = (case a of StoreOnset _ \<Rightarrow> 1 | _ \<Rightarrow> 0) + stores as"
  "claims (a # as) = (case a of ClaimOnset _ \<Rightarrow> 1 | _ \<Rightarrow> 0) + claims as"
  "stores (as @ bs) = stores as + stores bs" "claims (as @ bs) = claims as + claims bs"
  by (simp_all add: stores_def claims_def split: action.split)

lemma policy_no_onset [simp]:
  "stores (fst (rate_limit_policy rl p)) = 0" "claims (fst (rate_limit_policy rl p)) = 0"
  by (simp_all add: rate_limit_policy_def Let_def split: rl_action.split option.split)

lemma fire_onset:
  assumes "cn_todo c = []"
  shows "stores (cn_todo (fire httparse a rl d x c)) = 0"
    and "rl_record_onset rl \<Longrightarrow>
      r_rate_limited (cn_res (fire httparse a rl d x c))
        = r_rate_limited (cn_res c) + of_nat (claims (cn_todo (fire httparse a rl d x c)))"
    and "\<not> rl_record_onset rl \<Longrightarrow> claims (cn_todo (fire httparse a rl d x c)) = 0"
proof -
  have 1: "stores (cn_todo (on_response a rl i s t p buf c)) = 0" for i s t p buf
    using policy_no_onset [of rl p]
    by (cases "rate_limit_policy rl p") (auto simp: on_response_def Let_def)
  have 2: "r_rate_limited (cn_res (on_response a rl i s t p buf c))
        = r_rate_limited (cn_res c) + of_nat (claims (cn_todo (on_response a rl i s t p buf c)))"
    if "rl_record_onset rl" for i s t p buf
    using that policy_no_onset [of rl p] count_verdict_local [of "KVerdict RateLimited"]
    by (cases "rate_limit_policy rl p") (auto simp: on_response_def Let_def split: option.splits)
  have 3: "claims (cn_todo (on_response a rl i s t p buf c)) = 0" if "\<not> rl_record_onset rl" for i s t p buf
    using that policy_no_onset [of rl p]
    by (cases "rate_limit_policy rl p") (auto simp: on_response_def Let_def)
  show "stores (cn_todo (fire httparse a rl d x c)) = 0"
    using assms by (auto simp: fire_def conn_refused_def 1 split: prod.split read_result.split)
  show "r_rate_limited (cn_res (fire httparse a rl d x c))
        = r_rate_limited (cn_res c) + of_nat (claims (cn_todo (fire httparse a rl d x c)))" if "rl_record_onset rl"
    using assms 2 [OF that] by (simp add: fire_def conn_refused_def split: prod.split read_result.split)
  show "claims (cn_todo (fire httparse a rl d x c)) = 0" if "\<not> rl_record_onset rl"
    using assms by (auto simp: fire_def conn_refused_def 3 [OF that] split: prod.split read_result.split)
qed

definition total_over :: "(conn \<Rightarrow> 'a::comm_monoid_add) \<Rightarrow> 'h world \<Rightarrow> 'a" where
  "total_over f w = sum_list (map f (w_conns w))"

lemma total_over_update:
  fixes f :: "'c \<Rightarrow> 'a::comm_monoid_add"
  assumes "i < length cs"
  shows "sum_list (map f (cs[i := c])) + f (cs ! i) = sum_list (map f cs) + f c"
  using assms
proof (induction cs arbitrary: i)
  case (Cons x xs)
  show ?case
  proof (cases i)
    case (Suc j)
    then show ?thesis using Cons.IH [of j] Cons.prems by (simp add: add.assoc add.commute add.left_commute)
  qed (simp add: add.commute add.left_commute)
qed simp

lemma total_over_same:
  assumes "i < length (w_conns w)" "f c = f (w_conns w ! i)"
  shows "total_over f (w\<lparr>w_conns := (w_conns w)[i := c]\<rparr>) = total_over f w"
proof -
  have "map f ((w_conns w)[i := c]) = map f (w_conns w)"
    using assms by (metis list_update_id map_update)
  then show ?thesis by (simp add: total_over_def)
qed

definition onset_inv :: "bool \<Rightarrow> 'h world \<Rightarrow> bool" where
  "onset_inv rec w \<longleftrightarrow>
     (let l = sh_live (w_shared w) in
      total_over (stores \<circ> cn_todo) w + (if l_first_429_rps l = None then 0 else 1) = (if l_first_429_seen l then 1 else 0)
      \<and> (rec \<and> \<not> l_first_429_seen l \<longrightarrow>
           total_over (r_rate_limited \<circ> cn_res) w = of_nat (total_over (claims \<circ> cn_todo) w))
      \<and> (\<not> rec \<longrightarrow> total_over (claims \<circ> cn_todo) w = 0 \<and> \<not> l_first_429_seen l))"

lemma onset_inv_idle:
  assumes "onset_inv rec w" "on_conn w i en f = Some w'"
    and "\<And>c. en c \<Longrightarrow> stores (cn_todo (f c)) = stores (cn_todo c) \<and> claims (cn_todo (f c)) = claims (cn_todo c)
           \<and> r_rate_limited (cn_res (f c)) = r_rate_limited (cn_res c)"
  shows "onset_inv rec w'"
  using assms(2)
  by (rule on_conn_cases) (use assms(1,3) in \<open>simp add: onset_inv_def Let_def total_over_same\<close>)

lemma onset_inv_fire:
  assumes "onset_inv (record_onset spec) w" "i < length (w_conns w)" "cn_todo (w_conns w ! i) = []"
    and "w' = w\<lparr>w_conns := (w_conns w)[i := fire httparse a (rl_config_of spec) d x (w_conns w ! i)]\<rparr>"
  shows "onset_inv (record_onset spec) w'"
proof -
  let ?c = "w_conns w ! i" and ?c' = "fire httparse a (rl_config_of spec) d x (w_conns w ! i)"
  note upd = total_over_update [OF assms(2), where c = ?c']
  have st: "total_over (stores \<circ> cn_todo) w' = total_over (stores \<circ> cn_todo) w"
    using upd [of "stores \<circ> cn_todo"] assms(3,4) fire_onset(1) [OF assms(3)] by (simp add: total_over_def)
  have cl: "total_over (claims \<circ> cn_todo) w' = total_over (claims \<circ> cn_todo) w + claims (cn_todo ?c')"
    using upd [of "claims \<circ> cn_todo"] assms(3,4) by (simp add: total_over_def)
  have rl: "total_over (r_rate_limited \<circ> cn_res) w' + r_rate_limited (cn_res ?c)
      = total_over (r_rate_limited \<circ> cn_res) w + r_rate_limited (cn_res ?c')"
    using upd [of "r_rate_limited \<circ> cn_res"] assms(4) by (simp add: total_over_def)
  have "w_shared w' = w_shared w" by (simp add: assms(4))
  then show ?thesis
    using assms(1) st cl rl fire_onset(2,3) [OF assms(3), of "rl_config_of spec" httparse a d x]
    by (auto simp: onset_inv_def Let_def rl_config_of_def algebra_simps split: if_splits)
qed

lemma first_429_verdict [simp]:
  "l_first_429_rps (live_verdict v l) = l_first_429_rps l" "l_first_429_seen (live_verdict v l) = l_first_429_seen l"
  by (cases v; simp)+

lemma perform_onset:
  assumes "perform L a x sh = (sh', follow)"
  shows "case x of
      ClaimOnset y \<Rightarrow> l_first_429_seen (sh_live sh') \<and> l_first_429_rps (sh_live sh') = l_first_429_rps (sh_live sh)
        \<and> follow = (if l_first_429_seen (sh_live sh) then [] else [StoreOnset y])
    | StoreOnset y \<Rightarrow> l_first_429_seen (sh_live sh') = l_first_429_seen (sh_live sh)
        \<and> l_first_429_rps (sh_live sh') = Some y \<and> follow = []
    | _ \<Rightarrow> l_first_429_seen (sh_live sh') = l_first_429_seen (sh_live sh)
        \<and> l_first_429_rps (sh_live sh') = l_first_429_rps (sh_live sh) \<and> stores follow = 0 \<and> claims follow = 0"
  using assms by (cases x) (auto simp: Let_def split: if_splits)

lemma onset_inv_act:
  assumes inv: "onset_inv rec w" and "act cf i w = Some w'"
  shows "onset_inv rec w' \<and> (\<forall>y. l_first_429_rps (sh_live (w_shared w)) = Some y \<longrightarrow>
           l_first_429_rps (sh_live (w_shared w')) = Some y)"
  using assms(2)
proof (rule act_cases)
  fix x as sh follow
  assume i: "i < length (w_conns w)" and todo: "cn_todo (w_conns w ! i) = x # as"
    and p: "perform (cf_hdr cf) (from_spec (cf_spec cf)) x (w_shared w) = (sh, follow)"
    and w': "w' = w\<lparr>w_shared := sh, w_conns := (w_conns w)[i := (w_conns w ! i)\<lparr>cn_todo := follow @ as\<rparr>]\<rparr>"
  let ?c' = "(w_conns w ! i)\<lparr>cn_todo := follow @ as\<rparr>"
  have st: "total_over (stores \<circ> cn_todo) w' + stores [x] = total_over (stores \<circ> cn_todo) w + stores follow"
    using total_over_update [OF i, of "stores \<circ> cn_todo" ?c'] todo by (simp add: total_over_def w')
  have cl: "total_over (claims \<circ> cn_todo) w' + claims [x] = total_over (claims \<circ> cn_todo) w + claims follow"
    using total_over_update [OF i, of "claims \<circ> cn_todo" ?c'] todo by (simp add: total_over_def w')
  have rl: "total_over (r_rate_limited \<circ> cn_res) w' = total_over (r_rate_limited \<circ> cn_res) w"
    using total_over_update [OF i, of "r_rate_limited \<circ> cn_res" ?c'] by (simp add: total_over_def w')
  have sh: "w_shared w' = sh" by (simp add: w')
  show ?thesis
    using inv st cl rl perform_onset [OF p] unfolding sh onset_inv_def Let_def
    by (cases x; cases "l_first_429_seen (sh_live (w_shared w))"; cases "l_first_429_rps (sh_live (w_shared w))"; simp)
qed

lemma onset_exec:
  assumes "onset_inv (record_onset (cf_spec cf)) w" "worker_exec cf ev w = Some w'"
    and idle: "\<And>c. c \<in> set (w_conns w) \<Longrightarrow> cn_phase c = Firing \<Longrightarrow> cn_todo c = []"
  shows "onset_inv (record_onset (cf_spec cf)) w' \<and>
    (\<forall>y. l_first_429_rps (sh_live (w_shared w)) = Some y \<longrightarrow> l_first_429_rps (sh_live (w_shared w')) = Some y)"
proof -
  have on: ?thesis if "on_conn w i en f = Some w'"
    "\<And>c. en c \<Longrightarrow> stores (cn_todo (f c)) = stores (cn_todo c) \<and> claims (cn_todo (f c)) = claims (cn_todo c)
           \<and> r_rate_limited (cn_res (f c)) = r_rate_limited (cn_res c)" for i en f
    using onset_inv_idle [OF assms(1) that] that(1) by (auto elim: on_conn_cases)
  show ?thesis
  proof (cases ev)
    case (Refuse i)
    show ?thesis by (rule on [OF assms(2) [unfolded Refuse worker_exec.simps]]) (simp add: conn_refused_def)
  next
    case (Start i)
    show ?thesis by (rule on [OF assms(2) [unfolded Start worker_exec.simps]]) (simp add: conn_started_def)
  next
    case (Top i now)
    show ?thesis
      by (rule on [OF assms(2) [unfolded Top worker_exec.simps]]) (simp add: loop_top_def split: prod.split)
  next
    case (Fire i x)
    from assms(2) [unfolded Fire worker_exec.simps] show ?thesis
      by (rule on_conn_cases) (use onset_inv_fire [OF assms(1) _ idle refl] in simp)
  next
    case (Act i)
    show ?thesis by (rule onset_inv_act [OF assms(1) assms(2) [unfolded Act worker_exec.simps]])
  qed (use assms(1,2) in \<open>auto simp: onset_inv_def Let_def total_over_def emit_def split: if_splits list.splits\<close>)
qed

lemma onset_reachable:
  assumes "reachable cf n w"
  shows "onset_inv (record_onset (cf_spec cf)) w"
  using assms
proof induction
  case start
  show ?case
    by (simp add: onset_inv_def total_over_def world_init_def live_default_def comp_def conn_init_def
        conn_result_default_def sum_list_triv del: upt_Suc)
next
  case (event n w ev w')
  have "cn_todo c = []" if "c \<in> set (w_conns w)" "cn_phase c = Firing" for c
    using todo_only_at_top [OF event.hyps(1) that(1)] that(2) by simp
  with event show ?case using onset_exec by blast
qed

lemma onset_stable:
  assumes "reachable cf n w" "l_first_429_rps (sh_live (w_shared w)) = Some y" "worker_runs cf es w = Some w'"
  shows "l_first_429_rps (sh_live (w_shared w')) = Some y"
  using assms
proof (induction es arbitrary: n w)
  case (Cons ev es)
  then obtain w1 where w1: "worker_exec cf ev w = Some w1" "worker_runs cf es w1 = Some w'"
    by (auto split: option.splits)
  have idle: "cn_todo c = []" if "c \<in> set (w_conns w)" "cn_phase c = Firing" for c
    using todo_only_at_top [OF Cons.prems(1) that(1)] that(2) by simp
  have "l_first_429_rps (sh_live (w_shared w1)) = Some y"
    using onset_exec [OF onset_reachable [OF Cons.prems(1)] w1(1) idle] Cons.prems(2) by blast
  then show ?case by (rule Cons.IH [OF reachable.event [OF Cons.prems(1) w1(1)] _ w1(2)])
qed simp

text \<open>The onset is measured once: after the first value is stored, no later event of any task changes it.\<close>

lemma onset_is_final:
  assumes "reachable cf n w" "load_first_429_rps (sh_live (w_shared w)) = Some rps"
    and "worker_runs cf es w = Some w'"
  shows "load_first_429_rps (sh_live (w_shared w')) = Some rps"
  using onset_stable [OF assms(1) _ assms(3)] assms(2) by (simp add: load_first_429_rps_def)

text \<open>A finished run that reports rate-limited responses reports their onset when it was asked to record it, and never
  reports one otherwise.\<close>

lemma onset_is_reported:
  assumes "reachable cf n w" "all_joined w" "mset joined = mset (map cn_res (w_conns w))"
  shows "let rep = make_report cf joined ns w in
      (record_onset (cf_spec cf) \<and> r_rate_limited (rp_totals rep) \<noteq> 0 \<longrightarrow> rp_first_429_rps rep \<noteq> None)
    \<and> (\<not> record_onset (cf_spec cf) \<longrightarrow> rp_first_429_rps rep = None)"
proof -
  have none: "total_over (stores \<circ> cn_todo) w = 0" "total_over (claims \<circ> cn_todo) w = 0"
    using assms(2) by (auto simp: total_over_def all_joined_def)
  have "r_rate_limited (join_totals joined) = total_over (r_rate_limited \<circ> cn_res) w"
    using join_totals_local [OF assms(3), of "KVerdict RateLimited"] by (simp add: total_over_def comp_def)
  then show ?thesis
    using onset_reachable [OF assms(1)] none
    by (auto simp: make_report_def Let_def onset_inv_def load_first_429_rps_def split: if_splits)
qed

text \<open>The same run against a target that answers 429.\<close>

definition limited_config :: "nat list config" where
  "limited_config = demo_config\<lparr>cf_httparse := one_head_parser ''HEAD'' (Some 429) []\<rparr>"

definition limited_events :: "worker_event list" where
  "limited_events = [Start 0, Top 0 2, Fire 0 demo_exchange, Act 0, Act 0, Act 0, Act 0, Act 0]"

lemma limited_read:
  "read_one_response (one_head_parser ''HEAD'' (Some 429) []) [] [Chunk ''HEAD'']
     = (ReadOk (response_of ''HEAD'' (Some 429) []), ''HEAD'', [])"
  by (simp add: read_one_response.simps [of _ "[]"] read_one_response.simps [of _ "''HEAD''"]
      parse_outcome_of_def one_head_parser_def starts_with_iff READ_BUF_BYTES_def scan_headers_def response_of_def)

lemma limited_answered:
  "\<exists>w. worker_runs limited_config limited_events (world_init limited_config) = Some w
     \<and> l_first_429_rps (sh_live (w_shared w)) = Some (f64_lit 300)
     \<and> map cn_phase (w_conns w) = [AtTop] \<and> map cn_todo (w_conns w) = [[]]
     \<and> map (r_rate_limited \<circ> cn_res) (w_conns w) = [1]"
  by (simp add: limited_config_def limited_events_def limited_read demo_eval conn_result_default_def rl_config_of_def
      offered_rps_at_def rate_limit_policy_def)

lemma limited_finished:
  obtains w w' where "worker_runs limited_config limited_events (world_init limited_config) = Some w"
    "worker_runs limited_config [Cancel, Top 0 1000] w = Some w'" "all_joined w'"
    "l_first_429_rps (sh_live (w_shared w)) = Some (f64_lit 300)"
    "map (r_rate_limited \<circ> cn_res) (w_conns w') = [1]"
proof -
  obtain w where w: "worker_runs limited_config limited_events (world_init limited_config) = Some w"
    "l_first_429_rps (sh_live (w_shared w)) = Some (f64_lit 300)"
    "map cn_phase (w_conns w) = [AtTop]" "map cn_todo (w_conns w) = [[]]" "map (r_rate_limited \<circ> cn_res) (w_conns w) = [1]"
    using limited_answered by (elim exE conjE) (rule that)
  have can: "cf_cancellable limited_config" by (simp add: limited_config_def demo_config_def)
  obtain w' where w': "worker_runs limited_config [Cancel, Top 0 1000] w = Some w'" "all_joined w'"
    "map cn_res (w_conns w') = map cn_res (w_conns w)"
    using demo_drained [OF w(3,4) can] by (elim exE conjE) (rule that)
  have "map (r_rate_limited \<circ> cn_res) (w_conns w') = [1]" using w'(3) w(5) by (metis map_map)
  with w w' show thesis by (intro that)
qed

lemma limited_reachable:
  "worker_runs limited_config es (world_init limited_config) = Some w \<Longrightarrow> reachable limited_config (length es) w"
  using runs_reachable [OF reachable.start] by fastforce

end
