(* ===== verification/Worker_Node.thy ===== *)
theory Worker_Node
  imports Hash_Map Proto Worker_Run
begin

text \<open>
  The worker's side of the gRPC service, \<open>engine/src/worker_node.rs\<close>: an assignment becomes a \<open>RunSpec\<close>, the ticks of the
  engine become the event stream of \<open>RunSlice\<close>, and a map of cancellation tokens connects \<open>Abort\<close> to the running engine.
  \<open>http::Uri::try_from\<close> is an argument. A token is a number; \<open>wn_cancelled\<close> lists the cancelled ones.
\<close>

section \<open>From an assignment to a run specification\<close>

datatype spec_error = TargetRequired | BadTargetUrl

fun method_name :: "http_method \<Rightarrow> string" where
  "method_name Get = ''GET''"
| "method_name Post = ''POST''"
| "method_name Put = ''PUT''"
| "method_name Patch = ''PATCH''"
| "method_name Delete = ''DELETE''"
| "method_name Head = ''HEAD''"

definition http_method_from_proto :: "i32 \<Rightarrow> string" where
  "http_method_from_proto m =
     method_name (case http_method_try_from m of Some x \<Rightarrow> x | None \<Rightarrow> Get)"

text \<open>\<open>i32::max\<close>, and \<open>as\<close> from \<open>i32\<close> to a 64-bit unsigned integer: the sign is extended.\<close>

definition i32_max :: "i32 \<Rightarrow> i32 \<Rightarrow> i32" where
  "i32_max a b = (if sint a \<le> sint b then b else a)"

definition i32_as_u64 :: "i32 \<Rightarrow> u64" where
  "i32_as_u64 v = scast v"

fun rl_action_of :: "rate_limit_action_enum \<Rightarrow> rl_action" where
  "rl_action_of RlContinue = Continue"
| "rl_action_of RlBackoff = Backoff"
| "rl_action_of RlAbort = Abort"

definition rate_limit_of :: "rate_limit_policy_msg option \<Rightarrow> rl_action \<times> u64 \<times> bool" where
  "rate_limit_of policy =
     (case policy of
        Some p \<Rightarrow>
          (rl_action_of (case rate_limit_action_try_from (rlp_action p) of Some a \<Rightarrow> a | None \<Rightarrow> RlBackoff),
           if 0 < sint (rlp_max_backoff_ms p) then i32_as_u64 (rlp_max_backoff_ms p) else 5000,
           rlp_record_onset p)
      | None \<Rightarrow> (Backoff, 5000, True))"

definition build_run_spec :: "(string \<Rightarrow> uri option) \<Rightarrow> assignment \<Rightarrow> spec_error + run_spec" where
  "build_run_spec parse_uri a =
     (case asg_target a of
        None \<Rightarrow> Inl TargetRequired
      | Some t \<Rightarrow>
          (case parse_uri (tgt_url t) of
             None \<Rightarrow> Inl BadTargetUrl
           | Some u \<Rightarrow>
               (let timeout = (if 0 < sint (tgt_timeout_ms t) then unat (i32_as_u64 (tgt_timeout_ms t)) * 1000 else 30000000);
                    (statuses, max_latency, min_body, max_body, ctype) =
                      (case asg_assert a of
                         Some s \<Rightarrow> (map ucast (asrt_expected_status s), asrt_max_latency_us s,
                                    map_option i32_as_u64 (asrt_min_body_bytes s),
                                    map_option i32_as_u64 (asrt_max_body_bytes s), asrt_content_type s)
                       | None \<Rightarrow> ([], None, None, None, None));
                    (action, backoff, onset) = rate_limit_of (asg_rate_limit_policy a)
                in Inr
                  \<lparr> url = u, method_str = http_method_from_proto (tgt_method t), target_rps = asg_throughput a,
                    duration_s = i32_as_u64 (i32_max (asg_duration_s a) 0), keepalive = asg_keepalive a,
                    connections = i32_as_u64 (i32_max (asg_connections a) 1), timeout_us = timeout,
                    expected_status = statuses, max_latency_us = max_latency, min_body_bytes = min_body,
                    max_body_bytes = max_body, content_type = ctype, ramp = False, sample_every_n = 0,
                    max_sampled_body_bytes = 0, rate_limit_action = action, max_backoff_ms = backoff,
                    record_onset = onset \<rparr>)))"

section \<open>The event stream\<close>

definition rps_bucket_of :: "bucket \<Rightarrow> rps_bucket" where
  "rps_bucket_of b =
     \<lparr> rb_rps_lo = bk_rps_lo b, rb_rps_hi = bk_rps_hi b, rb_total = bk_total b, rb_pass = bk_pass b,
       rb_fail_transport = 0, rb_fail_status = bk_fail_status b, rb_fail_latency = bk_fail_latency b,
       rb_fail_size = bk_fail_size b, rb_fail_content_type = bk_fail_content_type b,
       rb_rate_limited = bk_rate_limited b, rb_timeout = 0 \<rparr>"

definition partial_from_tick :: "string \<Rightarrow> u64 \<Rightarrow> bool \<Rightarrow> tick \<Rightarrow> partial" where
  "partial_from_tick worker_id tick_n is_final t =
     \<lparr> pt_worker_id = worker_id, pt_tick = tick_n, pt_final = is_final,
       pt_corrected_hist = tk_corrected_hist_v2 t, pt_uncorrected_hist = tk_uncorrected_hist_v2 t,
       pt_ttfb_hist = [], pt_this_tick_corrected = [], pt_buckets = map rps_bucket_of (tk_buckets t),
       pt_offered_rps = tk_achieved_rps_1s t, pt_achieved_rps = tk_achieved_rps_1s t, pt_sched_slip_us = 0,
       pt_client_saturated = False, pt_in_flight = 0, pt_conn_errors = 0, pt_timeouts = 0,
       pt_rate_limit = Some
         \<lparr> rls_count_this_tick = tt_rate_limited (tk_this_tick t), rls_first_429_rps = tk_rate_limit_onset_rps t,
           rls_last_retry_after_ms = tk_last_retry_after_ms t, rls_backoff_us_total = tk_backoff_us_total t \<rparr>,
       pt_bytes_sent = 0, pt_bytes_recv = 0, pt_sampled = [] \<rparr>"

definition empty_final_partial :: "string \<Rightarrow> u64 \<Rightarrow> partial" where
  "empty_final_partial worker_id tick_n =
     \<lparr> pt_worker_id = worker_id, pt_tick = tick_n, pt_final = True,
       pt_corrected_hist = [], pt_uncorrected_hist = [], pt_ttfb_hist = [], pt_this_tick_corrected = [],
       pt_buckets = [], pt_offered_rps = f64_lit 0, pt_achieved_rps = f64_lit 0, pt_sched_slip_us = 0,
       pt_client_saturated = False, pt_in_flight = 0, pt_conn_errors = 0, pt_timeouts = 0,
       pt_rate_limit = None, pt_bytes_sent = 0, pt_bytes_recv = 0, pt_sampled = [] \<rparr>"

fun tick_events :: "string \<Rightarrow> u64 \<Rightarrow> tick list \<Rightarrow> worker_event_msg list" where
  "tick_events worker_id tick_n [] = [Some (KPartial (empty_final_partial worker_id (tick_n + 1)))]"
| "tick_events worker_id tick_n (t # ts) =
     Some (KPartial (partial_from_tick worker_id (tick_n + 1) False t)) # tick_events worker_id (tick_n + 1) ts"

text \<open>The whole stream, for an engine that sends the given ticks before it ends, with or without an error.\<close>

definition slice_events :: "string \<Rightarrow> i64 \<Rightarrow> i64 \<Rightarrow> tick list \<Rightarrow> worker_event_msg list" where
  "slice_events worker_id start_us epoch_us ticks =
     Some (KStarted start_us (start_us - epoch_us)) # tick_events worker_id 0 ticks"

section \<open>The service\<close>

record worker_node =
  wn_worker_id :: string
  wn_tokens :: "(string \<times> nat) list"
  wn_cancelled :: "nat list"
  wn_next :: nat

datatype grpc_status = Unimplemented string | InvalidArgument spec_error

definition node_new :: "string \<Rightarrow> worker_node" where
  "node_new worker_id = \<lparr> wn_worker_id = worker_id, wn_tokens = [], wn_cancelled = [], wn_next = 0 \<rparr>"

definition node_register :: "worker_info \<Rightarrow> grpc_status + register_ack" where
  "node_register info = Inl (Unimplemented ''Register lives on the coordinator'')"

definition node_heartbeat :: "grpc_status + unit" where
  "node_heartbeat = Inl (Unimplemented ''Heartbeat lives on the coordinator'')"

text \<open>
  \<open>run_slice\<close> up to the start of the engine: on success, the specification and the token handed to the engine. When the
  stream has ended, \<open>run_slice_end\<close> removes the run.
\<close>

definition run_slice_begin ::
  "(string \<Rightarrow> uri option) \<Rightarrow> assignment \<Rightarrow> worker_node \<Rightarrow> (grpc_status + run_spec \<times> nat) \<times> worker_node" where
  "run_slice_begin parse_uri a n =
     (case build_run_spec parse_uri a of
        Inl e \<Rightarrow> (Inl (InvalidArgument e), n)
      | Inr spec \<Rightarrow>
          (Inr (spec, wn_next n),
           n\<lparr>wn_tokens := hm_insert (asg_run_id a) (wn_next n) (wn_tokens n), wn_next := wn_next n + 1\<rparr>))"

definition run_slice_end :: "string \<Rightarrow> worker_node \<Rightarrow> worker_node" where
  "run_slice_end run_id n = n\<lparr>wn_tokens := hm_remove run_id (wn_tokens n)\<rparr>"

definition node_abort :: "abort_request \<Rightarrow> worker_node \<Rightarrow> abort_ack \<times> worker_node" where
  "node_abort r n =
     (\<lparr> aa_accepted = True \<rparr>,
      case hm_get (wn_tokens n) (ar_run_id r) of
        Some t \<Rightarrow> n\<lparr>wn_cancelled := t # wn_cancelled n\<rparr>
      | None \<Rightarrow> n)"

section \<open>Abort reaches the run it names\<close>

datatype node_op = SliceBegin assignment | SliceEnd string | AbortOp abort_request

definition node_step :: "(string \<Rightarrow> uri option) \<Rightarrow> node_op \<Rightarrow> worker_node \<Rightarrow> worker_node" where
  "node_step parse_uri op n =
     (case op of
        SliceBegin a \<Rightarrow> snd (run_slice_begin parse_uri a n)
      | SliceEnd r \<Rightarrow> run_slice_end r n
      | AbortOp r \<Rightarrow> snd (node_abort r n))"

definition node_inv :: "worker_node \<Rightarrow> bool" where
  "node_inv n \<longleftrightarrow> hm_wf (wn_tokens n) \<and> (\<forall>t\<in>set (wn_cancelled n). t < wn_next n)
     \<and> (\<forall>r t. hm_get (wn_tokens n) r = Some t \<longrightarrow> t < wn_next n)
     \<and> (\<forall>r r' t. hm_get (wn_tokens n) r = Some t \<longrightarrow> hm_get (wn_tokens n) r' = Some t \<longrightarrow> r = r')"

lemma node_inv_new: "node_inv (node_new w)"
  by (simp add: node_inv_def node_new_def hm.inv_empty hm.get_empty)

lemma node_invD:
  assumes "node_inv n"
  shows "hm_wf (wn_tokens n)" "t \<in> set (wn_cancelled n) \<Longrightarrow> t < wn_next n"
    and "hm_get (wn_tokens n) r = Some t \<Longrightarrow> t < wn_next n"
    and "hm_get (wn_tokens n) r = Some t \<Longrightarrow> hm_get (wn_tokens n) r' = Some t \<Longrightarrow> r = r'"
  using assms by (auto simp: node_inv_def)

lemma begin_tokens:
  assumes "node_inv n" "run_slice_begin parse_uri a n = (Inr (spec, t), n')"
  shows "t = wn_next n" "wn_next n' = Suc t" "wn_cancelled n' = wn_cancelled n"
    and "hm_get (wn_tokens n') = (hm_get (wn_tokens n))(asg_run_id a \<mapsto> t)" "hm_wf (wn_tokens n')"
  using assms(2) node_invD(1) [OF assms(1)]
  by (auto simp: run_slice_begin_def hm.get_insert hm.inv_insert split: sum.splits)

lemma node_inv_begin: "node_inv n \<Longrightarrow> node_inv (snd (run_slice_begin parse_uri a n))"
proof (cases "build_run_spec parse_uri a")
  case (Inr spec)
  assume inv: "node_inv n"
  obtain n' where n': "run_slice_begin parse_uri a n = (Inr (spec, wn_next n), n')"
    by (simp add: run_slice_begin_def Inr)
  note new = begin_tokens [OF inv n']
  have old: "hm_get (wn_tokens n) r \<noteq> Some (wn_next n)" for r
    using node_invD(3) [OF inv, of r "wn_next n"] by auto
  have "t < wn_next n'" if "hm_get (wn_tokens n') r = Some t" for r t
    using that node_invD(3) [OF inv, of r t] by (auto simp: new(2,4) split: if_splits)
  moreover have "r = r'" if "hm_get (wn_tokens n') r = Some t" "hm_get (wn_tokens n') r' = Some t" for r r' t
    using that old node_invD(4) [OF inv, of r t r'] by (auto simp: new(4) split: if_splits)
  moreover have "t < wn_next n'" if "t \<in> set (wn_cancelled n')" for t
    using that node_invD(2) [OF inv, of t] by (simp add: new(2,3))
  ultimately have "node_inv n'" using new(5) by (simp add: node_inv_def)
  then show ?thesis by (simp add: n')
qed (simp add: run_slice_begin_def)

lemma node_inv_end: "node_inv n \<Longrightarrow> node_inv (run_slice_end r n)"
  by (auto simp: node_inv_def run_slice_end_def hm.inv_remove hm.get_remove split: if_splits)

lemma node_inv_abort: "node_inv n \<Longrightarrow> node_inv (snd (node_abort r n))"
  by (auto simp: node_inv_def node_abort_def split: option.split)

lemma node_inv_step: "node_inv n \<Longrightarrow> node_inv (node_step parse_uri op n)"
  by (simp add: node_step_def node_inv_begin node_inv_end node_inv_abort split: node_op.split)

text \<open>The operations of other runs: those that neither start nor end run \<open>r\<close>, nor abort it.\<close>

fun concerns :: "string \<Rightarrow> node_op \<Rightarrow> bool" where
  "concerns r (SliceBegin a) \<longleftrightarrow> asg_run_id a = r"
| "concerns r (SliceEnd r') \<longleftrightarrow> r' = r"
| "concerns r (AbortOp q) \<longleftrightarrow> ar_run_id q = r"

lemma other_runs_keep:
  assumes "node_inv n" "hm_get (wn_tokens n) r = Some t" "t \<notin> set (wn_cancelled n)" "\<not> concerns r op"
  shows "hm_get (wn_tokens (node_step parse_uri op n)) r = Some t \<and> t \<notin> set (wn_cancelled (node_step parse_uri op n))"
proof (cases op)
  case (SliceBegin a)
  show ?thesis
  proof (cases "run_slice_begin parse_uri a n")
    case (Pair out n')
    show ?thesis
    proof (cases out)
      case (Inl e)
      then show ?thesis using Pair SliceBegin assms
        by (auto simp: node_step_def run_slice_begin_def split: sum.splits)
    next
      case (Inr st)
      obtain s u where "run_slice_begin parse_uri a n = (Inr (s, u), n')" using Pair Inr by (cases st) simp
      then show ?thesis using begin_tokens [OF assms(1), of parse_uri a s u n'] SliceBegin assms
        by (simp add: node_step_def)
    qed
  qed
next
  case (SliceEnd r')
  then show ?thesis using assms node_invD(1) [OF assms(1)]
    by (simp add: node_step_def run_slice_end_def hm.get_remove)
next
  case (AbortOp q)
  have "hm_get (wn_tokens n) (ar_run_id q) \<noteq> Some t"
    using node_invD(4) [OF assms(1,2), of "ar_run_id q"] assms(4) AbortOp by auto
  then show ?thesis using AbortOp assms
    by (auto simp: node_step_def node_abort_def split: option.split)
qed

lemma other_runs_keep_all:
  "node_inv n \<Longrightarrow> hm_get (wn_tokens n) r = Some t \<Longrightarrow> t \<notin> set (wn_cancelled n) \<Longrightarrow>
   \<forall>op\<in>set ops. \<not> concerns r op \<Longrightarrow>
   hm_get (wn_tokens (fold (node_step parse_uri) ops n)) r = Some t
   \<and> t \<notin> set (wn_cancelled (fold (node_step parse_uri) ops n))"
proof (induction ops arbitrary: n)
  case (Cons op ops)
  then have "hm_get (wn_tokens (node_step parse_uri op n)) r = Some t \<and> t \<notin> set (wn_cancelled (node_step parse_uri op n))"
    by (intro other_runs_keep) auto
  with Cons show ?case by (simp add: node_inv_step)
qed simp

text \<open>Abort stops the run it names and no other: from the moment a slice is accepted, whatever other runs start, end or
  are aborted on the same worker, its engine's token stays live; an abort request for the run then cancels exactly that
  token.\<close>

lemma abort_hits_its_run:
  assumes "node_inv n" "run_slice_begin parse_uri a n = (Inr (spec, t), n1)"
    and "\<forall>op\<in>set ops. \<not> concerns (asg_run_id a) op" "ar_run_id q = asg_run_id a"
  shows "let n2 = fold (node_step parse_uri) ops n1; n3 = snd (node_abort q n2) in
      t \<notin> set (wn_cancelled n2) \<and> wn_cancelled n3 = t # wn_cancelled n2 \<and> aa_accepted (fst (node_abort q n2))"
proof -
  note new = begin_tokens [OF assms(1,2)]
  have "node_inv n1" using node_inv_begin [OF assms(1), of parse_uri a] assms(2) by simp
  moreover have "hm_get (wn_tokens n1) (asg_run_id a) = Some t" by (simp add: new(4))
  moreover have "t \<notin> set (wn_cancelled n1)" using node_invD(2) [OF assms(1), of t] by (auto simp: new(1,3))
  ultimately have n1: "hm_get (wn_tokens n1) (asg_run_id a) = Some t" "t \<notin> set (wn_cancelled n1)" "node_inv n1"
    by auto
  from other_runs_keep_all [OF n1(3,1,2) assms(3)] show ?thesis
    by (simp add: Let_def node_abort_def assms(4))
qed

definition demo_assignment :: "string \<Rightarrow> assignment" where
  "demo_assignment run_id =
     \<lparr> asg_run_id = run_id, asg_worker_id = ''w1'', asg_contract_version = ''1.0.0'',
       asg_target = Some \<lparr> tgt_url = ''http://svc/'', tgt_method = 0, tgt_headers = [], tgt_body = [], tgt_timeout_ms = 0,
                           tgt_verify_tls = True \<rparr>,
       asg_throughput = Fin 10, asg_catch_up = Fin 20, asg_load_model = 0, asg_connections = 1, asg_keepalive = True,
       asg_epoch_unix_us = 0, asg_duration_s = 1, asg_warmup_s = 0, asg_assert = None, asg_rate_limit_policy = None \<rparr>"

definition demo_parse :: "string \<Rightarrow> uri option" where
  "demo_parse s = Some \<lparr> uri_host = Some ''svc'', uri_port_u16 = None, uri_scheme_str = Some ''http'',
                         uri_path_and_query = Some ''/'' \<rparr>"

text \<open>A second run starts and ends, and is aborted, while the first one is in progress.\<close>

text \<open>
  The map is keyed by the run alone: a second slice of the same run replaces the token of the first, which no abort can
  reach any more.
\<close>

lemma second_slice_shadows_first:
  assumes "node_inv n" "run_slice_begin parse_uri a n = (Inr (s1, t1), n1)"
    and "run_slice_begin parse_uri b n1 = (Inr (s2, t2), n2)" "asg_run_id b = asg_run_id a" "ar_run_id q = asg_run_id a"
  shows "t1 \<notin> set (wn_cancelled (snd (node_abort q n2)))"
proof -
  have inv1: "node_inv n1" using node_inv_begin [OF assms(1), of parse_uri a] assms(2) by simp
  note first = begin_tokens [OF assms(1,2)] and second = begin_tokens [OF inv1 assms(3)]
  have "hm_get (wn_tokens n2) (ar_run_id q) = Some t2" by (simp add: second(4) assms(4,5))
  then have "wn_cancelled (snd (node_abort q n2)) = t2 # wn_cancelled n" by (simp add: node_abort_def second(3) first(3))
  moreover have "t1 \<notin> set (wn_cancelled n)" "t2 \<noteq> t1"
    using node_invD(2) [OF assms(1), of t1] first(1,2) second(1) by auto
  ultimately show ?thesis by simp
qed

end
