(* ===== verification/Worker_Ticks.thy ===== *)
theory Worker_Ticks
  imports Worker_Run
begin

text \<open>
  What the ticks of a run say, for the state machine of \<open>Worker_Run\<close>: they are numbered without gaps, the per-second counts
  add up to the running totals, and the bucket of a tick contains its rate. The counters are 64 bits wide and a run counts
  at most one per event, so the theorems are about runs of fewer than \<open>2 ^ 63\<close> events.
\<close>

section \<open>Counters by name\<close>

text \<open>\<open>None\<close> is the number of completed responses, \<open>Some v\<close> the number with verdict \<open>v\<close>.\<close>

fun tick_count :: "verdict option \<Rightarrow> this_tick \<Rightarrow> u64" where
  "tick_count None t = tt_total t"
| "tick_count (Some Pass) t = tt_pass t"
| "tick_count (Some FailStatus) t = tt_fail_status t"
| "tick_count (Some FailLatency) t = tt_fail_latency t"
| "tick_count (Some FailSize) t = tt_fail_size t"
| "tick_count (Some FailContentType) t = tt_fail_content_type t"
| "tick_count (Some RateLimited) t = tt_rate_limited t"

fun live_count :: "verdict option \<Rightarrow> live_counters \<Rightarrow> u64" where
  "live_count None l = l_completed l"
| "live_count (Some Pass) l = l_pass l"
| "live_count (Some FailStatus) l = l_fail_status l"
| "live_count (Some FailLatency) l = l_fail_latency l"
| "live_count (Some FailSize) l = l_fail_size l"
| "live_count (Some FailContentType) l = l_fail_content_type l"
| "live_count (Some RateLimited) l = l_rate_limited l"

lemma tick_count_delta: "tick_count k (tick_delta now prev) = saturating_sub (tick_count k now) (tick_count k prev)"
  by (cases "(k, now)" rule: tick_count.cases) (simp_all add: tick_delta_def)

lemma tick_count_zero: "tick_count k zero_tick = 0"
  by (cases "(k, zero_tick)" rule: tick_count.cases) (simp_all add: zero_tick_def)

lemma live_count_default: "live_count k live_default = 0"
  by (cases "(k, live_default)" rule: live_count.cases) (simp_all add: live_default_def)

lemma live_count_verdict:
  "live_count k (live_verdict v l) = live_count k l + (if k = Some v then 1 else 0)"
  by (cases v; cases "(k, l)" rule: live_count.cases; simp)

lemma live_count_frame [simp]:
  "live_count k (l\<lparr>l_abort := b\<rparr>) = live_count k l"
  "live_count k (l\<lparr>l_sample_seq := n\<rparr>) = live_count k l"
  "live_count k (l\<lparr>l_first_429_seen := b\<rparr>) = live_count k l"
  "live_count k (l\<lparr>l_first_429_rps := x\<rparr>) = live_count k l"
  "live_count k (l\<lparr>l_last_retry_after_ms := ms\<rparr>) = live_count k l"
  "live_count k (l\<lparr>l_backoff_us_total := us\<rparr>) = live_count k l"
  "live_count k (l\<lparr>l_completed := n\<rparr>) = (if k = None then n else live_count k l)"
  by (cases "(k, l)" rule: live_count.cases; simp)+

text \<open>An operation adds at most one to a counter.\<close>

lemma perform_live_count:
  assumes "perform L a x sh = (sh', follow)"
  shows "live_count k (sh_live sh') \<in> {live_count k (sh_live sh), live_count k (sh_live sh) + 1}"
  using assms by (cases x) (auto simp: live_count_verdict Let_def split: if_splits)

lemma do_load_count:
  "tick_count k (rd_counts (do_load L ld sh r)) \<in> {tick_count k (rd_counts r), live_count k (sh_live sh)}"
proof (cases ld)
  case LdCompleted
  then show ?thesis by (cases "(k, rd_counts r)" rule: tick_count.cases) auto
next
  case (LdVerdict v)
  then show ?thesis by (cases v; cases "(k, rd_counts r)" rule: tick_count.cases) auto
qed auto

section \<open>The invariant of the emitter\<close>

definition cumulative :: "verdict option \<Rightarrow> tick list \<Rightarrow> nat" where
  "cumulative k ts = sum_list (map (\<lambda>t. unat (tick_count k (tk_this_tick t))) ts)"

lemma cumulative_simps [simp]:
  "cumulative k [] = 0" "cumulative k (ts @ [t]) = cumulative k ts + unat (tick_count k (tk_this_tick t))"
  by (simp_all add: cumulative_def)

text \<open>One tick in its place: its number, and its running totals as sums over the ticks so far.\<close>

definition tick_in_place :: "tick list \<Rightarrow> tick \<Rightarrow> bool" where
  "tick_in_place sofar t \<longleftrightarrow>
     unat (tk_elapsed_s t) = length sofar
   \<and> unat (tk_completed_total t) = cumulative None sofar
   \<and> unat (tk_pass_total t) = cumulative (Some Pass) sofar
   \<and> unat (tk_fail_status_total t) = cumulative (Some FailStatus) sofar
   \<and> unat (tk_rate_limited_total t) = cumulative (Some RateLimited) sofar"

definition ticks_in_place :: "tick list \<Rightarrow> bool" where
  "ticks_in_place ts \<longleftrightarrow> (\<forall>i<length ts. tick_in_place (take (Suc i) ts) (ts ! i))"

lemma ticks_in_place_snoc:
  "ticks_in_place ts \<Longrightarrow> tick_in_place (ts @ [t]) t \<Longrightarrow> ticks_in_place (ts @ [t])"
  by (auto simp: ticks_in_place_def nth_append less_Suc_eq)

definition emitter_counts :: "nat \<Rightarrow> live_counters \<Rightarrow> emitter \<Rightarrow> verdict option \<Rightarrow> bool" where
  "emitter_counts n l e k \<longleftrightarrow>
     unat (live_count k l) \<le> n
   \<and> unat (tick_count k (em_prev e)) \<le> unat (tick_count k (rd_counts (em_reads e)))
   \<and> unat (tick_count k (rd_counts (em_reads e))) \<le> unat (live_count k l)"

definition ticks_inv :: "u64 \<Rightarrow> nat \<Rightarrow> 'h world \<Rightarrow> bool" where
  "ticks_inv duration n w \<longleftrightarrow>
     (let e = w_emitter w; ts = w_ticks w in
        (\<forall>k. emitter_counts n (sh_live (w_shared w)) e k)
      \<and> ticks_in_place ts \<and> length ts \<le> n \<and> length ts \<le> unat duration
      \<and> (\<forall>k. cumulative k ts \<le> unat (tick_count k (em_prev e)))
      \<and> (em_phase e \<noteq> Ended \<longrightarrow>
           unat (em_next e) = Suc (length ts) \<and> (\<forall>k. cumulative k ts = unat (tick_count k (em_prev e))))
      \<and> (em_phase e = Awake \<longrightarrow> em_next e \<le> duration)
      \<and> (em_loads e \<noteq> [] \<longrightarrow> em_phase e = Awake))"

lemma ticks_inv_init: "ticks_inv d 0 (world_init cf)"
  by (simp add: ticks_inv_def Let_def world_init_def emitter_init_def emitter_counts_def tick_count_zero
      live_count_default ticks_in_place_def)

lemma ticks_inv_live:
  assumes "ticks_inv d n w" "w_emitter w' = w_emitter w" "w_ticks w' = w_ticks w"
    and "\<And>k. unat (live_count k (sh_live (w_shared w))) \<le> unat (live_count k (sh_live (w_shared w')))"
    and "\<And>k. unat (live_count k (sh_live (w_shared w'))) \<le> Suc n"
  shows "ticks_inv d (Suc n) w'"
  using assms(1) order.trans [OF _ assms(4)] assms(5)
  by (simp add: ticks_inv_def Let_def emitter_counts_def assms(2,3) le_SucI)

lemma ticks_inv_act:
  assumes inv: "ticks_inv d n w" and n: "n < 2 ^ 63" and "act cf i w = Some w'"
  shows "ticks_inv d (Suc n) w'"
  using assms(3)
proof (rule act_cases)
  fix x as sh follow
  assume p: "perform (cf_hdr cf) (from_spec (cf_spec cf)) x (w_shared w) = (sh, follow)"
    and w': "w' = w\<lparr>w_shared := sh, w_conns := (w_conns w)[i := (w_conns w ! i)\<lparr>cn_todo := follow @ as\<rparr>]\<rparr>"
  have bound: "unat (live_count k (sh_live (w_shared w))) \<le> n" for k
    using inv by (simp add: ticks_inv_def Let_def emitter_counts_def)
  then have "unat (live_count k (sh_live (w_shared w)) + 1) = Suc (unat (live_count k (sh_live (w_shared w))))" for k
    using order.strict_trans1 [OF bound [of k] n] by (simp add: unat_word_ariths)
  then have step: "unat (live_count k (sh_live sh)) = unat (live_count k (sh_live (w_shared w)))
      \<or> unat (live_count k (sh_live sh)) = Suc (unat (live_count k (sh_live (w_shared w))))" for k
    using perform_live_count [OF p, of k] by auto
  show ?thesis
  proof (rule ticks_inv_live [OF inv])
    fix k
    show "unat (live_count k (sh_live (w_shared w))) \<le> unat (live_count k (sh_live (w_shared w')))"
      using step [of k] by (simp add: w') linarith
    show "unat (live_count k (sh_live (w_shared w'))) \<le> Suc n"
      using step [of k] bound [of k] by (simp add: w') linarith
  qed (simp_all add: w')
qed

lemma ticks_inv_load:
  assumes inv: "ticks_inv d n w" and loads: "em_loads (w_emitter w) = ld # lds"
    and w': "w' = w\<lparr>w_emitter := (w_emitter w)\<lparr>em_loads := lds,
                   em_reads := do_load L ld (w_shared w) (em_reads (w_emitter w))\<rparr>\<rparr>"
  shows "ticks_inv d (Suc n) w'"
proof -
  have counts: "emitter_counts n (sh_live (w_shared w)) (w_emitter w) k" for k
    using inv by (simp add: ticks_inv_def Let_def)
  have "emitter_counts (Suc n) (sh_live (w_shared w')) (w_emitter w') k" for k
    using counts [of k] do_load_count [of k L ld "w_shared w" "em_reads (w_emitter w)"]
    by (auto simp: emitter_counts_def w')
  moreover have "em_phase (w_emitter w) = Awake"
    using inv loads by (simp add: ticks_inv_def Let_def)
  ultimately show ?thesis using inv by (auto simp: ticks_inv_def Let_def w' le_SucI)
qed

lemma tick_delta_exact:
  assumes "emitter_counts n l e k"
  shows "unat (tick_count k (tick_delta (rd_counts (em_reads e)) (em_prev e))) + unat (tick_count k (em_prev e))
       = unat (tick_count k (rd_counts (em_reads e)))"
  using assms by (simp add: emitter_counts_def tick_count_delta rust_int)

lemma ticks_inv_emit:
  assumes inv: "ticks_inv d n w" and n: "n < 2 ^ 63" and awake: "em_phase (w_emitter w) = Awake"
    and loads: "em_loads (w_emitter w) = []"
  shows "ticks_inv d (Suc n) (emit alive w)"
proof -
  let ?e = "w_emitter w" and ?ts = "w_ticks w"
  define t where "t = make_tick (em_next ?e) (em_prev ?e) (em_reads ?e) (sh_samples (w_shared w))"
  have counts: "emitter_counts n (sh_live (w_shared w)) ?e k" for k
    using inv by (simp add: ticks_inv_def Let_def)
  have next': "unat (em_next ?e) = Suc (length ?ts)" and len: "length ?ts \<le> n" and dur: "em_next ?e \<le> d"
    and cum: "cumulative k ?ts = unat (tick_count k (em_prev ?e))" for k
    using inv awake by (simp_all add: ticks_inv_def Let_def)
  have delta: "tk_this_tick t = tick_delta (rd_counts (em_reads ?e)) (em_prev ?e)"
    by (simp add: t_def make_tick_def Let_def)
  have total: "cumulative k (?ts @ [t]) = unat (tick_count k (rd_counts (em_reads ?e)))" for k
    using tick_delta_exact [OF counts, of k] cum [of k] by (simp add: delta)
  have "tick_in_place (?ts @ [t]) t"
    using total [of None] total [of "Some Pass"] total [of "Some FailStatus"] total [of "Some RateLimited"] next'
    by (simp add: tick_in_place_def t_def make_tick_def Let_def del: cumulative_simps)
  then have place: "ticks_in_place (?ts @ [t])"
    using inv by (simp add: ticks_inv_def Let_def ticks_in_place_snoc)
  have prev: "cumulative k ?ts \<le> unat (tick_count k (rd_counts (em_reads ?e)))" for k
    using counts [of k] cum [of k] by (simp add: emitter_counts_def)
  have len': "Suc (length ?ts) \<le> unat d" using dur next' by (simp add: word_le_nat_alt)
  have "unat (em_next ?e + 1) = Suc (unat (em_next ?e))"
    using next' len n by (simp add: unat_word_ariths)
  then show ?thesis
    using inv place total prev len len' next' loads counts
    by (cases alive)
      (simp_all add: ticks_inv_def Let_def emit_def emitter_counts_def le_SucI del: cumulative_simps flip: t_def)
qed

lemma ticks_exec:
  assumes inv: "ticks_inv (duration_s (cf_spec cf)) n w" and n: "n < 2 ^ 63" and "worker_exec cf ev w = Some w'"
  shows "ticks_inv (duration_s (cf_spec cf)) (Suc n) w'"
proof -
  have bound: "unat (live_count k (sh_live (w_shared w))) \<le> Suc n" for k
    using inv by (simp add: ticks_inv_def Let_def emitter_counts_def le_SucI)
  have on: ?thesis if "on_conn w i en f = Some w'" for i en f
    using that by (rule on_conn_cases) (intro ticks_inv_live [OF inv], simp_all add: bound)
  show ?thesis
  proof (cases ev)
    case (Act i)
    show ?thesis by (rule ticks_inv_act [OF inv n assms(3) [unfolded Act worker_exec.simps]])
  next
    case Load
    with assms(3) obtain ld lds where loads: "em_loads (w_emitter w) = ld # lds"
      by (cases "em_loads (w_emitter w)") simp_all
    show ?thesis by (rule ticks_inv_load [OF inv loads, where L = "cf_hdr cf"]) (use assms(3) Load loads in simp)
  next
    case Wake
    with assms(3) inv show ?thesis
      by (auto simp: ticks_inv_def Let_def emitter_counts_def le_SucI split: if_splits)
  next
    case (Emit alive)
    with assms(3) show ?thesis
      using ticks_inv_emit [OF inv n, of alive] by (simp split: if_splits)
  next
    case Cancel
    with assms(3) show ?thesis
      by (intro ticks_inv_live [OF inv]) (auto simp: bound split: if_splits)
  qed (use assms(3) on in \<open>auto simp only: worker_exec.simps\<close>)
qed

lemma ticks_reachable:
  assumes "reachable cf n w" "n < 2 ^ 63"
  shows "ticks_inv (duration_s (cf_spec cf)) n w"
  using assms
proof induction
  case start
  show ?case by (rule ticks_inv_init)
next
  case (event n w ev w')
  then show ?case using ticks_exec [of cf n w ev w'] by simp
qed

section \<open>Properties\<close>

text \<open>C14. The ticks of a run are numbered 1, 2, 3, ... without gaps, at most as many as the run has seconds, and the counts of
  each second telescope: at every tick the run-to-date totals (completed, pass, fail_status, rate_limited) are the sums
  of the per-second counts so far. This holds however the emitter's loads interleave with the connections' updates.\<close>

theorem ticks_telescope:
  assumes "reachable cf n w" "n < 2 ^ 63"
  shows "ticks_in_place (w_ticks w) \<and> length (w_ticks w) \<le> unat (duration_s (cf_spec cf))"
  using ticks_reachable [OF assms] by (simp add: ticks_inv_def Let_def)

theorem ticks_telescope_witness:
  "\<exists>w. worker_runs demo_config demo_all (world_init demo_config) = Some w \<and> length (w_ticks w) = 1 \<and> ticks_in_place (w_ticks w)"
proof -
  obtain w where w: "worker_runs demo_config demo_all (world_init demo_config) = Some w" "length (w_ticks w) = 1"
    by (rule demo_finished)
  have "length demo_all < 2 ^ 63" by (simp add: demo_all_def demo_events_def demo_tick_def)
  from ticks_telescope [OF demo_reachable [OF w(1)] this] have "ticks_in_place (w_ticks w)" by (elim conjE)
  with w show ?thesis by (intro exI conjI)
qed

text \<open>The ticks never report more than happened: the per-second counts of all ticks add up to at most the shared counter.\<close>

lemma ticks_never_exceed_counters:
  assumes "reachable cf n w" "n < 2 ^ 63"
  shows "cumulative k (w_ticks w) \<le> unat (live_count k (sh_live (w_shared w)))"
proof -
  have "cumulative k (w_ticks w) \<le> unat (tick_count k (em_prev (w_emitter w)))"
    "emitter_counts n (sh_live (w_shared w)) (w_emitter w) k"
    using ticks_reachable [OF assms] by (simp_all add: ticks_inv_def Let_def)
  then show ?thesis by (simp add: emitter_counts_def)
qed

lemma bucket_edges:
  assumes "unat n < 2 ^ 49"
  shows "bk_rps_lo (tick_bucket (of_u64 n) t) = Fin (of_nat (10 * (unat n div 10)))"
    and "bk_rps_hi (tick_bucket (of_u64 n) t) = Fin (of_nat (10 * (unat n div 10) + 10))"
proof -
  let ?k = "unat n div 10"
  have ten: "BUCKET_WIDTH_RPS = Fin 10" by (simp add: BUCKET_WIDTH_RPS_def float_eval)
  have n: "of_u64 n = Fin (of_nat (unat n))" using assms by (intro of_u64_small) simp
  have q: "\<lfloor>round64 (of_nat (unat n) / 10)\<rfloor> = int ?k" by (rule floor_tenth [OF assms])
  have "of_nat (unat n) / 10 \<le> (of_int (2 ^ 53) :: rat)"
  proof -
    have "(of_nat (unat n) :: rat) \<le> of_nat (2 ^ 53)" using assms by (simp only: of_nat_le_iff) simp
    then show ?thesis by simp
  qed
  from round64_mono [OF this] have "round64 (of_nat (unat n) / 10) \<le> 2 ^ 53" using round64_int [of "2 ^ 53"] by simp
  moreover have "0 \<le> round64 (of_nat (unat n) / 10)" by (rule b64.rnd_nonneg) simp
  ultimately have "mk64 (of_nat (unat n) / 10) = Fin (round64 (of_nat (unat n) / 10))" by (intro mk64_Fin) simp
  then have div: "of_u64 n / BUCKET_WIDTH_RPS = Fin (round64 (of_nat (unat n) / 10))"
    by (simp add: n ten)
  have small: "\<bar>int (10 * ?k)\<bar> \<le> 2 ^ 53" "\<bar>int (10 * ?k + 10)\<bar> \<le> 2 ^ 53" using assms by auto
  have lo: "f64_floor (of_u64 n / BUCKET_WIDTH_RPS) * BUCKET_WIDTH_RPS = Fin (of_nat (10 * ?k))"
    unfolding div using mk64_int [OF small(1)] by (simp add: q ten mult.commute)
  then show "bk_rps_lo (tick_bucket (of_u64 n) t) = Fin (of_nat (10 * ?k))"
    by (simp add: tick_bucket_def Let_def)
  show "bk_rps_hi (tick_bucket (of_u64 n) t) = Fin (of_nat (10 * ?k + 10))"
    unfolding tick_bucket_def Let_def lo using mk64_int [OF small(2)] by (simp add: ten)
qed

text \<open>The bucket of a tick is the ten-wide interval its measured rate falls into, with exact edges: for rates below
  \<open>2 ^ 49\<close> per second neither the division nor its rounding ever moves a tick to a neighbouring bucket, and its edges
  are the same numbers for all ticks of the bucket, so consumers can match them for equality.\<close>

lemma bucket_contains_rate:
  assumes "unat (tt_total (tick_delta (rd_counts r) prev)) < 2 ^ 49"
  shows "\<exists>b. tk_buckets (make_tick elapsed prev r sampled) = [b]
    \<and> bk_rps_lo b = Fin (of_nat (10 * (unat (bk_total b) div 10)))
    \<and> bk_rps_hi b = Fin (of_nat (10 * (unat (bk_total b) div 10) + 10))
    \<and> bk_rps_lo b \<le> tk_achieved_rps_1s (make_tick elapsed prev r sampled)
    \<and> tk_achieved_rps_1s (make_tick elapsed prev r sampled) < bk_rps_hi b"
proof -
  define n where "n = tt_total (tick_delta (rd_counts r) prev)"
  define t where "t = tick_delta (rd_counts r) prev"
  have small: "unat n < 2 ^ 49" using assms by (simp add: n_def)
  have n: "of_u64 n = Fin (of_nat (unat n))" using small by (intro of_u64_small) simp
  have "10 * (unat n div 10) \<le> unat n" "unat n < 10 * (unat n div 10) + 10" by simp_all
  then have "(of_nat (10 * (unat n div 10)) :: rat) \<le> of_nat (unat n)"
    "(of_nat (unat n) :: rat) < of_nat (10 * (unat n div 10) + 10)"
    by (simp_all only: of_nat_le_iff of_nat_less_iff)
  moreover have "bk_total (tick_bucket (of_u64 n) t) = n" by (simp add: tick_bucket_def Let_def t_def n_def)
  moreover have "tk_buckets (make_tick elapsed prev r sampled) = [tick_bucket (of_u64 n) t]"
    "tk_achieved_rps_1s (make_tick elapsed prev r sampled) = of_u64 n"
    by (simp_all add: make_tick_def Let_def n_def t_def)
  ultimately show ?thesis
    using bucket_edges [OF small, of t] n by auto
qed

end
