(* ===== verification/Dispatch.thy ===== *)
theory Dispatch
  imports Coordinator Worker_Node Worker_Ticks
begin

text \<open>
  Dispatching a run over the fleet, \<open>engine/src/coordinator/dispatch.rs\<close>: the assignments, the summary each worker task
  keeps of its stream, the aggregation of the per-second partials of all workers, and the final accounting. A worker's
  RPC is the list of events its stream yields, or nothing if it could not be reached. The HDR library is an argument,
  and so is the iteration order of a hash map.
\<close>

section \<open>Data\<close>

record dispatch_spec =
  ds_run_id :: string
  ds_target_url :: string
  ds_target_method :: string
  ds_target_rps :: f64
  ds_duration_s :: u64
  ds_connections :: u32
  ds_keepalive :: bool
  ds_timeout_ms :: u32
  ds_expected_status :: "i32 list"
  ds_max_latency_us :: "i64 option"
  ds_min_body_bytes :: "i32 option"
  ds_max_body_bytes :: "i32 option"
  ds_content_type :: "string option"
  ds_target_headers :: "(string \<times> string) list"
  ds_epoch_unix_us :: i64

text \<open>The numbers that the message of a warning prints are kept as they are.\<close>

record warning =
  wr_code :: string
  wr_finished :: nat
  wr_dispatched :: nat
  wr_unmet_rps :: f64
  wr_target_rps :: f64

record dispatch_summary =
  dm_workers_dispatched :: nat
  dm_workers_finished :: nat
  dm_workers_lost :: nat
  dm_warnings :: "warning list"
  dm_totals :: this_tick
  dm_first_429_rps :: "f64 option"
  dm_aborted :: bool

datatype dispatch_error = NoWorkers

record agg_percentiles =
  agg_p50_us :: u64
  agg_p95_us :: u64
  agg_p99_us :: u64

text \<open>\<open>AggThisTick\<close> and \<open>AggBucket\<close> have the fields of the worker's \<open>ThisTick\<close> and \<open>Bucket\<close>.\<close>

record aggregated_tick =
  gt_elapsed_s :: u64
  gt_achieved_rps_1s :: f64
  gt_completed_total :: u64
  gt_pass_total :: u64
  gt_fail_status_total :: u64
  gt_this_tick :: this_tick
  gt_percentiles :: agg_percentiles
  gt_buckets :: "bucket list"
  gt_rate_limit_onset_rps :: "f64 option"
  gt_merged_hist_v2 :: bytes
  gt_merged_uncorrected_hist_v2 :: bytes

section \<open>Assignments\<close>

definition method_of_string :: "string \<Rightarrow> http_method" where
  "method_of_string s =
     (let m = to_ascii_uppercase s in
      if m = ''POST'' then Post else if m = ''PUT'' then Put else if m = ''PATCH'' then Patch
      else if m = ''DELETE'' then Delete else if m = ''HEAD'' then Head else Get)"

definition build_assignment :: "dispatch_spec \<Rightarrow> string \<Rightarrow> f64 \<Rightarrow> i64 \<Rightarrow> assignment" where
  "build_assignment spec worker_id per_worker_rps epoch =
     \<lparr> asg_run_id = ds_run_id spec, asg_worker_id = worker_id, asg_contract_version = CONTRACT_VERSION,
       asg_target = Some
         \<lparr> tgt_url = ds_target_url spec, tgt_method = http_method_i32 (method_of_string (ds_target_method spec)),
           tgt_headers = ds_target_headers spec, tgt_body = [], tgt_timeout_ms = ds_timeout_ms spec,
           tgt_verify_tls = True \<rparr>,
       asg_throughput = per_worker_rps, asg_catch_up = per_worker_rps * f64_lit 2, asg_load_model = load_model_i32 LmOpen,
       asg_connections = ds_connections spec, asg_keepalive = ds_keepalive spec, asg_epoch_unix_us = epoch,
       asg_duration_s = ucast (ds_duration_s spec), asg_warmup_s = 0,
       asg_assert = Some
         \<lparr> asrt_max_latency_us = ds_max_latency_us spec, asrt_min_body_bytes = ds_min_body_bytes spec,
           asrt_max_body_bytes = ds_max_body_bytes spec, asrt_content_type = ds_content_type spec,
           asrt_expected_status = ds_expected_status spec, asrt_sample_every_n = 0, asrt_ship_bodies = False,
           asrt_max_sampled_body_bytes = 0 \<rparr>,
       asg_rate_limit_policy = Some
         \<lparr> rlp_action = rate_limit_action_i32 RlBackoff, rlp_max_backoff_ms = 5000, rlp_record_onset = True \<rparr> \<rparr>"

section \<open>The task of one worker\<close>

definition keep_min :: "f64 option \<Rightarrow> f64 option \<Rightarrow> f64 option" where
  "keep_min cur onset =
     (case onset of None \<Rightarrow> cur
      | Some x \<Rightarrow> Some (case cur of Some c \<Rightarrow> f64_min c x | None \<Rightarrow> x))"

definition partial_onset :: "partial \<Rightarrow> f64 option" where
  "partial_onset p = (case pt_rate_limit p of None \<Rightarrow> None | Some rl \<Rightarrow> rls_first_429_rps rl)"

definition add_bucket :: "rps_bucket \<Rightarrow> this_tick \<Rightarrow> this_tick" where
  "add_bucket b t =
     \<lparr> tt_total = tt_total t + rb_total b, tt_pass = tt_pass t + rb_pass b,
       tt_fail_status = tt_fail_status t + rb_fail_status b, tt_fail_latency = tt_fail_latency t + rb_fail_latency b,
       tt_fail_size = tt_fail_size t + rb_fail_size b,
       tt_fail_content_type = tt_fail_content_type t + rb_fail_content_type b,
       tt_rate_limited = tt_rate_limited t + rb_rate_limited b \<rparr>"

record worker_summary =
  ws_finished :: bool
  ws_counts :: this_tick
  ws_first_429_rps :: "f64 option"

definition worker_summary_default :: worker_summary where
  "worker_summary_default = \<lparr> ws_finished = False, ws_counts = zero_tick, ws_first_429_rps = None \<rparr>"

definition take_partial :: "partial \<Rightarrow> worker_summary \<Rightarrow> worker_summary" where
  "take_partial p s =
     \<lparr> ws_finished = (ws_finished s \<or> pt_final p), ws_counts = fold add_bucket (pt_buckets p) (ws_counts s),
       ws_first_429_rps = keep_min (ws_first_429_rps s) (partial_onset p) \<rparr>"

fun partials_of :: "worker_event_msg list \<Rightarrow> partial list" where
  "partials_of [] = []"
| "partials_of (Some (KPartial p) # es) = p # partials_of es"
| "partials_of (e # es) = partials_of es"

text \<open>\<open>None\<close>: the worker could not be dialled or refused the assignment. The partials go to the aggregator.\<close>

definition run_one_worker :: "worker_event_msg list option \<Rightarrow> worker_summary \<times> partial list" where
  "run_one_worker stream =
     (case stream of
        None \<Rightarrow> (worker_summary_default, [])
      | Some es \<Rightarrow> (fold take_partial (partials_of es) worker_summary_default, partials_of es))"

section \<open>One aggregated tick\<close>

record 'h agg =
  ag_this :: this_tick
  ag_rps :: f64
  ag_onset :: "f64 option"
  ag_hist :: 'h
  ag_uncorrected :: 'h
  ag_any :: bool
  ag_uncorrected_any :: bool

definition agg_init :: "'h hdr \<Rightarrow> 'h agg" where
  "agg_init L =
     \<lparr> ag_this = zero_tick, ag_rps = f64_lit 0, ag_onset = None, ag_hist = new_corrected_target L,
       ag_uncorrected = new_corrected_target L, ag_any = False, ag_uncorrected_any = False \<rparr>"

definition merge_snapshot :: "'h hdr \<Rightarrow> bytes \<Rightarrow> 'h \<times> bool \<Rightarrow> 'h \<times> bool" where
  "merge_snapshot L bs m =
     (case deserialize_v2 L bs of
        None \<Rightarrow> m
      | Some h \<Rightarrow> (case hdr_add L (fst m) h of None \<Rightarrow> m | Some k \<Rightarrow> (k, True)))"

definition agg_partial :: "'h hdr \<Rightarrow> partial \<Rightarrow> 'h agg \<Rightarrow> 'h agg" where
  "agg_partial L p a =
     (let (h, any) = merge_snapshot L (pt_corrected_hist p) (ag_hist a, ag_any a);
          (u, uany) = merge_snapshot L (pt_uncorrected_hist p) (ag_uncorrected a, ag_uncorrected_any a)
      in \<lparr> ag_this = fold add_bucket (pt_buckets p) (ag_this a), ag_rps = ag_rps a + pt_achieved_rps p,
           ag_onset = keep_min (ag_onset a) (partial_onset p), ag_hist = h, ag_uncorrected = u,
           ag_any = any, ag_uncorrected_any = uany \<rparr>)"

record agg_totals =
  at_completed :: u64
  at_pass :: u64
  at_fail_status :: u64

definition aggregate_tick ::
  "'h hdr \<Rightarrow> u64 \<Rightarrow> partial list \<Rightarrow> agg_totals \<Rightarrow> aggregated_tick \<times> agg_totals" where
  "aggregate_tick L tick_n ps cum =
     (let a = fold (agg_partial L) ps (agg_init L);
          this = ag_this a;
          cum' = \<lparr> at_completed = at_completed cum + tt_total this, at_pass = at_pass cum + tt_pass this,
                  at_fail_status = at_fail_status cum + tt_fail_status this \<rparr>
      in (\<lparr> gt_elapsed_s = tick_n, gt_achieved_rps_1s = ag_rps a, gt_completed_total = at_completed cum',
            gt_pass_total = at_pass cum', gt_fail_status_total = at_fail_status cum', gt_this_tick = this,
            gt_percentiles =
              (if ag_any a
               then \<lparr> agg_p50_us = hdr_quantile L (ag_hist a) (f64_lit (1 / 2)),
                      agg_p95_us = hdr_quantile L (ag_hist a) (f64_lit (95 / 100)),
                      agg_p99_us = hdr_quantile L (ag_hist a) (f64_lit (99 / 100)) \<rparr>
               else \<lparr> agg_p50_us = 0, agg_p95_us = 0, agg_p99_us = 0 \<rparr>),
            gt_buckets = [tick_bucket (ag_rps a) this], gt_rate_limit_onset_rps = ag_onset a,
            gt_merged_hist_v2 = (if ag_any a then serialize_v2 L (ag_hist a) else []),
            gt_merged_uncorrected_hist_v2 =
              (if ag_uncorrected_any a then serialize_v2 L (ag_uncorrected a) else []) \<rparr>, cum'))"

section \<open>The aggregation loop\<close>

record agg_state =
  al_per_tick :: "(u64 \<times> (string \<times> partial) list) list"
  al_totals :: agg_totals
  al_out :: "aggregated_tick list"

definition agg_state_init :: agg_state where
  "agg_state_init =
     \<lparr> al_per_tick = [], al_totals = \<lparr> at_completed = 0, at_pass = 0, at_fail_status = 0 \<rparr>, al_out = [] \<rparr>"

text \<open>\<open>order\<close> is the order in which the hash map of a tick yields its partials.\<close>

definition agg_message ::
  "'h hdr \<Rightarrow> nat \<Rightarrow> (partial list \<Rightarrow> partial list) \<Rightarrow> string \<times> partial \<Rightarrow> agg_state \<Rightarrow> agg_state" where
  "agg_message L num_workers order msg st =
     (case msg of (worker_id, p) \<Rightarrow>
        if pt_final p then st
        else
          let entry = hm_insert worker_id p
                (case hm_get (al_per_tick st) (pt_tick p) of Some e \<Rightarrow> e | None \<Rightarrow> [])
          in if length entry = num_workers
             then (case aggregate_tick L (pt_tick p) (order (hm_values entry)) (al_totals st) of
                     (t, cum) \<Rightarrow> \<lparr> al_per_tick = hm_remove (pt_tick p) (al_per_tick st), al_totals = cum,
                                   al_out = al_out st @ [t] \<rparr>)
             else st\<lparr>al_per_tick := hm_insert (pt_tick p) entry (al_per_tick st)\<rparr>)"

datatype agg_event = Received string partial | CancelFired

fun aggregate_loop ::
  "'h hdr \<Rightarrow> nat \<Rightarrow> (partial list \<Rightarrow> partial list) \<Rightarrow> agg_event list \<Rightarrow> agg_state \<Rightarrow> agg_state" where
  "aggregate_loop L num_workers order [] st = st"
| "aggregate_loop L num_workers order (CancelFired # es) st = st"
| "aggregate_loop L num_workers order (Received w p # es) st =
     aggregate_loop L num_workers order es (agg_message L num_workers order (w, p) st)"

section \<open>The dispatch\<close>

text \<open>
  \<open>dispatch_begin\<close> runs up to the spawning of the worker tasks, with the clock \<open>now\<close> and a fresh token; it returns the
  address to dial and the assignment for each worker.
\<close>

definition per_worker_rps :: "dispatch_spec \<Rightarrow> nat \<Rightarrow> f64" where
  "per_worker_rps spec num_workers = ds_target_rps spec / of_u64 (of_nat num_workers)"

definition dispatch_begin ::
  "dispatch_spec \<Rightarrow> i64 \<Rightarrow> nat \<Rightarrow> coordinator \<Rightarrow> (dispatch_error + (string \<times> string \<times> assignment) list) \<times> coordinator" where
  "dispatch_begin spec now token st =
     (let ws = list_workers st in
      if ws = [] then (Inl NoWorkers, st)
      else
        let rps = per_worker_rps spec (length ws);
            epoch = (if ds_epoch_unix_us spec \<noteq> 0 then ds_epoch_unix_us spec else now)
        in (Inr (map (\<lambda>w. (worker_url (wk_address w), wk_worker_id w,
                            build_assignment spec (wk_worker_id w) rps epoch)) ws),
            register_run (ds_run_id spec) \<lparr> rh_worker_addrs = map wk_address ws, rh_cancel = token \<rparr> st))"

text \<open>One joined worker task; \<open>None\<close> is a task that panicked.\<close>

definition add_counts :: "this_tick \<Rightarrow> this_tick \<Rightarrow> this_tick" where
  "add_counts t u =
     \<lparr> tt_total = tt_total t + tt_total u, tt_pass = tt_pass t + tt_pass u,
       tt_fail_status = tt_fail_status t + tt_fail_status u, tt_fail_latency = tt_fail_latency t + tt_fail_latency u,
       tt_fail_size = tt_fail_size t + tt_fail_size u,
       tt_fail_content_type = tt_fail_content_type t + tt_fail_content_type u,
       tt_rate_limited = tt_rate_limited t + tt_rate_limited u \<rparr>"

fun take_summary :: "worker_summary option \<Rightarrow> dispatch_summary \<Rightarrow> dispatch_summary" where
  "take_summary None s = s"
| "take_summary (Some ws) s =
     s\<lparr>dm_workers_finished := (if ws_finished ws then dm_workers_finished s + 1 else dm_workers_finished s),
       dm_totals := add_counts (dm_totals s) (ws_counts ws),
       dm_first_429_rps := keep_min (dm_first_429_rps s) (ws_first_429_rps ws)\<rparr>"

definition summary_init :: "nat \<Rightarrow> dispatch_summary" where
  "summary_init num_workers =
     \<lparr> dm_workers_dispatched = num_workers, dm_workers_finished = 0, dm_workers_lost = 0, dm_warnings = [],
       dm_totals = zero_tick, dm_first_429_rps = None, dm_aborted = False \<rparr>"

definition dispatch_account :: "dispatch_spec \<Rightarrow> nat \<Rightarrow> worker_summary option list \<Rightarrow> bool \<Rightarrow> dispatch_summary" where
  "dispatch_account spec num_workers joined cancelled =
     (let s = (fold take_summary joined (summary_init num_workers))\<lparr>dm_aborted := cancelled\<rparr>;
          lost = dm_workers_dispatched s - dm_workers_finished s
      in if cancelled then s
         else if 0 < lost
         then s\<lparr>dm_workers_lost := lost,
                dm_warnings := dm_warnings s @
                  [\<lparr> wr_code = ''WORKER_LOST'', wr_finished = dm_workers_finished s,
                     wr_dispatched = dm_workers_dispatched s,
                     wr_unmet_rps = per_worker_rps spec num_workers * of_u64 (of_nat lost),
                     wr_target_rps = ds_target_rps spec \<rparr>]\<rparr>
         else s\<lparr>dm_workers_lost := 0\<rparr>)"

text \<open>
  The end of a dispatch: the token is read once, after the joins; the run is deregistered later, under a lock of its own.
  What happens at the coordinator in between (\<open>late\<close>) does not reach the summary.
\<close>

definition dispatch_finish ::
  "dispatch_spec \<Rightarrow> nat \<Rightarrow> worker_summary option list \<Rightarrow> nat \<Rightarrow> co_event list \<Rightarrow> coordinator
   \<Rightarrow> dispatch_summary \<times> coordinator" where
  "dispatch_finish spec num_workers joined token late st =
     (let cancelled = token \<in> set (co_cancelled st)
      in (dispatch_account spec num_workers joined cancelled, deregister_run (ds_run_id spec) (co_run late st)))"

section \<open>An assignment arrives as it was meant\<close>

lemma method_round_trip:
  "http_method_from_proto (http_method_i32 (method_of_string s)) =
     (let m = to_ascii_uppercase s
      in if m \<in> {''GET'', ''POST'', ''PUT'', ''PATCH'', ''DELETE'', ''HEAD''} then m else ''GET'')"
  by (auto simp: http_method_from_proto_def wire_simps method_of_string_def Let_def)

lemma sint_small:
  assumes "unat (v :: i32) < 2 ^ 31"
  shows "sint v = int (unat v)" "unat (i32_as_u64 v) = unat v"
proof -
  have u: "uint v = int (unat v)" by (metis of_nat_unat)
  have "signed_take_bit 31 (int (unat v)) = int (unat v)"
    by (rule signed_take_bit_int_eq_self) (use assms in simp_all)
  then show s: "sint v = int (unat v)"
    by (simp add: sint_uint u)
  have "i32_as_u64 v = word_of_nat (unat v)" by (simp add: i32_as_u64_def scast_eq s)
  moreover have "unat v < 2 ^ 64" using assms by simp
  ultimately show "unat (i32_as_u64 v) = unat v" by (simp add: unat_of_nat take_bit_nat_eq_self)
qed

lemma ucast_small: "unat (n :: u64) < 2 ^ 31 \<Longrightarrow> unat (ucast n :: i32) = unat n"
  by (simp add: unsigned_ucast_eq take_bit_nat_eq_self)

lemma u16_of_status: "0 \<le> sint (c :: i32) \<Longrightarrow> sint c < 2 ^ 16 \<Longrightarrow> int (unat (ucast c :: u16)) = sint c"
proof -
  assume c: "0 \<le> sint c" "sint c < 2 ^ 16"
  then have "uint c = sint c" by (simp add: uint_sint take_bit_int_eq_self)
  then have "int (unat c) = sint c" by (metis of_nat_unat)
  with c show ?thesis by (simp add: unsigned_ucast_eq of_nat_take_bit take_bit_int_eq_self)
qed

lemma u64_of_limit: "0 \<le> sint (b :: i32) \<Longrightarrow> int (unat (i32_as_u64 b)) = sint b"
proof -
  assume b: "0 \<le> sint b"
  moreover have small: "sint b < 2 ^ 31" using sint_lt [of b] by simp
  ultimately have "uint b = sint b" by (simp add: uint_sint take_bit_int_eq_self)
  moreover note small
  ultimately have "unat b < 2 ^ 31" by (metis nat_less_numeral_power_cancel_iff uint_nonnegative unat_eq_nat_uint)
  with sint_small(1) [OF this] sint_small(2) [OF this] show ?thesis by simp
qed


definition demo_uri :: uri where
  "demo_uri = \<lparr> uri_host = Some ''svc'', uri_port_u16 = None, uri_scheme_str = Some ''http'', uri_path_and_query = Some ''/'' \<rparr>"

definition demo_dispatch :: dispatch_spec where
  "demo_dispatch =
     \<lparr> ds_run_id = ''r1'', ds_target_url = ''http://svc/'', ds_target_method = ''post'', ds_target_rps = Fin 100,
       ds_duration_s = 30, ds_connections = 8, ds_keepalive = True, ds_timeout_ms = 2000, ds_expected_status = [200, 204],
       ds_max_latency_us = Some 50000, ds_min_body_bytes = None, ds_max_body_bytes = None, ds_content_type = None,
       ds_target_headers = [], ds_epoch_unix_us = 0 \<rparr>"


section \<open>Adding up\<close>

fun rb_count :: "verdict option \<Rightarrow> rps_bucket \<Rightarrow> u64" where
  "rb_count None b = rb_total b"
| "rb_count (Some Pass) b = rb_pass b"
| "rb_count (Some FailStatus) b = rb_fail_status b"
| "rb_count (Some FailLatency) b = rb_fail_latency b"
| "rb_count (Some FailSize) b = rb_fail_size b"
| "rb_count (Some FailContentType) b = rb_fail_content_type b"
| "rb_count (Some RateLimited) b = rb_rate_limited b"

definition partial_count :: "verdict option \<Rightarrow> partial \<Rightarrow> u64" where
  "partial_count k p = sum_list (map (rb_count k) (pt_buckets p))"

lemma tick_count_add_bucket: "tick_count k (add_bucket b t) = tick_count k t + rb_count k b"
  by (cases "(k, b)" rule: rb_count.cases) (simp_all add: add_bucket_def)

lemma tick_count_add_counts: "tick_count k (add_counts t u) = tick_count k t + tick_count k u"
  by (cases "(k, t)" rule: tick_count.cases) (simp_all add: add_counts_def)

lemma this_tick_eqI: "(\<And>k. tick_count k s = tick_count k t) \<Longrightarrow> s = t"
  by (metis (full_types) tick_count.simps this_tick.equality old.unit.exhaust)

interpretation buckets: tally add_bucket "\<lambda>_. True" "\<lambda>_. True" "tick_count k" "rb_count k" for k
  by unfold_locales (simp_all add: tick_count_add_bucket)

lemma count_buckets: "tick_count k (fold add_bucket bs t) = tick_count k t + sum_list (map (rb_count k) bs)"
  by (simp add: buckets.count_fold)

interpretation partials: tally take_partial "\<lambda>_. True" "\<lambda>_. True" "\<lambda>s. tick_count k (ws_counts s)" "partial_count k" for k
  by unfold_locales (simp_all add: take_partial_def count_buckets partial_count_def)

interpretation seconds: tally "agg_partial L" "\<lambda>_. True" "\<lambda>_. True" "\<lambda>a. tick_count k (ag_this a)" "partial_count k" for L k
  by unfold_locales (simp_all add: agg_partial_def count_buckets partial_count_def split: prod.split)

fun joined_count :: "verdict option \<Rightarrow> worker_summary option \<Rightarrow> u64" where
  "joined_count k None = 0"
| "joined_count k (Some ws) = tick_count k (ws_counts ws)"

interpretation joins: tally take_summary "\<lambda>_. True" "\<lambda>_. True" "\<lambda>s. tick_count k (dm_totals s)" "joined_count k" for k
proof unfold_locales
  show "tick_count k (dm_totals (take_summary x s)) = tick_count k (dm_totals s) + joined_count k x" for x s
    by (cases x) (simp_all add: tick_count_add_counts)
qed simp

interpretation finishes: tally take_summary "\<lambda>_. True" "\<lambda>_. True" dm_workers_finished
  "\<lambda>x. case x of Some ws \<Rightarrow> if ws_finished ws then 1 else 0 | None \<Rightarrow> 0"
proof unfold_locales
  show "dm_workers_finished (take_summary x s)
      = dm_workers_finished s + (case x of Some ws \<Rightarrow> if ws_finished ws then 1 else 0 | None \<Rightarrow> 0)" for x s
    by (cases x) simp_all
qed simp

section \<open>Merging the snapshots of a second\<close>

locale hdr_library =
  fixes L :: "'h hdr"
    and ok :: "'h \<Rightarrow> bool"
    and cells :: "'h \<Rightarrow> nat multiset"
    and cell :: "u64 \<Rightarrow> nat"
  assumes laws: "hdr_laws L ok cells cell"
begin

text \<open>A worker ships nothing, or the serialisation of a histogram with the engine's bounds.\<close>

definition snapshot :: "bytes \<Rightarrow> bool" where
  "snapshot bs \<longleftrightarrow> bs = [] \<or> (\<exists>h. ok h \<and> bs = serialize_v2 L h)"

definition snapshot_cells :: "bytes \<Rightarrow> nat multiset" where
  "snapshot_cells bs = (case deserialize_v2 L bs of None \<Rightarrow> {#} | Some h \<Rightarrow> cells h)"

lemma deserialize_snapshot:
  assumes "snapshot bs"
  shows "if bs = [] then deserialize_v2 L bs = None else \<exists>h. deserialize_v2 L bs = Some h \<and> ok h"
proof (cases "bs = []")
  case True
  then show ?thesis by (simp add: deserialize_v2_def)
next
  case False
  then obtain h where "ok h" "bs = serialize_v2 L h" using assms by (auto simp: snapshot_def)
  then show ?thesis using hdr_wireD [OF laws] False by auto
qed

lemma snapshot_wire: "ok h \<Longrightarrow> snapshot_cells (serialize_v2 L h) = cells h"
  using hdr_wireD [OF laws, of h] by (auto simp: snapshot_cells_def)

lemma no_snapshots:
  "\<forall>x\<in>set xs. f x = [] \<Longrightarrow> sum_list (map (\<lambda>x. snapshot_cells (f x)) xs) = {#}"
  by (induction xs) (simp_all add: snapshot_cells_def deserialize_v2_def)

lemma merge_snapshot_cells:
  assumes "snapshot bs" "ok h" "merge_snapshot L bs (h, any) = (h', any')"
  shows "ok h' \<and> cells h' = cells h + snapshot_cells bs \<and> (any' \<longleftrightarrow> any \<or> bs \<noteq> [])"
proof (cases "bs = []")
  case True
  then show ?thesis using assms by (simp add: merge_snapshot_def snapshot_cells_def deserialize_v2_def)
next
  case False
  then obtain g where g: "deserialize_v2 L bs = Some g" "ok g"
    using deserialize_snapshot [OF assms(1)] by auto
  obtain k where "hdr_add L h g = Some k" "ok k" "cells k = cells h + cells g"
    using hdr_addD [OF laws assms(2) g(2)] by blast
  then show ?thesis using assms(3) g False by (auto simp: merge_snapshot_def snapshot_cells_def)
qed

definition good_partial :: "partial \<Rightarrow> bool" where
  "good_partial p \<longleftrightarrow> snapshot (pt_corrected_hist p) \<and> snapshot (pt_uncorrected_hist p)"

definition agg_ok :: "'h agg \<Rightarrow> bool" where
  "agg_ok a \<longleftrightarrow> ok (ag_hist a) \<and> ok (ag_uncorrected a)"

lemma agg_partial_cells:
  assumes "agg_ok a" "good_partial p"
  shows "agg_ok (agg_partial L p a)
    \<and> cells (ag_hist (agg_partial L p a)) = cells (ag_hist a) + snapshot_cells (pt_corrected_hist p)
    \<and> cells (ag_uncorrected (agg_partial L p a)) = cells (ag_uncorrected a) + snapshot_cells (pt_uncorrected_hist p)
    \<and> (ag_any (agg_partial L p a) \<longleftrightarrow> ag_any a \<or> pt_corrected_hist p \<noteq> [])
    \<and> (ag_uncorrected_any (agg_partial L p a) \<longleftrightarrow> ag_uncorrected_any a \<or> pt_uncorrected_hist p \<noteq> [])"
proof -
  obtain h any where h: "merge_snapshot L (pt_corrected_hist p) (ag_hist a, ag_any a) = (h, any)" by fastforce
  obtain u uany where u: "merge_snapshot L (pt_uncorrected_hist p) (ag_uncorrected a, ag_uncorrected_any a) = (u, uany)"
    by fastforce
  show ?thesis
    using merge_snapshot_cells [OF _ _ h] merge_snapshot_cells [OF _ _ u] assms
    by (simp add: agg_partial_def h u agg_ok_def good_partial_def)
qed

sublocale merged: tally "agg_partial L" good_partial agg_ok "\<lambda>a. cells (ag_hist a)" "\<lambda>p. snapshot_cells (pt_corrected_hist p)"
  by unfold_locales (simp_all add: agg_partial_cells)

sublocale merged_uncorrected:
  tally "agg_partial L" good_partial agg_ok "\<lambda>a. cells (ag_uncorrected a)" "\<lambda>p. snapshot_cells (pt_uncorrected_hist p)"
  by unfold_locales (simp_all add: agg_partial_cells)

lemma agg_any:
  assumes "agg_ok a" "\<forall>p\<in>set ps. good_partial p"
  shows "ag_any (fold (agg_partial L) ps a) \<longleftrightarrow> ag_any a \<or> (\<exists>p\<in>set ps. pt_corrected_hist p \<noteq> [])"
    and "ag_uncorrected_any (fold (agg_partial L) ps a) \<longleftrightarrow>
          ag_uncorrected_any a \<or> (\<exists>p\<in>set ps. pt_uncorrected_hist p \<noteq> [])"
  using assms by (induction ps arbitrary: a) (simp_all add: agg_partial_cells disj_assoc)

lemma agg_init_ok: "agg_ok (agg_init L)" "cells (ag_hist (agg_init L)) = {#}" "cells (ag_uncorrected (agg_init L)) = {#}"
  using hdr_newD [OF laws] by (simp_all add: agg_ok_def agg_init_def new_corrected_target_def)

text \<open>What the merged snapshot of a tick decodes to.\<close>

lemma merged_bytes:
  assumes "\<forall>p\<in>set ps. good_partial p" "aggregate_tick L n ps cum = (t, cum')"
  shows "snapshot_cells (gt_merged_hist_v2 t) = sum_list (map (\<lambda>p. snapshot_cells (pt_corrected_hist p)) ps)"
    and "snapshot_cells (gt_merged_uncorrected_hist_v2 t)
      = sum_list (map (\<lambda>p. snapshot_cells (pt_uncorrected_hist p)) ps)"
proof -
  let ?a = "fold (agg_partial L) ps (agg_init L)"
  have ok: "ok (ag_hist ?a)" "ok (ag_uncorrected ?a)"
    using merged.inv_fold [OF agg_init_ok(1) assms(1)] by (simp_all add: agg_ok_def)
  note any = agg_any [OF agg_init_ok(1) assms(1)]
  have empty: "snapshot_cells [] = {#}" by (simp add: snapshot_cells_def deserialize_v2_def)
  note wire = snapshot_wire
  have t: "gt_merged_hist_v2 t = (if ag_any ?a then serialize_v2 L (ag_hist ?a) else [])"
    "gt_merged_uncorrected_hist_v2 t = (if ag_uncorrected_any ?a then serialize_v2 L (ag_uncorrected ?a) else [])"
    using assms(2) by (auto simp: aggregate_tick_def Let_def)
  have no: "\<not> ag_any (agg_init L)" "\<not> ag_uncorrected_any (agg_init L)" by (simp_all add: agg_init_def)
  show "snapshot_cells (gt_merged_hist_v2 t) = sum_list (map (\<lambda>p. snapshot_cells (pt_corrected_hist p)) ps)"
    using merged.count_fold [OF agg_init_ok(1) assms(1)] any(1) no(1)
    by (cases "ag_any ?a") (auto simp: t wire ok agg_init_ok empty no_snapshots)
  show "snapshot_cells (gt_merged_uncorrected_hist_v2 t)
      = sum_list (map (\<lambda>p. snapshot_cells (pt_uncorrected_hist p)) ps)"
    using merged_uncorrected.count_fold [OF agg_init_ok(1) assms(1)] any(2) no(2)
    by (cases "ag_uncorrected_any ?a") (auto simp: t wire ok agg_init_ok empty no_snapshots)
qed

end

interpretation exact: hdr_library exact_hdr sorted mset unat
  by unfold_locales (rule exact_hdr_laws)

section \<open>The order of the workers does not matter\<close>

lemma f64_min_left_commute:
  assumes "x \<noteq> NaN" "y \<noteq> NaN"
  shows "f64_min (f64_min c x) y = f64_min (f64_min c y) x"
  using assms by (cases c; cases x; cases y) (auto simp: f64_min_def)

lemma keep_min_commute:
  assumes "a \<noteq> Some NaN" "b \<noteq> Some NaN"
  shows "keep_min (keep_min c a) b = keep_min (keep_min c b) a"
proof (cases c)
  case None
  then show ?thesis
    using assms f64_min_left_commute [of "the a" "the b" "the b"]
    by (cases a; cases b) (auto simp: keep_min_def f64_min_def elim: less_f64.elims)
next
  case (Some d)
  then show ?thesis
    using assms f64_min_left_commute [of "the a" "the b" d] by (cases a; cases b) (auto simp: keep_min_def)
qed

lemma fold_onset: "ag_onset (fold (agg_partial L) ps a) = fold (\<lambda>p c. keep_min c (partial_onset p)) ps (ag_onset a)"
  by (induction ps arbitrary: a) (simp_all add: agg_partial_def split: prod.split)

lemma fold_rps:
  assumes "\<forall>p\<in>set ps. pt_achieved_rps p = Fin (of_nat (rate p))" "ag_rps a = Fin (of_nat m)"
    and "m + sum_list (map rate ps) \<le> 2 ^ 53"
  shows "ag_rps (fold (agg_partial L) ps a) = Fin (of_nat (m + sum_list (map rate ps)))"
  using assms
proof (induction ps arbitrary: a m)
  case (Cons p ps)
  have "mk64 (of_int (int (m + rate p))) = Fin (of_int (int (m + rate p)))"
    using Cons.prems(3) by (intro mk64_int) simp
  then have "ag_rps (agg_partial L p a) = Fin (of_nat (m + rate p))"
    using Cons.prems(1,2) by (simp add: agg_partial_def split: prod.split)
  then show ?case
    using Cons.IH [of "agg_partial L p a" "m + rate p"] Cons.prems(1,3) by (simp add: add.assoc)
qed simp

lemma fold_this:
  assumes "mset ps = mset qs"
  shows "ag_this (fold (agg_partial L) ps a) = ag_this (fold (agg_partial L) qs a)"
  by (rule this_tick_eqI) (rule seconds.count_perm [OF TrueI _ assms], simp)

lemma fold_onset_perm:
  assumes "mset ps = mset qs" "\<forall>p\<in>set ps. partial_onset p \<noteq> Some NaN"
  shows "ag_onset (fold (agg_partial L) ps a) = ag_onset (fold (agg_partial L) qs a)"
proof -
  have "fold (\<lambda>p c. keep_min c (partial_onset p)) ps = fold (\<lambda>p c. keep_min c (partial_onset p)) qs"
    by (rule fold_multiset_equiv [OF _ assms(1)]) (use assms(2) keep_min_commute in \<open>auto simp: fun_eq_iff\<close>)
  then show ?thesis by (simp add: fold_onset)
qed

context hdr_library
begin

lemma merged_perm:
  assumes "mset ps = mset qs" "\<forall>p\<in>set ps. good_partial p"
  shows "hdr_quantile L (ag_hist (fold (agg_partial L) ps (agg_init L)))
      = hdr_quantile L (ag_hist (fold (agg_partial L) qs (agg_init L)))"
    and "ag_any (fold (agg_partial L) ps (agg_init L)) = ag_any (fold (agg_partial L) qs (agg_init L))"
proof -
  have sets: "set qs = set ps" using assms(1) by (metis mset_eq_setD)
  have good: "\<forall>p\<in>set qs. good_partial p" using assms(2) by (simp add: sets)
  note init = agg_init_ok(1)
  have "ok (ag_hist (fold (agg_partial L) ps (agg_init L)))" "ok (ag_hist (fold (agg_partial L) qs (agg_init L)))"
    using merged.inv_fold [OF init assms(2)] merged.inv_fold [OF init good] by (simp_all add: agg_ok_def)
  then show "hdr_quantile L (ag_hist (fold (agg_partial L) ps (agg_init L)))
      = hdr_quantile L (ag_hist (fold (agg_partial L) qs (agg_init L)))"
    using merged.count_perm [OF init assms(2,1)] by (rule hdr_quantileD [OF laws])
  show "ag_any (fold (agg_partial L) ps (agg_init L)) = ag_any (fold (agg_partial L) qs (agg_init L))"
    using agg_any(1) [OF init assms(2)] agg_any(1) [OF init good] by (simp add: sets)
qed

end

text \<open>The serialised histograms are compared by what they decode to; the rest of a tick as it is.\<close>

definition without_hists :: "aggregated_tick \<Rightarrow> aggregated_tick" where
  "without_hists t = t\<lparr>gt_merged_hist_v2 := [], gt_merged_uncorrected_hist_v2 := []\<rparr>"

text \<open>C35. The tick of a second does not depend on the order in which the hash map yields the workers: counts, rate, onset,
  bucket, percentiles and running totals are the same for every order, given rates that are whole numbers (as the
  workers send them) and sum to at most \<open>2 ^ 53\<close>.\<close>

theorem aggregation_ignores_order:
  assumes "hdr_laws L ok cells cell" "mset ps = mset qs"
    and "\<forall>p\<in>set ps. hdr_library.good_partial L ok p"
    and "\<forall>p\<in>set ps. partial_onset p \<noteq> Some NaN"
    and "\<forall>p\<in>set ps. pt_achieved_rps p = Fin (of_nat (rate p))" "sum_list (map rate ps) \<le> 2 ^ 53"
  shows "without_hists (fst (aggregate_tick L n ps cum)) = without_hists (fst (aggregate_tick L n qs cum))
    \<and> snd (aggregate_tick L n ps cum) = snd (aggregate_tick L n qs cum)"
proof -
  have lib: "hdr_library L ok cells cell" by (rule hdr_library.intro [OF assms(1)])
  let ?a = "fold (agg_partial L) ps (agg_init L)" and ?b = "fold (agg_partial L) qs (agg_init L)"
  have sets: "set qs = set ps" using assms(2) by (metis mset_eq_setD)
  have quant: "hdr_quantile L (ag_hist ?a) = hdr_quantile L (ag_hist ?b)" and any: "ag_any ?a = ag_any ?b"
    using hdr_library.merged_perm [OF lib assms(2,3)] by simp_all
  have counts: "ag_this ?a = ag_this ?b" by (rule fold_this [OF assms(2)])
  have onset: "ag_onset ?a = ag_onset ?b" by (rule fold_onset_perm [OF assms(2,4)])
  have zero: "ag_rps (agg_init L) = Fin (of_nat 0)" by (simp add: agg_init_def)
  have sums: "sum_list (map rate qs) = sum_list (map rate ps)" using assms(2) by (metis mset_map sum_mset_sum_list)
  have rps: "ag_rps ?a = ag_rps ?b"
    using fold_rps [OF assms(5) zero, of L] fold_rps [of qs rate "agg_init L" 0 L] zero assms(5,6) sums
    by (simp add: sets)
  show ?thesis by (simp add: without_hists_def aggregate_tick_def Let_def quant any counts onset rps)
qed

definition demo_partial :: "string \<Rightarrow> u64 \<Rightarrow> u64 \<Rightarrow> bytes \<Rightarrow> partial" where
  "demo_partial w n cnt hist =
     (empty_final_partial w n)
       \<lparr>pt_final := False, pt_corrected_hist := hist, pt_achieved_rps := Fin (of_nat (unat cnt)),
        pt_buckets := [rps_bucket_of (tick_bucket (of_u64 cnt) (zero_tick\<lparr>tt_total := cnt, tt_pass := cnt\<rparr>))]\<rparr>"

lemma demo_partial_simps [simp]:
  "pt_final (demo_partial w n t h) = False" "pt_tick (demo_partial w n t h) = n"
  "pt_corrected_hist (demo_partial w n t h) = h" "pt_uncorrected_hist (demo_partial w n t h) = []"
  "pt_achieved_rps (demo_partial w n t h) = Fin (of_nat (unat t))" "partial_onset (demo_partial w n t h) = None"
  "partial_count None (demo_partial w n t h) = t"
  by (simp_all add: demo_partial_def empty_final_partial_def partial_onset_def partial_count_def rps_bucket_of_def
      tick_bucket_def Let_def)

lemma demo_partial_good: "sorted h \<Longrightarrow> exact.good_partial (demo_partial w n t (serialize_v2 exact_hdr h))"
  by (auto simp: exact.good_partial_def exact.snapshot_def)

theorem aggregation_ignores_order_witness:
  "let a = demo_partial ''a'' 1 30 (serialize_v2 exact_hdr [5]); b = demo_partial ''b'' 1 40 (serialize_v2 exact_hdr [7]) in
   gt_percentiles (fst (aggregate_tick exact_hdr 1 [a, b] \<lparr> at_completed = 0, at_pass = 0, at_fail_status = 0 \<rparr>))
   = gt_percentiles (fst (aggregate_tick exact_hdr 1 [b, a] \<lparr> at_completed = 0, at_pass = 0, at_fail_status = 0 \<rparr>))"
proof -
  let ?a = "demo_partial ''a'' 1 30 (serialize_v2 exact_hdr [5])" and ?b = "demo_partial ''b'' 1 40 (serialize_v2 exact_hdr [7])"
  let ?rate = "\<lambda>p. if p = ?a then 30 else 40 :: nat"
  have distinct: "?a \<noteq> ?b" by (rule notI, drule arg_cong [of _ _ "partial_count None"]) simp
  have "\<forall>p\<in>set [?a, ?b]. exact.good_partial p" by (simp add: demo_partial_good)
  moreover have "mset [?a, ?b] = mset [?b, ?a]" "\<forall>p\<in>set [?a, ?b]. partial_onset p \<noteq> Some NaN"
    "\<forall>p\<in>set [?a, ?b]. pt_achieved_rps p = Fin (of_nat (?rate p))" "sum_list (map ?rate [?a, ?b]) \<le> 2 ^ 53"
    using distinct by simp_all
  ultimately have "without_hists (fst (aggregate_tick exact_hdr 1 [?a, ?b] \<lparr> at_completed = 0, at_pass = 0, at_fail_status = 0 \<rparr>))
      = without_hists (fst (aggregate_tick exact_hdr 1 [?b, ?a] \<lparr> at_completed = 0, at_pass = 0, at_fail_status = 0 \<rparr>))"
    using aggregation_ignores_order [OF exact_hdr_laws, of "[?a, ?b]" "[?b, ?a]" ?rate] by blast
  from arg_cong [OF this, of gt_percentiles] show ?thesis by (simp add: without_hists_def)
qed

text \<open>C19. The percentiles of the fleet are those of all responses: the histograms an aggregated tick ships decode to the sum
  of the workers' histograms of that second, cell by cell, so merging over the network loses nothing.\<close>

theorem merged_hist_lossless:
  assumes "hdr_laws L ok cells cell" "\<forall>p\<in>set ps. hdr_library.good_partial L ok p"
    and "aggregate_tick L n ps cum = (t, cum')"
  shows "hdr_library.snapshot_cells L cells (gt_merged_hist_v2 t)
        = sum_list (map (\<lambda>p. hdr_library.snapshot_cells L cells (pt_corrected_hist p)) ps)
    \<and> hdr_library.snapshot_cells L cells (gt_merged_uncorrected_hist_v2 t)
        = sum_list (map (\<lambda>p. hdr_library.snapshot_cells L cells (pt_uncorrected_hist p)) ps)"
  using hdr_library.merged_bytes [OF hdr_library.intro [OF assms(1)] assms(2,3)] by blast

theorem merged_hist_lossless_witness:
  "let a = demo_partial ''a'' 1 30 (serialize_v2 exact_hdr [5]); b = demo_partial ''b'' 1 40 (serialize_v2 exact_hdr [7, 9]);
       t = fst (aggregate_tick exact_hdr 1 [a, b] \<lparr> at_completed = 0, at_pass = 0, at_fail_status = 0 \<rparr>)
   in exact.snapshot_cells (gt_merged_hist_v2 t) = {#5, 7, 9#}"
proof -
  let ?a = "demo_partial ''a'' 1 30 (serialize_v2 exact_hdr [5])" and ?b = "demo_partial ''b'' 1 40 (serialize_v2 exact_hdr [7, 9])"
  have "\<forall>p\<in>set [?a, ?b]. exact.good_partial p" by (simp add: demo_partial_good)
  from merged_hist_lossless [OF exact_hdr_laws this surjective_pairing, THEN conjunct1] show ?thesis
    by (simp add: exact.snapshot_wire Let_def)
qed

section \<open>The accounting of a dispatch\<close>

lemma finished_stream: "ws_finished (fold take_partial ps s) \<longleftrightarrow> ws_finished s \<or> (\<exists>p\<in>set ps. pt_final p)"
  by (induction ps arbitrary: s) (auto simp: take_partial_def)

lemma run_one_worker_finished:
  "ws_finished (fst (run_one_worker stream)) \<longleftrightarrow> (\<exists>es. stream = Some es \<and> (\<exists>p\<in>set (partials_of es). pt_final p))"
  by (cases stream) (simp_all add: run_one_worker_def finished_stream worker_summary_default_def)

lemma run_one_worker_counts:
  "tick_count k (ws_counts (fst (run_one_worker stream))) = sum_list (map (partial_count k) (snd (run_one_worker stream)))"
  by (cases stream)
    (simp_all add: run_one_worker_def partials.count_fold worker_summary_default_def tick_count_zero)

text \<open>The joined workers change the number of finished workers, the totals and the onset only.\<close>

lemma take_summary_frame:
  "dm_workers_dispatched (fold take_summary xs s) = dm_workers_dispatched s \<and> dm_warnings (fold take_summary xs s) = dm_warnings s
   \<and> dm_workers_lost (fold take_summary xs s) = dm_workers_lost s"
proof (induction xs arbitrary: s)
  case (Cons x xs)
  then show ?case by (cases x) simp_all
qed simp

lemma sum_list_indicator: "sum_list (map (\<lambda>x. if P x then 1 else 0) xs) = length (filter P xs)"
  by (induction xs) simp_all

lemma joined_finished:
  assumes "mset joined = mset (map (\<lambda>x. Some (fst (run_one_worker x))) streams)"
  shows "dm_workers_finished (fold take_summary joined (summary_init n))
    = length (filter (\<lambda>x. \<exists>es. x = Some es \<and> (\<exists>p\<in>set (partials_of es). pt_final p)) streams)"
proof -
  let ?xs = "map (\<lambda>x. Some (fst (run_one_worker x))) streams"
  have "dm_workers_finished (fold take_summary joined (summary_init n))
      = dm_workers_finished (fold take_summary ?xs (summary_init n))"
    by (rule finishes.count_perm [OF TrueI _ assms]) simp
  also have "\<dots> = length (filter (\<lambda>x. ws_finished (fst (run_one_worker x))) streams)"
    by (simp add: finishes.count_fold summary_init_def comp_def sum_list_indicator del: fold_map)
  finally show ?thesis by (simp only: run_one_worker_finished)
qed

lemma joined_counts:
  assumes "mset joined = mset (map (\<lambda>x. Some (fst (run_one_worker x))) streams)"
  shows "tick_count k (dm_totals (fold take_summary joined (summary_init n)))
    = sum_list (map (\<lambda>x. sum_list (map (partial_count k) (snd (run_one_worker x)))) streams)"
proof -
  let ?xs = "map (\<lambda>x. Some (fst (run_one_worker x))) streams"
  have "tick_count k (dm_totals (fold take_summary joined (summary_init n)))
      = tick_count k (dm_totals (fold take_summary ?xs (summary_init n)))"
    by (rule joins.count_perm [OF TrueI _ assms]) simp
  also have "\<dots> = sum_list (map (\<lambda>x. sum_list (map (partial_count k) (snd (run_one_worker x)))) streams)"
    by (simp add: joins.count_fold summary_init_def tick_count_zero comp_def run_one_worker_counts del: fold_map)
  finally show ?thesis .
qed

lemma runs_wf_run: "hm_wf (co_runs st) \<Longrightarrow> hm_wf (co_runs (co_run es st))"
proof (induction es arbitrary: st)
  case (Cons e es)
  have "hm_wf (co_runs (co_step e st))"
    using Cons.prems
    by (cases e) (auto simp: co_register_def co_heartbeat_def reap_dead_workers_def register_run_def deregister_run_def
        abort_run_def Let_def hm.inv_insert hm.inv_remove split: option.split)
  then show ?case using Cons.IH by simp
qed simp

text \<open>C15. A dispatch accounts for every worker and every response: in whatever order the worker tasks are joined, a worker
  counts as finished exactly if its stream delivered the final partial, finished and lost add up to the dispatched ones
  and there is a warning exactly if some are lost (unless the run's token was cancelled when it was read); the totals are the sums over all
  partials that arrived, also those of lost workers; and the run is no longer registered.\<close>

theorem dispatch_accounts_for_workers:
  assumes "mset joined = mset (map (\<lambda>x. Some (fst (run_one_worker x))) streams)" "hm_wf (co_runs st)"
    and "dispatch_finish spec (length streams) joined token late st = (s, st')"
  shows "dm_workers_dispatched s = length streams
    \<and> dm_workers_finished s = length (filter (\<lambda>x. \<exists>es. x = Some es \<and> (\<exists>p\<in>set (partials_of es). pt_final p)) streams)
    \<and> (if token \<in> set (co_cancelled st) then dm_aborted s \<and> dm_workers_lost s = 0 \<and> dm_warnings s = []
       else \<not> dm_aborted s \<and> dm_workers_finished s + dm_workers_lost s = length streams
          \<and> (dm_warnings s = [] \<longleftrightarrow> dm_workers_lost s = 0))
    \<and> tick_count k (dm_totals s) = sum_list (map (partial_count k) (concat (map (\<lambda>x. snd (run_one_worker x)) streams)))
    \<and> \<not> is_run_active (ds_run_id spec) st'"
proof -
  let ?f = "fold take_summary joined (summary_init (length streams))"
  note fin = joined_finished [OF assms(1), of "length streams"]
  have le: "dm_workers_finished ?f \<le> length streams" unfolding fin by (rule length_filter_le)
  have "sum_list (map (\<lambda>x. sum_list (map (partial_count k) (snd (run_one_worker x)))) streams)
      = sum_list (map (partial_count k) (concat (map (\<lambda>x. snd (run_one_worker x)) streams)))"
    by (induction streams) simp_all
  note counts = joined_counts [OF assms(1), of k "length streams", unfolded this]
  have frame: "dm_workers_dispatched ?f = length streams" "dm_warnings ?f = []" "dm_workers_lost ?f = 0"
    using take_summary_frame [of joined "summary_init (length streams)"] by (simp_all add: summary_init_def)
  have gone: "\<not> is_run_active (ds_run_id spec) st'"
    using runs_wf_run [OF assms(2), of late] assms(3)
    by (auto simp: dispatch_finish_def Let_def is_run_active_def deregister_run_def hm.get_remove)
  show ?thesis
    using assms(3) le counts frame gone
    by (auto simp: dispatch_finish_def dispatch_account_def Let_def fin [symmetric] split: if_splits)
qed

theorem dispatch_accounts_for_workers_witness:
  "\<exists>s st'. dispatch_finish demo_dispatch 2
       [Some (fst (run_one_worker None)),
        Some (fst (run_one_worker (Some [Some (KPartial (demo_partial ''a'' 1 30 [])), Some (KPartial (empty_final_partial ''a'' 2))])))]
       7 [] coordinator_new = (s, st')
     \<and> dm_workers_finished s = 1 \<and> dm_workers_lost s = 1 \<and> dm_warnings s \<noteq> [] \<and> tt_total (dm_totals s) = 30"
proof -
  let ?es = "[Some (KPartial (demo_partial ''a'' 1 30 [])), Some (KPartial (empty_final_partial ''a'' 2))]"
  let ?joined = "[Some (fst (run_one_worker None)), Some (fst (run_one_worker (Some ?es)))]"
  obtain s st' where r: "dispatch_finish demo_dispatch (length [Some ?es, None]) ?joined 7 [] coordinator_new = (s, st')"
    by fastforce
  have "mset ?joined = mset (map (\<lambda>x. Some (fst (run_one_worker x))) [Some ?es, None])" by simp
  moreover have "hm_wf (co_runs coordinator_new)" by (simp add: coordinator_new_def hm.inv_empty)
  moreover have "7 \<notin> set (co_cancelled coordinator_new)" by (simp add: coordinator_new_def)
  moreover have "partials_of ?es = [demo_partial ''a'' 1 30 [], empty_final_partial ''a'' 2]" by simp
  moreover have "pt_final (empty_final_partial ''a'' 2)" "partial_count None (empty_final_partial ''a'' 2) = 0"
    by (simp_all add: empty_final_partial_def partial_count_def)
  ultimately show ?thesis
    using dispatch_accounts_for_workers [OF _ _ r, where k = None] r
    by (intro exI [of _ s] exI [of _ st']) (simp add: run_one_worker_def numeral_2_eq_2)
qed

text \<open>C34. Starting a dispatch: without workers it is refused and nothing changes. Otherwise every registered worker is
  dialled exactly once, at its own address, with an assignment for the run that carries its own id, the n-th part of
  the rate and the common start time; the run is registered before the first assignment is sent, so an abort
  reaches exactly the workers that were dialled.\<close>

theorem dispatch_reaches_every_worker:
  assumes "co_inv st" "dispatch_begin spec now token st = (r, st')"
  shows "case r of
      Inl NoWorkers \<Rightarrow> co_workers st = [] \<and> st' = st
    | Inr calls \<Rightarrow> length calls = length (co_workers st) \<and> calls \<noteq> []
        \<and> distinct (map (\<lambda>(_, w, _). w) calls)
        \<and> (\<forall>(u, w, a)\<in>set calls. \<exists>x. hm_get (co_workers st) w = Some x \<and> u = worker_url (wk_address x)
             \<and> asg_worker_id a = w \<and> asg_run_id a = ds_run_id spec
             \<and> asg_throughput a = ds_target_rps spec / of_u64 (of_nat (length calls))
             \<and> asg_epoch_unix_us a = (if ds_epoch_unix_us spec \<noteq> 0 then ds_epoch_unix_us spec else now))
        \<and> (\<exists>st'' sent. abort_run (ds_run_id spec) st' = (True, st'', sent) \<and> token \<in> set (co_cancelled st'')
             \<and> map fst sent = map fst calls)"
proof (cases "co_workers st = []")
  case True
  then show ?thesis using assms(2) by (auto simp: dispatch_begin_def list_workers_def hm_values_def)
next
  case False
  let ?ws = "co_workers st"
  have ids: "wk_worker_id (snd kw) = fst kw" "hm_get ?ws (fst kw) = Some (snd kw)" if "kw \<in> set ?ws" for kw
    using hm_get_in [OF co_invD(1) [OF assms(1)], of "fst kw" "snd kw"] that co_invD(3) [OF assms(1), of "fst kw" "snd kw"]
    by (auto simp: worker_ok_def)
  have "map (wk_worker_id \<circ> snd) ?ws = map fst ?ws" using ids(1) by simp
  then have distinct: "distinct (map (wk_worker_id \<circ> snd) ?ws)"
    using co_invD(1) [OF assms(1)] by (simp add: hm_wf_def del: map_eq_conv)
  have active: "hm_get (co_runs st') (ds_run_id spec) = Some \<lparr> rh_worker_addrs = map wk_address (hm_values ?ws), rh_cancel = token \<rparr>"
    and r: "r = Inr (map (\<lambda>w. (worker_url (wk_address w), wk_worker_id w, build_assignment spec (wk_worker_id w)
               (ds_target_rps spec / of_u64 (of_nat (length ?ws)))
               (if ds_epoch_unix_us spec \<noteq> 0 then ds_epoch_unix_us spec else now))) (hm_values ?ws))"
    using assms(2) False co_invD(2) [OF assms(1)]
    by (auto simp: dispatch_begin_def Let_def list_workers_def hm_values_def register_run_def hm.get_insert per_worker_rps_def)
  show ?thesis
    using False distinct ids active
    by (auto simp: r hm_values_def comp_def build_assignment_def abort_run_def fan_out_aborts_def)
qed

theorem dispatch_reaches_every_worker_witness:
  "\<exists>a st'. dispatch_begin demo_dispatch 5 9 demo_coordinator = (Inr [(''http://10.0.0.1:7001'', ''w1'', a)], st')
     \<and> asg_worker_id a = ''w1'' \<and> asg_epoch_unix_us a = 5 \<and> fst (abort_run ''r1'' st')"
proof -
  have ws: "co_workers demo_coordinator = [(''w1'', \<lparr> wk_worker_id = ''w1'', wk_address = ''10.0.0.1:7001'',
       wk_contract_version = ''1.0.0'', wk_max_rps = 0, wk_registered_at = 0, wk_last_heartbeat = 0 \<rparr>)]"
    by (simp add: demo_coordinator_def co_register_def demo_info_def CONTRACT_VERSION_def coordinator_new_def hm_insert_def)
  then obtain calls st' where c: "dispatch_begin demo_dispatch 5 9 demo_coordinator = (Inr calls, st')"
    "map fst calls = [''http://10.0.0.1:7001'']"
    by (auto simp: dispatch_begin_def Let_def list_workers_def hm_values_def worker_url_def)
  from c(2) obtain w a where calls: "calls = [(''http://10.0.0.1:7001'', w, a)]" by (cases calls) auto
  show ?thesis
    using dispatch_reaches_every_worker [OF demo_registered(1) c(1)] c(1)
    by (auto simp: calls ws hm_get_def demo_dispatch_def split: if_splits)
qed

end
