(* ===== verification/Fleet.thy ===== *)
theory Fleet
  imports Dispatch
begin

text \<open>
  The fleet as a whole: the engines of \<open>Worker_Run\<close>, the event streams of \<open>Worker_Node\<close> and the aggregation loop and the
  accounting of \<open>Dispatch\<close> put together. The partials of different workers reach the aggregator in any interleaving.
\<close>

section \<open>What has arrived\<close>

text \<open>The non-final partials of one worker, in order of arrival; a worker numbers them from one.\<close>

definition arrived :: "string \<Rightarrow> (string \<times> partial) list \<Rightarrow> partial list" where
  "arrived w msgs = map snd (filter (\<lambda>(v, p). v = w \<and> \<not> pt_final p) msgs)"

definition numbered :: "string list \<Rightarrow> (string \<times> partial) list \<Rightarrow> bool" where
  "numbered ws msgs \<longleftrightarrow> fst ` set msgs \<subseteq> set ws
     \<and> (\<forall>w i. i < length (arrived w msgs) \<longrightarrow> unat (pt_tick (arrived w msgs ! i)) = Suc i)"

definition row :: "string list \<Rightarrow> (string \<times> partial) list \<Rightarrow> nat \<Rightarrow> string \<Rightarrow> partial option" where
  "row ws msgs i w =
     (if w \<in> set ws \<and> i < length (arrived w msgs) then Some (arrived w msgs ! i) else None)"

lemma arrived_Nil [simp]: "arrived w [] = []"
  by (simp add: arrived_def)

lemma arrived_snoc:
  "arrived v (msgs @ [(w, p)]) = (if v = w \<and> \<not> pt_final p then arrived v msgs @ [p] else arrived v msgs)"
  by (auto simp: arrived_def)

lemma numbered_snoc:
  assumes "numbered ws (msgs @ [(w, p)])"
  shows "numbered ws msgs" "w \<in> set ws" "\<not> pt_final p \<Longrightarrow> unat (pt_tick p) = Suc (length (arrived w msgs))"
proof -
  have all: "unat (pt_tick (arrived v (msgs @ [(w, p)]) ! i)) = Suc i" if "i < length (arrived v (msgs @ [(w, p)]))" for v i
    using assms that by (simp add: numbered_def)
  have "unat (pt_tick (arrived v msgs ! i)) = Suc i" if "i < length (arrived v msgs)" for v i
    using all [of i v] that by (cases "v = w \<and> \<not> pt_final p") (auto simp: arrived_snoc nth_append)
  then show "numbered ws msgs" using assms by (simp add: numbered_def)
  show "w \<in> set ws" using assms by (simp add: numbered_def)
  show "unat (pt_tick p) = Suc (length (arrived w msgs))" if "\<not> pt_final p"
    using all [of "length (arrived w msgs)" w] that by (simp add: arrived_snoc)
qed

lemma row_snoc:
  assumes "w \<in> set ws" "\<not> pt_final p"
  shows "row ws (msgs @ [(w, p)]) i = (if i = length (arrived w msgs) then (row ws msgs i)(w \<mapsto> p) else row ws msgs i)"
  using assms by (auto simp: row_def arrived_snoc nth_append fun_eq_iff)

lemma row_final: "pt_final p \<Longrightarrow> row ws (msgs @ [(w, p)]) = row ws msgs"
  by (simp add: row_def arrived_snoc fun_eq_iff)

text \<open>The running totals of the fleet before second \<open>i\<close>.\<close>

definition second_count :: "verdict option \<Rightarrow> string list \<Rightarrow> (string \<times> partial) list \<Rightarrow> nat \<Rightarrow> u64" where
  "second_count k ws msgs i = sum_list (map (\<lambda>w. partial_count k (arrived w msgs ! i)) ws)"

definition fleet_totals :: "string list \<Rightarrow> (string \<times> partial) list \<Rightarrow> nat \<Rightarrow> agg_totals" where
  "fleet_totals ws msgs i =
     \<lparr> at_completed = sum_list (map (second_count None ws msgs) [0..<i]),
       at_pass = sum_list (map (second_count (Some Pass) ws msgs) [0..<i]),
       at_fail_status = sum_list (map (second_count (Some FailStatus) ws msgs) [0..<i]) \<rparr>"

lemma arrived_stable:
  "i < length (arrived v msgs) \<Longrightarrow> arrived v (msgs @ [m]) ! i = arrived v msgs ! i"
  by (cases m) (auto simp: arrived_snoc nth_append)

lemma second_count_stable:
  "\<forall>v\<in>set ws. i < length (arrived v msgs) \<Longrightarrow> second_count k ws (msgs @ [m]) i = second_count k ws msgs i"
  unfolding second_count_def by (intro arg_cong [where f = sum_list] map_cong refl) (simp add: arrived_stable)

lemma fleet_totals_stable:
  assumes "\<forall>v\<in>set ws. i \<le> length (arrived v msgs)"
  shows "fleet_totals ws (msgs @ [m]) i = fleet_totals ws msgs i"
proof -
  have "map (second_count k ws (msgs @ [m])) [0..<i] = map (second_count k ws msgs) [0..<i]" for k
    by (rule map_cong [OF refl]) (use assms in \<open>auto intro!: second_count_stable\<close>)
  then show ?thesis by (simp only: fleet_totals_def)
qed

section \<open>One second of all workers\<close>

text \<open>A tick is the aggregation of the partials of its second, one per worker, in some order.\<close>

definition fleet_tick :: "'h hdr \<Rightarrow> string list \<Rightarrow> (string \<times> partial) list \<Rightarrow> nat \<Rightarrow> aggregated_tick \<Rightarrow> bool" where
  "fleet_tick L ws msgs i t \<longleftrightarrow>
     (\<exists>ps. mset ps = mset (map (\<lambda>w. arrived w msgs ! i) ws)
         \<and> t = fst (aggregate_tick L (of_nat (Suc i)) ps (fleet_totals ws msgs i)))"

lemma fleet_tick_stable:
  assumes "\<forall>v\<in>set ws. i < length (arrived v msgs)" "fleet_tick L ws msgs i t"
  shows "fleet_tick L ws (msgs @ [m]) i t"
proof -
  have "map (\<lambda>w. arrived w (msgs @ [m]) ! i) ws = map (\<lambda>w. arrived w msgs ! i) ws"
    by (rule map_cong [OF refl]) (use assms(1) in \<open>auto intro!: arrived_stable\<close>)
  moreover have "fleet_totals ws (msgs @ [m]) i = fleet_totals ws msgs i"
    using assms(1) by (intro fleet_totals_stable) auto
  ultimately show ?thesis using assms(2) by (simp only: fleet_tick_def)
qed

lemma aggregate_counts:
  "tick_count k (gt_this_tick (fst (aggregate_tick L n ps cum))) = sum_list (map (partial_count k) ps)"
  by (simp add: aggregate_tick_def Let_def seconds.count_fold agg_init_def tick_count_zero)

lemma aggregate_totals:
  "snd (aggregate_tick L n ps cum) =
     \<lparr> at_completed = at_completed cum + sum_list (map (partial_count None) ps),
       at_pass = at_pass cum + sum_list (map (partial_count (Some Pass)) ps),
       at_fail_status = at_fail_status cum + sum_list (map (partial_count (Some FailStatus)) ps) \<rparr>"
  using aggregate_counts [of None L n ps cum] aggregate_counts [of "Some Pass" L n ps cum]
    aggregate_counts [of "Some FailStatus" L n ps cum]
  by (simp add: aggregate_tick_def Let_def)

lemma aggregate_labels:
  "gt_elapsed_s (fst (aggregate_tick L n ps cum)) = n"
  "gt_completed_total (fst (aggregate_tick L n ps cum)) = at_completed (snd (aggregate_tick L n ps cum))"
  "gt_pass_total (fst (aggregate_tick L n ps cum)) = at_pass (snd (aggregate_tick L n ps cum))"
  "gt_fail_status_total (fst (aggregate_tick L n ps cum)) = at_fail_status (snd (aggregate_tick L n ps cum))"
  by (simp_all add: aggregate_tick_def Let_def)

lemma counts_of_second:
  assumes "mset ps = mset (map (\<lambda>w. arrived w msgs ! i) ws)"
  shows "sum_list (map (partial_count k) ps) = second_count k ws msgs i"
proof -
  have "mset (map (partial_count k) ps) = mset (map (\<lambda>w. partial_count k (arrived w msgs ! i)) ws)"
    using arg_cong [OF assms, of "image_mset (partial_count k)"] by (simp add: image_mset.compositionality comp_def)
  then show ?thesis unfolding second_count_def by (metis sum_mset_sum_list)
qed

lemma fleet_totals_Suc:
  assumes "mset ps = mset (map (\<lambda>w. arrived w msgs ! i) ws)"
  shows "snd (aggregate_tick L n ps (fleet_totals ws msgs i)) = fleet_totals ws msgs (Suc i)"
  by (simp add: aggregate_totals counts_of_second [OF assms] fleet_totals_def)

section \<open>The aggregation loop keeps up\<close>

text \<open>
  The invariant of the loop: as many ticks are out as the slowest worker has sent, each the aggregation of its second; what
  is still waiting are the later seconds, each with the partials that have arrived.
\<close>

definition waiting :: "string list \<Rightarrow> (string \<times> partial) list \<Rightarrow> nat \<Rightarrow> (u64 \<times> (string \<times> partial) list) list \<Rightarrow> bool" where
  "waiting ws msgs e m \<longleftrightarrow> hm_wf m
     \<and> (\<forall>k entry. hm_get m k = Some entry \<longrightarrow> e < unat k \<and> hm_wf entry \<and> hm_get entry = row ws msgs (unat k - 1))
     \<and> (\<forall>k. e < unat k \<longrightarrow> hm_get m k = None \<longrightarrow> row ws msgs (unat k - 1) = Map.empty)"

definition slowest :: "string list \<Rightarrow> (string \<times> partial) list \<Rightarrow> nat \<Rightarrow> bool" where
  "slowest ws msgs e \<longleftrightarrow> (\<forall>w\<in>set ws. e \<le> length (arrived w msgs)) \<and> (\<exists>w\<in>set ws. length (arrived w msgs) = e)"

definition agg_inv :: "'h hdr \<Rightarrow> string list \<Rightarrow> (string \<times> partial) list \<Rightarrow> agg_state \<Rightarrow> bool" where
  "agg_inv L ws msgs st \<longleftrightarrow>
     waiting ws msgs (length (al_out st)) (al_per_tick st) \<and> slowest ws msgs (length (al_out st))
   \<and> (\<forall>i<length (al_out st). fleet_tick L ws msgs i (al_out st ! i))
   \<and> al_totals st = fleet_totals ws msgs (length (al_out st))"

lemma agg_inv_init: "ws \<noteq> [] \<Longrightarrow> agg_inv L ws [] agg_state_init"
  by (auto simp: agg_inv_def waiting_def slowest_def agg_state_init_def hm.inv_empty hm.get_empty fleet_totals_def row_def
      fun_eq_iff neq_Nil_conv)

lemma waitingD:
  assumes "waiting ws msgs e m"
  shows "hm_get m k = Some entry \<Longrightarrow> e < unat k \<and> hm_wf entry \<and> hm_get entry = row ws msgs (unat k - 1)"
    and "hm_get m k = None \<Longrightarrow> e < unat k \<Longrightarrow> row ws msgs (unat k - 1) = Map.empty"
    and "hm_wf m"
  using assms unfolding waiting_def by blast+

lemma waitingI:
  assumes "hm_wf m" "\<And>k entry. hm_get m k = Some entry \<Longrightarrow> e < unat k \<and> hm_wf entry \<and> hm_get entry = row ws msgs (unat k - 1)"
    and "\<And>k. hm_get m k = None \<Longrightarrow> e < unat k \<Longrightarrow> row ws msgs (unat k - 1) = Map.empty"
  shows "waiting ws msgs e m"
  using assms unfolding waiting_def by blast

text \<open>The entry of a second after one more partial.\<close>

lemma waiting_entry:
  assumes "waiting ws msgs e m" "w \<in> set ws" "\<not> pt_final p" "unat (pt_tick p) = Suc (length (arrived w msgs))"
    and "e \<le> length (arrived w msgs)"
  defines "entry \<equiv> hm_insert w p (case hm_get m (pt_tick p) of Some e \<Rightarrow> e | None \<Rightarrow> [])"
  shows "hm_wf entry" "hm_get entry = row ws (msgs @ [(w, p)]) (length (arrived w msgs))"
proof -
  let ?old = "case hm_get m (pt_tick p) of Some e \<Rightarrow> e | None \<Rightarrow> []"
  have "hm_wf ?old \<and> hm_get ?old = row ws msgs (length (arrived w msgs))"
  proof (cases "hm_get m (pt_tick p)")
    case None
    then have "row ws msgs (unat (pt_tick p) - 1) = Map.empty"
      using assms(4,5) by (intro waitingD(2) [OF assms(1)]) simp_all
    then show ?thesis using None assms(4) by (simp add: hm.inv_empty hm.get_empty fun_eq_iff)
  next
    case (Some entry)
    then show ?thesis using assms(1,4) by (simp add: waiting_def)
  qed
  then show "hm_wf entry" "hm_get entry = row ws (msgs @ [(w, p)]) (length (arrived w msgs))"
    by (simp_all add: entry_def hm.inv_insert hm.get_insert row_snoc assms(2,3))
qed

lemma entry_complete:
  assumes "hm_wf entry" "hm_get entry = row ws msgs i" "distinct ws"
  shows "length entry = length ws \<longleftrightarrow> (\<forall>w\<in>set ws. i < length (arrived w msgs))"
    and "\<forall>w\<in>set ws. i < length (arrived w msgs) \<Longrightarrow> mset (hm_values entry) = mset (map (\<lambda>w. arrived w msgs ! i) ws)"
proof -
  have dom: "fst ` set entry = {w \<in> set ws. i < length (arrived w msgs)}"
    using assms(2) by (auto simp: hm_get_def row_def fun_eq_iff dom_def simp flip: dom_map_of_conv_image_fst split: if_splits)
  have "length entry = card (fst ` set entry)"
    using assms(1) by (metis hm_wf_def distinct_card length_map list.set_map)
  moreover have "length ws = card (set ws)" using assms(3) by (simp add: distinct_card)
  moreover have "card {w \<in> set ws. i < length (arrived w msgs)} = card (set ws)
      \<longleftrightarrow> {w \<in> set ws. i < length (arrived w msgs)} = set ws"
    by (metis (no_types, lifting) List.finite_set card_subset_eq mem_Collect_eq subsetI)
  ultimately show "length entry = length ws \<longleftrightarrow> (\<forall>w\<in>set ws. i < length (arrived w msgs))" using dom by auto
  show "mset (hm_values entry) = mset (map (\<lambda>w. arrived w msgs ! i) ws)" if "\<forall>w\<in>set ws. i < length (arrived w msgs)"
  proof -
    let ?m = "map (\<lambda>w. (w, arrived w msgs ! i)) ws"
    have "hm_wf ?m" using assms(3) by (simp add: hm_wf_def comp_def)
    moreover have "hm_get ?m = hm_get entry"
      using that assms(2) by (auto simp: hm_get_def row_def fun_eq_iff map_of_map_restrict restrict_map_def comp_def)
    ultimately have "mset (hm_values entry) = mset (hm_values ?m)" using assms(1) by (intro hm_values_perm) simp_all
    then show ?thesis by (simp add: hm_values_def comp_def)
  qed
qed

lemma slowest_snoc:
  assumes "slowest ws msgs e" "w \<in> set ws" "\<not> pt_final p"
  shows "slowest ws (msgs @ [(w, p)])
    (if \<forall>v\<in>set ws. length (arrived w msgs) < length (arrived v (msgs @ [(w, p)])) then Suc e else e)"
    (is "slowest ws ?msgs _")
proof (cases "\<forall>v\<in>set ws. length (arrived w msgs) < length (arrived v ?msgs)")
  case True
  moreover obtain u where u: "u \<in> set ws" "length (arrived u msgs) = e" using assms(1) by (auto simp: slowest_def)
  moreover have "e \<le> length (arrived w msgs)" using assms(1,2) by (simp add: slowest_def)
  ultimately have "u = w" by (metis arrived_snoc leD)
  then show ?thesis
    using True u assms(2,3) by (force simp: slowest_def arrived_snoc)
next
  case False
  then obtain v where v: "v \<in> set ws" "v \<noteq> w" "length (arrived v msgs) \<le> length (arrived w msgs)"
    using assms(3) by (auto simp: arrived_snoc split: if_splits)
  have "\<exists>u\<in>set ws. u \<noteq> w \<and> length (arrived u msgs) = e"
    using assms(1) v by (auto simp: slowest_def) (metis le_antisym)
  then have "slowest ws ?msgs e" using assms(1) by (force simp: slowest_def arrived_snoc)
  then show ?thesis using False by (simp only: if_False)
qed

lemma agg_inv_step:
  assumes inv: "agg_inv L ws msgs st" and num: "numbered ws (msgs @ [(w, p)])" and ws: "distinct ws"
    and order: "\<And>xs. mset (order xs) = mset xs"
  shows "agg_inv L ws (msgs @ [(w, p)]) (agg_message L (length ws) order (w, p) st)"
proof (cases "pt_final p")
  case True
  then have same: "arrived v (msgs @ [(w, p)]) = arrived v msgs" for v by (simp add: arrived_snoc)
  then have "second_count k ws (msgs @ [(w, p)]) = second_count k ws msgs" for k by (simp add: second_count_def fun_eq_iff)
  then show ?thesis
    using inv True same row_final [OF True]
    by (simp add: agg_inv_def agg_message_def waiting_def slowest_def fleet_tick_def fleet_totals_def)
next
  case final: False
  let ?msgs = "msgs @ [(w, p)]" and ?i = "length (arrived w msgs)" and ?e = "length (al_out st)"
  note w = numbered_snoc(2) [OF num] and tick = numbered_snoc(3) [OF num final]
  have wait: "waiting ws msgs ?e (al_per_tick st)" and slow: "slowest ws msgs ?e"
    and outs: "\<forall>i<?e. fleet_tick L ws msgs i (al_out st ! i)" and tot: "al_totals st = fleet_totals ws msgs ?e"
    using inv by (simp_all add: agg_inv_def)
  have le: "?e \<le> length (arrived v msgs)" if "v \<in> set ws" for v using slow that by (simp add: slowest_def)
  define entry where "entry = hm_insert w p (case hm_get (al_per_tick st) (pt_tick p) of Some e \<Rightarrow> e | None \<Rightarrow> [])"
  note entry = waiting_entry [OF wait w final tick le [OF w], folded entry_def]
  note full = entry_complete [OF entry ws]
  have outs': "\<forall>i<?e. fleet_tick L ws ?msgs i (al_out st ! i)"
    using outs le by (fastforce intro!: fleet_tick_stable)
  have tot': "al_totals st = fleet_totals ws ?msgs ?e"
    using tot le fleet_totals_stable [of ws ?e msgs "(w, p)"] by simp
  have key: "unat k - 1 = ?i \<longleftrightarrow> k = pt_tick p" if "?e < unat k" for k :: u64
    using that tick by (auto simp: word_unat_eq_iff)
  show ?thesis
  proof (cases "\<forall>v\<in>set ws. ?i < length (arrived v ?msgs)")
    case True
    have slow': "slowest ws ?msgs (Suc ?e)" using slowest_snoc [OF slow w final] True by simp
    have ie: "?i = ?e"
    proof -
      have "Suc ?e \<le> length (arrived w ?msgs)" using slow' w by (simp add: slowest_def)
      obtain u where "u \<in> set ws" "length (arrived u ?msgs) = Suc ?e" using slow' by (auto simp: slowest_def)
      then show ?thesis using True le [OF w] by fastforce
    qed
    let ?ps = "order (hm_values entry)"
    have ps: "mset ?ps = mset (map (\<lambda>w. arrived w ?msgs ! ?e) ws)" using order full(2) [OF True] by (simp add: ie)
    define t where "t = fst (aggregate_tick L (pt_tick p) ?ps (al_totals st))"
    have num': "pt_tick p = of_nat (Suc ?e)" by (metis tick ie of_nat_unat ucast_id)
    have t: "fleet_tick L ws ?msgs ?e t" using ps unfolding fleet_tick_def t_def num' tot' by blast
    have cum: "snd (aggregate_tick L (pt_tick p) ?ps (al_totals st)) = fleet_totals ws ?msgs (Suc ?e)"
      unfolding tot' by (rule fleet_totals_Suc [OF ps])
    have st': "agg_message L (length ws) order (w, p) st =
        \<lparr> al_per_tick = hm_remove (pt_tick p) (al_per_tick st), al_totals = fleet_totals ws ?msgs (Suc ?e),
          al_out = al_out st @ [t] \<rparr>"
      using full(1) True final cum by (auto simp: agg_message_def t_def simp flip: entry_def split: prod.split)
    have "waiting ws ?msgs (Suc ?e) (hm_remove (pt_tick p) (al_per_tick st))"
      using wait tick key ie
      by (auto simp: waiting_def hm.inv_remove hm.get_remove row_snoc w final split: if_splits)
        (metis Suc_lessI Suc_lessD diff_Suc_1 word_unat_eq_iff)+
    then show ?thesis
      using slow' outs' t by (simp add: agg_inv_def st' nth_append less_Suc_eq)
  next
    case False
    have slow': "slowest ws ?msgs ?e" using slowest_snoc [OF slow w final] False by simp
    have st': "agg_message L (length ws) order (w, p) st = st\<lparr>al_per_tick := hm_insert (pt_tick p) entry (al_per_tick st)\<rparr>"
      using full(1) False final by (simp add: agg_message_def flip: entry_def)
    have "waiting ws ?msgs ?e (hm_insert (pt_tick p) entry (al_per_tick st))"
      using wait entry tick key le [OF w]
      by (auto simp: waiting_def hm.inv_insert hm.get_insert row_snoc w final split: if_splits)
    then show ?thesis using slow' outs' tot' by (simp add: agg_inv_def st')
  qed
qed

lemma agg_inv_run:
  assumes "numbered ws msgs" "distinct ws" "ws \<noteq> []" "\<And>xs. mset (order xs) = mset xs"
  shows "agg_inv L ws msgs (fold (agg_message L (length ws) order) msgs agg_state_init)"
  using assms(1)
proof (induction msgs rule: rev_induct)
  case Nil
  then show ?case using assms(3) by (simp add: agg_inv_init)
next
  case (snoc m msgs)
  then show ?case
    using agg_inv_step [OF snoc.IH _ assms(2,4)] numbered_snoc(1) by (cases m) auto
qed

lemma aggregate_loop_received:
  "aggregate_loop L n order (map (\<lambda>(w, p). Received w p) msgs) st = fold (agg_message L n order) msgs st"
  by (induction msgs arbitrary: st) auto

section \<open>Properties of the aggregation\<close>

definition aggregated :: "'h hdr \<Rightarrow> (partial list \<Rightarrow> partial list) \<Rightarrow> string list \<Rightarrow> (string \<times> partial) list \<Rightarrow> aggregated_tick list" where
  "aggregated L order ws msgs =
     al_out (aggregate_loop L (length ws) order (map (\<lambda>(w, p). Received w p) msgs) agg_state_init)"

lemma aggregated_ticks:
  assumes "numbered ws msgs" "distinct ws" "ws \<noteq> []" "\<And>xs. mset (order xs) = mset xs"
  shows "slowest ws msgs (length (aggregated L order ws msgs))"
    and "i < length (aggregated L order ws msgs) \<Longrightarrow> fleet_tick L ws msgs i (aggregated L order ws msgs ! i)"
  using agg_inv_run [OF assms, where L = L] by (simp_all add: agg_inv_def aggregated_def aggregate_loop_received)

text \<open>C21. The aggregated stream keeps pace with the slowest worker: for every interleaving of the workers' partials, each
  worker numbering its own from one, exactly as many ticks are out as the worker that has sent the fewest. No second
  is lost or held back by the map of waiting seconds, and a worker that never reports holds back all of them.\<close>

theorem aggregation_keeps_pace:
  assumes "numbered ws msgs" "distinct ws" "ws \<noteq> []" "\<And>xs. mset (order xs) = mset xs"
  shows "length (aggregated L order ws msgs) = Min ((\<lambda>w. length (arrived w msgs)) ` set ws)"
proof -
  have s: "slowest ws msgs (length (aggregated L order ws msgs))" by (rule aggregated_ticks(1) [OF assms])
  then obtain w where "w \<in> set ws" "length (arrived w msgs) = length (aggregated L order ws msgs)"
    by (auto simp: slowest_def)
  then have "length (aggregated L order ws msgs) \<in> (\<lambda>w. length (arrived w msgs)) ` set ws" by (metis imageI)
  then show ?thesis using s by (intro Min_eqI [symmetric]) (auto simp: slowest_def)
qed

lemma silent_worker_stalls:
  assumes "numbered ws msgs" "distinct ws" "w \<in> set ws" "arrived w msgs = []" "\<And>xs. mset (order xs) = mset xs"
  shows "aggregated L order ws msgs = []"
proof -
  have "slowest ws msgs (length (aggregated L order ws msgs))"
    using assms(3,5) by (intro aggregated_ticks(1) [OF assms(1,2)]) auto
  then show ?thesis using assms(3,4) by (auto simp: slowest_def)
qed

text \<open>C3. The ticks of the fleet come in order and each adds up its second over all workers: the i-th tick out is second i,
  whatever the interleaving was, its counts are the sums over the workers of the counts of their i-th partials, and its
  running totals are the sums over all seconds up to this one.\<close>

theorem fleet_ticks_in_order:
  assumes "numbered ws msgs" "distinct ws" "ws \<noteq> []" "\<And>xs. mset (order xs) = mset xs"
    and "i < length (aggregated L order ws msgs)"
  shows "let t = aggregated L order ws msgs ! i in
      gt_elapsed_s t = of_nat (Suc i)
    \<and> (\<forall>k. tick_count k (gt_this_tick t) = second_count k ws msgs i)
    \<and> gt_completed_total t = sum_list (map (second_count None ws msgs) [0..<Suc i])
    \<and> gt_pass_total t = sum_list (map (second_count (Some Pass) ws msgs) [0..<Suc i])
    \<and> gt_fail_status_total t = sum_list (map (second_count (Some FailStatus) ws msgs) [0..<Suc i])"
proof -
  obtain ps where ps: "mset ps = mset (map (\<lambda>w. arrived w msgs ! i) ws)"
    and t: "aggregated L order ws msgs ! i = fst (aggregate_tick L (of_nat (Suc i)) ps (fleet_totals ws msgs i))"
    using aggregated_ticks(2) [OF assms] by (auto simp only: fleet_tick_def)
  show ?thesis
    unfolding Let_def t aggregate_labels fleet_totals_Suc [OF ps] aggregate_counts counts_of_second [OF ps]
    by (simp add: fleet_totals_def)
qed

definition demo_messages :: "(string \<times> partial) list" where
  "demo_messages = [(''a'', demo_partial ''a'' 1 30 []), (''a'', demo_partial ''a'' 2 31 []), (''b'', demo_partial ''b'' 1 40 []),
                    (''b'', demo_partial ''b'' 2 41 []), (''b'', demo_partial ''b'' 3 42 [])]"

lemma demo_arrived:
  "arrived w demo_messages = (if w = ''a'' then [demo_partial ''a'' 1 30 [], demo_partial ''a'' 2 31 []]
     else if w = ''b'' then [demo_partial ''b'' 1 40 [], demo_partial ''b'' 2 41 [], demo_partial ''b'' 3 42 []] else [])"
  by (simp add: arrived_def demo_messages_def)

lemma demo_numbered: "numbered [''a'', ''b''] demo_messages"
  by (auto simp: numbered_def demo_arrived less_Suc_eq) (auto simp: demo_messages_def)

theorem aggregation_keeps_pace_witness:
  "length (aggregated exact_hdr rev [''a'', ''b''] demo_messages) = 2"
proof -
  have "length (aggregated exact_hdr rev [''a'', ''b''] demo_messages)
      = Min ((\<lambda>w. length (arrived w demo_messages)) ` set [''a'', ''b''])"
    by (rule aggregation_keeps_pace [OF demo_numbered]) simp_all
  then show ?thesis by (simp add: demo_arrived numeral_2_eq_2)
qed

theorem fleet_ticks_in_order_witness:
  "gt_elapsed_s (aggregated exact_hdr rev [''a'', ''b''] demo_messages ! 1) = 2
   \<and> gt_completed_total (aggregated exact_hdr rev [''a'', ''b''] demo_messages ! 1) = 142"
proof -
  have "slowest [''a'', ''b''] demo_messages (length (aggregated exact_hdr rev [''a'', ''b''] demo_messages))"
    by (rule aggregated_ticks(1) [OF demo_numbered]) simp_all
  then have "1 < length (aggregated exact_hdr rev [''a'', ''b''] demo_messages)"
    by (auto simp: slowest_def demo_arrived)
  from fleet_ticks_in_order [OF demo_numbered _ _ _ this] show ?thesis
    by (simp add: Let_def second_count_def demo_arrived)
qed

section \<open>From the engines to the totals of the run\<close>

text \<open>Every tick of an engine carries one bucket, with the counts of its second.\<close>

definition one_bucket :: "tick \<Rightarrow> bool" where
  "one_bucket t \<longleftrightarrow> (\<exists>r. tk_buckets t = [tick_bucket r (tk_this_tick t)])"

lemma one_bucket_make_tick: "one_bucket (make_tick n prev r sampled)"
  by (auto simp: one_bucket_def make_tick_def Let_def)

lemma one_bucket_exec:
  assumes "worker_exec cf ev w = Some w'" "\<forall>t\<in>set (w_ticks w). one_bucket t"
  shows "\<forall>t\<in>set (w_ticks w'). one_bucket t"
proof (cases "w_ticks w' = w_ticks w")
  case False
  have on: "w_ticks w' = w_ticks w" if "on_conn w i en f = Some w'" for i en f
    using that by (rule on_conn_cases) simp
  show ?thesis
  proof (cases ev)
    case (Act i)
    have "w_ticks w' = w_ticks w" using assms(1) [unfolded Act worker_exec.simps] by (rule act_cases) simp
    with False show ?thesis by simp
  next
    case (Emit alive)
    then show ?thesis
      using assms one_bucket_make_tick by (auto simp: emit_def Let_def split: if_splits)
  qed (use False assms(1) on in \<open>auto simp: split: if_splits list.splits option.splits\<close>)
qed (use assms(2) in simp)

lemma one_bucket_reachable: "reachable cf n w \<Longrightarrow> \<forall>t\<in>set (w_ticks w). one_bucket t"
proof (induction rule: reachable.induct)
  case start
  then show ?case by (simp add: world_init_def)
next
  case (event n w ev w')
  then show ?case using one_bucket_exec [of cf ev w w'] by simp
qed

lemma tick_bucket_count: "rb_count k (rps_bucket_of (tick_bucket r t)) = tick_count k t"
  by (cases "(k, t)" rule: tick_count.cases) (simp_all add: rps_bucket_of_def tick_bucket_def Let_def)

lemma partial_from_tick_count:
  "one_bucket t \<Longrightarrow> partial_count k (partial_from_tick w n fin t) = tick_count k (tk_this_tick t)"
  by (auto simp: one_bucket_def partial_count_def partial_from_tick_def tick_bucket_count)

lemma final_partial: "partial_count k (empty_final_partial w n) = 0" "pt_final (empty_final_partial w n)"
  by (simp_all add: empty_final_partial_def partial_count_def)

lemma tick_events_partials:
  "\<exists>p\<in>set (partials_of (tick_events w n ts)). pt_final p"
  "\<forall>t\<in>set ts. one_bucket t \<Longrightarrow>
   sum_list (map (partial_count k) (partials_of (tick_events w n ts))) = sum_list (map (\<lambda>t. tick_count k (tk_this_tick t)) ts)"
  by (induction ts arbitrary: n) (simp_all add: partial_from_tick_count final_partial)

lemma slice_counts:
  assumes "\<forall>t\<in>set ts. one_bucket t"
  shows "sum_list (map (partial_count k) (snd (run_one_worker (Some (slice_events w start epoch ts))))) = of_nat (cumulative k ts)"
proof -
  have "sum_list (map (\<lambda>t. tick_count k (tk_this_tick t)) ts) = of_nat (cumulative k ts)"
    by (induction ts) (simp_all add: cumulative_def of_nat_unat)
  then show ?thesis by (simp add: run_one_worker_def slice_events_def tick_events_partials(2) [OF assms])
qed

text \<open>C2. End to end: when every worker's engine has run, its stream arrived whole and the run's token is not cancelled, the dispatch reports all workers as
  finished, none lost and no warning, and each count of its totals is the sum of what the engines' ticks counted,
  never more than the responses the engines saw, for every interleaving inside each engine and every order of
  joining the workers.\<close>

theorem fleet_totals_are_engine_counts:
  assumes "\<forall>(worker_id, start, epoch, w)\<in>set engines. \<exists>cf n. reachable cf n w \<and> n < 2 ^ 63"
    and "mset joined = mset (map (\<lambda>(worker_id, start, epoch, w).
           Some (fst (run_one_worker (Some (slice_events worker_id start epoch (w_ticks w)))))) engines)"
    and "sum_list (map (\<lambda>(_, _, _, w). unat (live_count k (sh_live (w_shared w)))) engines) < 2 ^ 64"
    and "token \<notin> set (co_cancelled st)"
    and "dispatch_finish spec (length engines) joined token late st = (s, st')"
  shows "dm_workers_finished s = length engines \<and> dm_workers_lost s = 0 \<and> dm_warnings s = []
    \<and> unat (tick_count k (dm_totals s)) = sum_list (map (\<lambda>(_, _, _, w). cumulative k (w_ticks w)) engines)
    \<and> unat (tick_count k (dm_totals s))
        \<le> sum_list (map (\<lambda>(_, _, _, w). unat (live_count k (sh_live (w_shared w)))) engines)"
proof -
  let ?stream = "\<lambda>(worker_id, start, epoch, w). Some (slice_events worker_id start epoch (w_ticks w))"
  let ?f = "fold take_summary joined (summary_init (length engines))"
  let ?cum = "sum_list (map (\<lambda>(_, _, _, w). cumulative k (w_ticks w)) engines)"
  have joined: "mset joined = mset (map (\<lambda>x. Some (fst (run_one_worker x))) (map ?stream engines))"
    unfolding assms(2) map_map by (intro arg_cong [where f = mset] map_cong refl) auto
  have "\<exists>es. ?stream x = Some es \<and> (\<exists>p\<in>set (partials_of es). pt_final p)" for x
    using tick_events_partials(1) by (cases x) (simp add: slice_events_def)
  then have "filter (\<lambda>x. \<exists>es. x = Some es \<and> (\<exists>p\<in>set (partials_of es). pt_final p)) (map ?stream engines)
      = map ?stream engines"
    by (intro filter_True) auto
  then have fin: "dm_workers_finished ?f = length engines" using joined_finished [OF joined] by simp
  have one: "sum_list (map (partial_count k) (snd (run_one_worker (?stream x)))) = of_nat (cumulative k (w_ticks (snd (snd (snd x)))))
      \<and> cumulative k (w_ticks (snd (snd (snd x)))) \<le> unat (live_count k (sh_live (w_shared (snd (snd (snd x))))))"
    if x: "x \<in> set engines" for x
  proof -
    obtain cf n where r: "reachable cf n (snd (snd (snd x)))" "n < 2 ^ 63"
      using assms(1) x by (cases x) force
    from slice_counts [OF one_bucket_reachable [OF r(1)]] ticks_never_exceed_counters [OF r] show ?thesis
      by (cases x) simp
  qed
  have "tick_count k (dm_totals ?f) = sum_list (map (\<lambda>x. of_nat (cumulative k (w_ticks (snd (snd (snd x)))))) engines)"
    unfolding joined_counts [OF joined] map_map
    by (intro arg_cong [where f = sum_list] map_cong refl) (use one in \<open>simp add: comp_def\<close>)
  also have "\<dots> = of_nat ?cum" by (induction engines) (auto simp: case_prod_beta)
  finally have counts: "tick_count k (dm_totals ?f) = of_nat ?cum" .
  have le: "?cum \<le> sum_list (map (\<lambda>(_, _, _, w). unat (live_count k (sh_live (w_shared w)))) engines)"
    by (rule sum_list_mono) (use one in \<open>auto simp: case_prod_beta\<close>)
  then have "unat (tick_count k (dm_totals ?f)) = ?cum"
    unfolding counts using assms(3) by (simp add: unat_of_nat take_bit_nat_eq_self)
  then show ?thesis
    using assms(4,5) le fin take_summary_frame [of joined "summary_init (length engines)"]
    by (auto simp: dispatch_finish_def dispatch_account_def Let_def summary_init_def)
qed

theorem fleet_totals_are_engine_counts_witness:
  "\<exists>w s st'. worker_runs demo_config demo_all (world_init demo_config) = Some w
     \<and> dispatch_finish demo_dispatch 1 [Some (fst (run_one_worker (Some (slice_events ''w1'' 0 0 (w_ticks w)))))] 7 []
         coordinator_new = (s, st')
     \<and> dm_workers_finished s = 1 \<and> dm_workers_lost s = 0 \<and> unat (tt_total (dm_totals s)) \<le> 1"
proof -
  obtain w where w: "worker_runs demo_config demo_all (world_init demo_config) = Some w"
    "l_completed (sh_live (w_shared w)) = 1"
    by (rule demo_finished)
  let ?joined = "[Some (fst (run_one_worker (Some (slice_events ''w1'' 0 0 (w_ticks w)))))]"
  obtain s st' where r: "dispatch_finish demo_dispatch (length [(''w1'', 0 :: i64, 0 :: i64, w)]) ?joined 7 [] coordinator_new = (s, st')"
    by fastforce
  have "length demo_all < 2 ^ 63" by (simp add: demo_all_def demo_events_def demo_tick_def)
  with demo_reachable [OF w(1)]
  have "\<forall>(worker_id, start, epoch, w)\<in>set [(''w1'', 0 :: i64, 0 :: i64, w)]. \<exists>cf n. reachable cf n w \<and> n < 2 ^ 63" by auto
  from fleet_totals_are_engine_counts [OF this _ _ _ r, of None] w(2)
  have "dm_workers_finished s = 1 \<and> dm_workers_lost s = 0 \<and> unat (tt_total (dm_totals s)) \<le> 1"
    by (simp add: coordinator_new_def)
  with w(1) r show ?thesis by (intro exI conjI) auto
qed

end
