(* ===== verification/Cliff.thy ===== *)
theory Cliff
  imports Dispatch
begin

text \<open>
  Where correctness falls off: the per-bucket accumulators and the two cliff detectors, the one of \<open>engine-worker\<close>
  (\<open>engine/src/bin/worker.rs\<close>: \<open>BucketCounts\<close>, \<open>detect_cliff_rps\<close> and the loop of the tick task) and the one of the
  coordinator (\<open>engine/src/coordinator/admin.rs\<close>: \<open>FinalsAcc\<close>). Both scan a \<open>BTreeMap\<close> in key order; the locale
  \<open>cliff_detector\<close> is what they have in common.
\<close>

section \<open>Sorted maps\<close>

text \<open>\<open>BTreeMap::entry(k).or_default()\<close> followed by an update of the entry, on the list of entries in key order.\<close>

fun bt_entry :: "'k::linorder \<Rightarrow> ('v \<Rightarrow> 'v) \<Rightarrow> 'v \<Rightarrow> ('k \<times> 'v) list \<Rightarrow> ('k \<times> 'v) list" where
  "bt_entry k f d [] = [(k, f d)]"
| "bt_entry k f d ((j, v) # m) =
     (if k < j then (k, f d) # (j, v) # m
      else if k = j then (j, f v) # m
      else (j, v) # bt_entry k f d m)"

definition bt_wf :: "('k::linorder \<times> 'v) list \<Rightarrow> bool" where
  "bt_wf m \<longleftrightarrow> sorted_wrt (<) (map fst m)"

lemma bt_keys: "fst ` set (bt_entry k f d m) = insert k (fst ` set m)"
  by (induction k f d m rule: bt_entry.induct) auto

lemma bt_wf_entry: "bt_wf m \<Longrightarrow> bt_wf (bt_entry k f d m)"
proof (induction k f d m rule: bt_entry.induct)
  case (2 k f d j v m)
  have "\<forall>i\<in>fst ` set (bt_entry k f d m). j < i" if "\<not> k < j" "k \<noteq> j"
    using 2 that by (subst bt_keys) (auto simp: bt_wf_def)
  then show ?case using 2 by (auto simp: bt_wf_def)
qed (simp add: bt_wf_def)

lemma bt_get_entry:
  "bt_wf m \<Longrightarrow> map_of (bt_entry k f d m) = (map_of m)(k \<mapsto> f (case map_of m k of Some v \<Rightarrow> v | None \<Rightarrow> d))"
proof (induction k f d m rule: bt_entry.induct)
  case (2 k f d j v m)
  then have "map_of m k = None" if "k < j"
    using that by (auto simp: bt_wf_def map_of_eq_None_iff)
  then show ?case using 2 by (auto simp: bt_wf_def fun_eq_iff)
qed simp

section \<open>The detector of engine-worker\<close>

record bucket_counts =
  bc_rps_lo :: f64
  bc_rps_hi :: f64
  bc_total :: u64
  bc_pass :: u64
  bc_rate_limited :: u64

definition bucket_counts_default :: bucket_counts where
  "bucket_counts_default =
     \<lparr> bc_rps_lo = f64_lit 0, bc_rps_hi = f64_lit 0, bc_total = 0, bc_pass = 0, bc_rate_limited = 0 \<rparr>"

type_synonym bucket_accum = "(u64 \<times> bucket_counts) list"

definition add_counts_of :: "bucket \<Rightarrow> bucket_counts \<Rightarrow> bucket_counts" where
  "add_counts_of b e =
     \<lparr> bc_rps_lo = bk_rps_lo b, bc_rps_hi = bk_rps_hi b, bc_total = bc_total e + bk_total b,
       bc_pass = bc_pass e + bk_pass b, bc_rate_limited = bc_rate_limited e + bk_rate_limited b \<rparr>"

definition accumulate_bucket :: "bucket \<Rightarrow> bucket_accum \<Rightarrow> bucket_accum" where
  "accumulate_bucket b m = bt_entry (as_u64 (bk_rps_lo b)) (add_counts_of b) bucket_counts_default m"

definition accumulate_tick :: "tick \<Rightarrow> bucket_accum \<Rightarrow> bucket_accum" where
  "accumulate_tick t m = fold accumulate_bucket (tk_buckets t) m"

fun detect_cliff_rps :: "bucket_accum \<Rightarrow> f64 \<Rightarrow> u64 \<Rightarrow> f64 option" where
  "detect_cliff_rps [] threshold min_samples = None"
| "detect_cliff_rps ((_, b) # m) threshold min_samples =
     (let denom = saturating_sub (bc_total b) (bc_rate_limited b) in
      if denom < min_samples then detect_cliff_rps m threshold min_samples
      else if of_u64 (bc_pass b) / of_u64 denom < threshold then Some ((bc_rps_lo b + bc_rps_hi b) / f64_lit 2)
      else detect_cliff_rps m threshold min_samples)"

section \<open>The detector of the coordinator\<close>

record finals_acc =
  fa_last_p50_us :: u64
  fa_last_p95_us :: u64
  fa_last_p99_us :: u64
  fa_last_achieved_rps :: f64
  fa_last_hist_v2 :: bytes
  fa_last_uncorrected_hist_v2 :: bytes
  fa_buckets :: "(u64 \<times> f64 \<times> f64 \<times> u64 \<times> u64) list"

definition finals_acc_default :: finals_acc where
  "finals_acc_default =
     \<lparr> fa_last_p50_us = 0, fa_last_p95_us = 0, fa_last_p99_us = 0, fa_last_achieved_rps = f64_lit 0,
       fa_last_hist_v2 = [], fa_last_uncorrected_hist_v2 = [], fa_buckets = [] \<rparr>"

fun observe_entry :: "bucket \<Rightarrow> f64 \<times> f64 \<times> u64 \<times> u64 \<Rightarrow> f64 \<times> f64 \<times> u64 \<times> u64" where
  "observe_entry b (lo, hi, n, pass) = (bk_rps_lo b, bk_rps_hi b, n + bk_total b, pass + bk_pass b)"

definition observe_bucket ::
  "bucket \<Rightarrow> (u64 \<times> f64 \<times> f64 \<times> u64 \<times> u64) list \<Rightarrow> (u64 \<times> f64 \<times> f64 \<times> u64 \<times> u64) list" where
  "observe_bucket b m = bt_entry (as_u64 (bk_rps_lo b)) (observe_entry b) (f64_lit 0, f64_lit 0, 0, 0) m"

definition observe :: "aggregated_tick \<Rightarrow> finals_acc \<Rightarrow> finals_acc" where
  "observe t f =
     (let p = gt_percentiles t; some = 0 < agg_p99_us p in
      \<lparr> fa_last_p50_us = (if some then agg_p50_us p else fa_last_p50_us f),
        fa_last_p95_us = (if some then agg_p95_us p else fa_last_p95_us f),
        fa_last_p99_us = (if some then agg_p99_us p else fa_last_p99_us f),
        fa_last_achieved_rps = gt_achieved_rps_1s t,
        fa_last_hist_v2 = (if gt_merged_hist_v2 t \<noteq> [] then gt_merged_hist_v2 t else fa_last_hist_v2 f),
        fa_last_uncorrected_hist_v2 =
          (if gt_merged_uncorrected_hist_v2 t \<noteq> [] then gt_merged_uncorrected_hist_v2 t
           else fa_last_uncorrected_hist_v2 f),
        fa_buckets = fold observe_bucket (gt_buckets t) (fa_buckets f) \<rparr>)"

fun cliff_scan :: "(u64 \<times> f64 \<times> f64 \<times> u64 \<times> u64) list \<Rightarrow> f64 option" where
  "cliff_scan [] = None"
| "cliff_scan ((_, lo, hi, n, pass) # m) =
     (if n < 30 then cliff_scan m
      else if of_u64 pass / of_u64 n < f64_lit (95 / 100) then Some ((lo + hi) / f64_lit 2)
      else cliff_scan m)"

definition cliff_rps :: "finals_acc \<Rightarrow> f64 option" where
  "cliff_rps f = cliff_scan (fa_buckets f)"

section \<open>The threshold in exact arithmetic\<close>

lemma round64_gap:
  assumes "0 \<le> x" "3 / 4 \<le> y" "y < 1" "1 < (y - x) * 2 ^ 53"
  shows "round64 x < round64 y"
proof -
  have expo: "expo z = - 1" if "1 / 2 \<le> z" "z < 1" for z
    using that by (intro expo_unique) (simp_all add: pow2_eval)
  have r: "round64 z = of_int (round_half_even (z * 2 ^ 53)) / 2 ^ 53" if "1 / 2 \<le> z" "z < 1" for z
    using that by (simp add: round64_def round_pos_def grid_def expo pow2_eval)
  have half: "1 / 2 \<le> y" using assms(2) by simp
  have y: "y * 2 ^ 53 - 1 / 2 \<le> of_int (round_half_even (y * 2 ^ 53))"
    using round_half_even_dist [of "y * 2 ^ 53"] by linarith
  show ?thesis
  proof (cases "1 / 2 \<le> x")
    case True
    have "x < 1"
    proof (rule ccontr)
      assume "\<not> x < 1"
      then have "(y - x) * 2 ^ 53 \<le> 0" using assms(3) by (intro mult_nonpos_nonneg) simp_all
      with assms(4) show False by simp
    qed
    have "of_int (round_half_even (x * 2 ^ 53)) \<le> x * 2 ^ 53 + 1 / 2"
      using round_half_even_dist [of "x * 2 ^ 53"] by linarith
    also have "\<dots> < y * 2 ^ 53 - 1 / 2" using assms(4) by (simp add: algebra_simps)
    finally have "of_int (round_half_even (x * 2 ^ 53)) < (of_int (round_half_even (y * 2 ^ 53)) :: rat)" using y by linarith
    then show ?thesis unfolding r [OF True \<open>x < 1\<close>] r [OF half assms(3)] by (simp add: divide_strict_right_mono)
  next
    case False
    then have le: "round64 x \<le> round64 (1 / 2)" by (intro round64_mono) simp
    have "round_half_even (2 ^ 52) = (2 ^ 52 :: int)" using round_half_even_int [of "2 ^ 52"] by simp
    then have "round64 (1 / 2) = 1 / 2" by (simp add: r)
    moreover have "1 / 2 < round64 y" unfolding r [OF half assms(3)] using y assms(2) by (simp add: field_simps)
    ultimately show ?thesis using le by linarith
  qed
qed

lemma of_u64_exact: "unat n < 2 ^ 53 \<Longrightarrow> of_u64 n = Fin (of_nat (unat n))"
  by (rule of_u64_small) simp

lemma ratio_below:
  assumes "0 < unat d" "unat d < 2 ^ 46" "unat p < 2 ^ 53"
  shows "of_u64 p / of_u64 d < f64_lit (19 / 20) \<longleftrightarrow> 100 * unat p < 95 * unat d"
proof -
  let ?x = "of_nat (unat p) / of_nat (unat d) :: rat"
  have d: "0 < (of_nat (unat d) :: rat)" "(of_nat (unat d) :: rat) < 2 ^ 46"
    using assms(1,2) by (simp_all add: of_nat_less_iff [of _ "2 ^ 46", where 'a = rat, simplified])
  have p: "(of_nat (unat p) :: rat) < 2 ^ 53"
    using assms(3) by (simp add: of_nat_less_iff [of _ "2 ^ 53", where 'a = rat, simplified])
  have "?x \<le> of_int (2 ^ 53)"
  proof -
    have "(1 :: rat) \<le> of_nat (unat d)" using assms(1) by simp
    then have "?x \<le> of_nat (unat p) / 1" by (intro divide_left_mono) simp_all
    then show ?thesis using p by simp
  qed
  then have hi: "round64 ?x \<le> 2 ^ 53" using round64_mono [of ?x "of_int (2 ^ 53)"] round64_int [of "2 ^ 53"] by simp
  have lo: "0 \<le> round64 ?x" by (rule b64.rnd_nonneg) simp
  have q: "of_u64 p / of_u64 d = Fin (round64 ?x)"
    using assms d(1) hi lo by (simp add: of_u64_exact mk64_Fin)
  have "round64 (19 / 20) \<le> 1" using round64_mono [of "19 / 20" 1] round64_int [of 1] by simp
  moreover have "0 \<le> round64 (19 / 20)" by (rule b64.rnd_nonneg) simp
  ultimately have lit: "f64_lit (19 / 20) = Fin (round64 (19 / 20))" by (intro mk64_Fin) simp
  show ?thesis
  proof (cases "100 * unat p < 95 * unat d")
    case True
    then have "100 * unat p + 1 \<le> 95 * unat d" by simp
    then have "(of_nat (100 * unat p + 1) :: rat) \<le> of_nat (95 * unat d)" by (simp only: of_nat_le_iff)
    moreover have "(19 / 20 - ?x) * (100 * of_nat (unat d)) = of_nat (95 * unat d) - of_nat (100 * unat p)"
      using d(1) by (simp add: field_simps)
    ultimately have gap: "1 \<le> (19 / 20 - ?x) * (100 * of_nat (unat d))" by simp
    then have "0 < (19 / 20 - ?x) * (100 * of_nat (unat d))" by linarith
    then have "0 < 19 / 20 - ?x" by (rule zero_less_mult_pos2) (use d(1) in simp)
    then have "(19 / 20 - ?x) * (100 * of_nat (unat d)) < (19 / 20 - ?x) * 2 ^ 53"
      using d by (intro mult_strict_left_mono) simp_all
    with gap have "round64 ?x < round64 (19 / 20)" by (intro round64_gap) simp_all
    then show ?thesis using True by (simp add: q lit)
  next
    case False
    then have "95 * unat d \<le> 100 * unat p" by simp
    then have "(of_nat (95 * unat d) :: rat) \<le> of_nat (100 * unat p)" by (simp only: of_nat_le_iff)
    then have "19 / 20 \<le> ?x" using d(1) by (simp add: field_simps)
    then have "round64 (19 / 20) \<le> round64 ?x" by (rule round64_mono)
    then show ?thesis using False by (simp add: q lit)
  qed
qed

section \<open>What the detectors share\<close>

locale cliff_detector =
  fixes scan :: "(u64 \<times> 'b) list \<Rightarrow> f64 option"
    and samples :: "'b \<Rightarrow> u64"
    and passed :: "'b \<Rightarrow> u64"
    and middle :: "'b \<Rightarrow> f64"
  assumes scan_Nil: "scan [] = None"
    and scan_Cons: "scan ((k, b) # m) =
      (if samples b < 30 then scan m
       else if of_u64 (passed b) / of_u64 (samples b) < f64_lit (19 / 20) then Some (middle b) else scan m)"
begin

definition failing :: "'b \<Rightarrow> bool" where
  "failing b \<longleftrightarrow> 30 \<le> samples b \<and> of_u64 (passed b) / of_u64 (samples b) < f64_lit (19 / 20)"

lemma scan_find: "scan m = map_option (\<lambda>(_, b). middle b) (find (\<lambda>(_, b). failing b) m)"
proof (induction m)
  case (Cons x m)
  obtain k b where x: "x = (k, b)" by (cases x)
  have "failing b \<longleftrightarrow> \<not> samples b < 30 \<and> of_u64 (passed b) / of_u64 (samples b) < f64_lit (19 / 20)"
    by (simp add: failing_def not_less)
  then show ?case using Cons by (simp add: x scan_Cons)
qed (simp add: scan_Nil)

lemma failing_exact:
  assumes "unat (samples b) < 2 ^ 46" "unat (passed b) < 2 ^ 53"
  shows "failing b \<longleftrightarrow> 30 \<le> unat (samples b) \<and> 100 * unat (passed b) < 95 * unat (samples b)"
  using ratio_below [OF _ assms] by (auto simp: failing_def word_le_nat_alt)

lemma scan_exact:
  assumes "\<forall>(k, b)\<in>set m. unat (samples b) < 2 ^ 46 \<and> unat (passed b) < 2 ^ 53"
  shows "scan m = map_option (\<lambda>(_, b). middle b)
    (find (\<lambda>(_, b). 30 \<le> unat (samples b) \<and> 100 * unat (passed b) < 95 * unat (samples b)) m)"
proof -
  have "find (\<lambda>(_, b). failing b) m
      = find (\<lambda>(_, b). 30 \<le> unat (samples b) \<and> 100 * unat (passed b) < 95 * unat (samples b)) m"
    using assms by (intro find_cong) (auto simp: failing_exact)
  then show ?thesis by (simp add: scan_find)
qed

text \<open>A bucket whose samples all pass is never a cliff, however many there are.\<close>

lemma all_passed: "passed b = samples b \<Longrightarrow> \<not> failing b"
proof
  assume same: "passed b = samples b" and fail: "failing b"
  define r where "r = round64 (of_nat (unat (samples b)))"
  have "30 \<le> r"
    using fail round64_mono [of 30 "of_nat (unat (samples b))"] round64_int [of 30]
    by (simp add: failing_def r_def word_le_nat_alt)
  moreover have "round64 1 = 1" using round64_int [of 1] by simp
  ultimately have "of_u64 (samples b) / of_u64 (samples b) = Fin 1"
    by (simp add: of_u64_def mk64_Fin flip: r_def)
  moreover have "f64_lit (19 / 20) \<le> Fin 1" using mk64_mono [of "19 / 20" 1] mk64_int [of 1] by simp
  ultimately show False
    using fail same by (cases "f64_lit (19 / 20)") (auto simp: failing_def)
qed

lemma none_if_all_passed:
  "\<forall>(k, b)\<in>set m. 30 \<le> samples b \<longrightarrow> passed b = samples b \<Longrightarrow> scan m = None"
  using all_passed by (auto simp: scan_find find_None_iff) (auto simp: failing_def)

end

interpretation engine: cliff_detector "\<lambda>m. detect_cliff_rps m (f64_lit (95 / 100)) 30"
  "\<lambda>b. saturating_sub (bc_total b) (bc_rate_limited b)" bc_pass "\<lambda>b. (bc_rps_lo b + bc_rps_hi b) / f64_lit 2"
  by unfold_locales (simp_all add: Let_def)

interpretation coordinator_side: cliff_detector cliff_scan "\<lambda>(lo, hi, n, pass). n" "\<lambda>(lo, hi, n, pass). pass"
  "\<lambda>(lo, hi, n, pass). (lo + hi) / f64_lit 2"
proof unfold_locales
  show "cliff_scan ((k, b) # m) =
      (if (case b of (lo, hi, n, pass) \<Rightarrow> n) < 30 then cliff_scan m
       else if of_u64 (case b of (lo, hi, n, pass) \<Rightarrow> pass) / of_u64 (case b of (lo, hi, n, pass) \<Rightarrow> n) < f64_lit (19 / 20)
       then Some (case b of (lo, hi, n, pass) \<Rightarrow> (lo + hi) / f64_lit 2) else cliff_scan m)" for k b m
    by (cases b) simp
qed simp

section \<open>The accumulated buckets\<close>

definition bucket_key :: "bucket \<Rightarrow> u64" where
  "bucket_key b = as_u64 (bk_rps_lo b)"

definition entry_of :: "bucket_accum \<Rightarrow> u64 \<Rightarrow> bucket_counts" where
  "entry_of m k = (case map_of m k of Some e \<Rightarrow> e | None \<Rightarrow> bucket_counts_default)"

lemma accumulate_wf: "bt_wf m \<Longrightarrow> bt_wf (accumulate_bucket b m)"
  by (simp add: accumulate_bucket_def bt_wf_entry)

lemma entry_accumulate:
  "bt_wf m \<Longrightarrow> entry_of (accumulate_bucket b m) k = (if bucket_key b = k then add_counts_of b (entry_of m k) else entry_of m k)"
  by (simp add: entry_of_def accumulate_bucket_def bt_get_entry bucket_key_def)

interpretation totals: tally accumulate_bucket "\<lambda>_. True" bt_wf "\<lambda>m. bc_total (entry_of m k)"
  "\<lambda>b. if bucket_key b = k then bk_total b else 0" for k
  by unfold_locales (simp_all add: accumulate_wf entry_accumulate add_counts_of_def)

interpretation passes: tally accumulate_bucket "\<lambda>_. True" bt_wf "\<lambda>m. bc_pass (entry_of m k)"
  "\<lambda>b. if bucket_key b = k then bk_pass b else 0" for k
  by unfold_locales (simp_all add: accumulate_wf entry_accumulate add_counts_of_def)

interpretation limited: tally accumulate_bucket "\<lambda>_. True" bt_wf "\<lambda>m. bc_rate_limited (entry_of m k)"
  "\<lambda>b. if bucket_key b = k then bk_rate_limited b else 0" for k
  by unfold_locales (simp_all add: accumulate_wf entry_accumulate add_counts_of_def)

definition all_buckets :: "tick list \<Rightarrow> bucket list" where
  "all_buckets ts = concat (map tk_buckets ts)"

definition sum_of :: "(bucket \<Rightarrow> u64) \<Rightarrow> u64 \<Rightarrow> tick list \<Rightarrow> u64" where
  "sum_of f k ts = sum_list (map (\<lambda>b. if bucket_key b = k then f b else 0) (all_buckets ts))"

lemma accumulate_ticks: "fold accumulate_tick ts m = fold accumulate_bucket (all_buckets ts) m"
  by (induction ts arbitrary: m) (simp_all add: all_buckets_def accumulate_tick_def)

lemma bt_wf_Nil [simp]: "bt_wf []"
  by (simp add: bt_wf_def)

lemma bt_wf_get: "bt_wf m \<Longrightarrow> (k, e) \<in> set m \<Longrightarrow> map_of m k = Some e"
  by (rule map_of_is_SomeI) (auto simp: bt_wf_def strict_sorted_iff)

lemma accumulated_entry:
  assumes "(k, e) \<in> set (fold accumulate_tick ts [])"
  shows "bc_total e = sum_of bk_total k ts" "bc_pass e = sum_of bk_pass k ts"
    "bc_rate_limited e = sum_of bk_rate_limited k ts"
proof -
  let ?m = "fold accumulate_bucket (all_buckets ts) []"
  have "bt_wf ?m" by (rule totals.inv_fold) simp_all
  then have "entry_of ?m k = e"
    using assms by (simp add: accumulate_ticks entry_of_def bt_wf_get)
  moreover have "entry_of [] k = bucket_counts_default" by (simp add: entry_of_def)
  ultimately show "bc_total e = sum_of bk_total k ts" "bc_pass e = sum_of bk_pass k ts"
    "bc_rate_limited e = sum_of bk_rate_limited k ts"
    using totals.count_fold [of "[]" "all_buckets ts" k] passes.count_fold [of "[]" "all_buckets ts" k]
      limited.count_fold [of "[]" "all_buckets ts" k]
    by (simp_all add: sum_of_def bucket_counts_default_def)
qed

section \<open>Properties of the detectors\<close>

text \<open>C18. The cliff is found exactly where the documentation puts it: the middle of the lowest bucket with at least 30
  samples, rate-limited ones left out, of which fewer than 95 percent passed. The comparison of doubles decides the
  integer inequality \<open>100 * pass < 95 * samples\<close> correctly in every bucket of fewer than \<open>2 ^ 46\<close> samples.\<close>

theorem cliff_is_exact:
  assumes "\<forall>(k, b)\<in>set m. unat (bc_total b) < 2 ^ 46 \<and> unat (bc_pass b) < 2 ^ 53"
  shows "detect_cliff_rps m (f64_lit (95 / 100)) 30 = map_option (\<lambda>(_, b). (bc_rps_lo b + bc_rps_hi b) / f64_lit 2)
    (find (\<lambda>(_, b). 30 \<le> unat (bc_total b) - unat (bc_rate_limited b)
        \<and> 100 * unat (bc_pass b) < 95 * (unat (bc_total b) - unat (bc_rate_limited b))) m)"
proof -
  have "\<forall>(k, b)\<in>set m. unat (saturating_sub (bc_total b) (bc_rate_limited b)) < 2 ^ 46 \<and> unat (bc_pass b) < 2 ^ 53"
    using assms by (auto simp: unat_saturating_sub less_imp_diff_less)
  from engine.scan_exact [OF this] show ?thesis by (simp add: unat_saturating_sub)
qed

text \<open>The buckets that are scanned are those of the run: in ascending order of rate, one per rate bucket, each with the
  sums of the totals, passes and rate-limited counts of its ticks.\<close>

lemma accumulated_buckets_are_sums:
  assumes "map_of (fold accumulate_tick ts []) k = Some e"
  shows "sorted_wrt (<) (map fst (fold accumulate_tick ts [])) \<and> bc_total e = sum_of bk_total k ts
    \<and> bc_pass e = sum_of bk_pass k ts \<and> bc_rate_limited e = sum_of bk_rate_limited k ts"
proof -
  have "bt_wf (fold accumulate_tick ts [])" unfolding accumulate_ticks by (rule totals.inv_fold) simp_all
  then show ?thesis using accumulated_entry [OF map_of_SomeD [OF assms]] by (simp add: bt_wf_def)
qed

text \<open>Rate limiting never manufactures a cliff: if in every second every response that is not a 429 passed, the detector
  of engine-worker finds none, however many 429s there were.\<close>

lemma rate_limiting_is_no_cliff:
  assumes "\<forall>t\<in>set ts. \<forall>b\<in>set (tk_buckets t). bk_pass b + bk_rate_limited b = bk_total b"
  shows "detect_cliff_rps (fold accumulate_tick ts []) (f64_lit (95 / 100)) 30 = None"
proof -
  have split: "sum_of bk_pass k ts + sum_of bk_rate_limited k ts = sum_of bk_total k ts" for k
    using assms by (auto simp: sum_of_def all_buckets_def simp flip: sum_list_addf intro!: arg_cong [where f = sum_list])
  have "bc_pass e = saturating_sub (bc_total e) (bc_rate_limited e)"
    if "(k, e) \<in> set (fold accumulate_tick ts [])" "30 \<le> saturating_sub (bc_total e) (bc_rate_limited e)" for k e
  proof -
    have "bc_rate_limited e \<le> bc_total e" using that(2) by (auto simp: saturating_sub_def split: if_splits)
    then show ?thesis
      using split [of k] accumulated_entry [OF that(1)] by (simp add: saturating_sub_def eq_diff_eq)
  qed
  then show ?thesis by (intro engine.none_if_all_passed) auto
qed

section \<open>The two detectors\<close>

definition drop_limited :: "u64 \<times> bucket_counts \<Rightarrow> u64 \<times> f64 \<times> f64 \<times> u64 \<times> u64" where
  "drop_limited = (\<lambda>(k, b). (k, bc_rps_lo b, bc_rps_hi b, bc_total b, bc_pass b))"

lemma observe_accumulate:
  "observe_bucket b (map drop_limited m) = map drop_limited (accumulate_bucket b m)"
  unfolding observe_bucket_def accumulate_bucket_def
  by (induction m) (auto simp: drop_limited_def add_counts_of_def bucket_counts_default_def)

lemma observe_buckets:
  "fold observe_bucket bs (map drop_limited m) = map drop_limited (fold accumulate_bucket bs m)"
  by (induction bs arbitrary: m) (simp_all add: observe_accumulate)

lemma observe_ticks:
  "fa_buckets (fold observe gs f) = fold observe_bucket (concat (map gt_buckets gs)) (fa_buckets f)"
  by (induction gs arbitrary: f) (simp_all add: observe_def Let_def)

lemma detectors_unlimited:
  "\<forall>(k, b)\<in>set m. bc_rate_limited b = 0 \<Longrightarrow> cliff_scan (map drop_limited m) = detect_cliff_rps m (f64_lit (95 / 100)) 30"
  by (induction m) (auto simp: drop_limited_def saturating_sub_def Let_def)

text \<open>C27. On the same seconds without rate limiting, the coordinator's detector and the one of engine-worker give the same
  answer: accumulating in the fleet totals of the finalizer and scanning them is equivalent to the worker's own
  accumulator and scan.\<close>

theorem detectors_agree:
  assumes "map gt_buckets gs = map tk_buckets ts" "\<forall>t\<in>set ts. \<forall>b\<in>set (tk_buckets t). bk_rate_limited b = 0"
  shows "cliff_rps (fold observe gs finals_acc_default)
    = detect_cliff_rps (fold accumulate_tick ts []) (f64_lit (95 / 100)) 30"
proof -
  have "fa_buckets (fold observe gs finals_acc_default) = map drop_limited (fold accumulate_tick ts [])"
    using observe_buckets [of "all_buckets ts" "[]"]
    by (simp add: observe_ticks finals_acc_default_def assms(1) accumulate_ticks flip: all_buckets_def)
  moreover have "sum_of bk_rate_limited k ts = 0" for k
  proof -
    have "map (\<lambda>b. if bucket_key b = k then bk_rate_limited b else 0) (all_buckets ts) = map (\<lambda>_. 0) (all_buckets ts)"
      using assms(2) by (auto simp: all_buckets_def)
    then show ?thesis by (simp only: sum_of_def sum_list_0)
  qed
  then have "\<forall>(k, b)\<in>set (fold accumulate_tick ts []). bc_rate_limited b = 0"
    using accumulated_entry(3) by fastforce
  ultimately show ?thesis by (simp only: cliff_rps_def detectors_unlimited)
qed

section \<open>An example\<close>

text \<open>Two seconds at 45 and 48 requests per second, in the bucket from 40 to 50, and one at 52.\<close>

definition demo_bucket :: "rat \<Rightarrow> u64 \<Rightarrow> u64 \<Rightarrow> u64 \<Rightarrow> bucket" where
  "demo_bucket lo n pass rl =
     \<lparr> bk_rps_lo = Fin lo, bk_rps_hi = Fin (lo + 10), bk_total = n, bk_pass = pass, bk_fail_status = n - pass - rl,
       bk_fail_latency = 0, bk_fail_size = 0, bk_fail_content_type = 0, bk_rate_limited = rl \<rparr>"

definition demo_second :: "bucket \<Rightarrow> tick" where
  "demo_second b =
     (make_tick 1 zero_tick \<lparr> rd_counts = zero_tick, rd_onset = None, rd_backoff = 0, rd_retry_after = None,
        rd_percentiles = \<lparr> so_far_p50_us = 0, so_far_p99_us = 0 \<rparr>, rd_corrected = [], rd_uncorrected = [] \<rparr> [])
       \<lparr>tk_buckets := [b]\<rparr>"

definition demo_seconds :: "u64 \<Rightarrow> tick list" where
  "demo_seconds rl = map demo_second [demo_bucket 40 45 40 0, demo_bucket 40 48 48 0, demo_bucket 50 52 40 rl]"

lemma demo_second_buckets [simp]: "tk_buckets (demo_second b) = [b]"
  by (simp add: demo_second_def)

lemma demo_keys: "trunc_u64 40 = 40" "trunc_u64 50 = 50" "mk64 0 = Fin 0" "mk64 2 = Fin 2" "mk64 45 = Fin 45" "mk64 90 = Fin 90" "mk64 110 = Fin 110" "Fin 90 / Fin 2 = Fin 45" "Fin 110 / Fin 2 = Fin 55"
  "Fin 40 + Fin 50 = Fin 90" "Fin 50 + Fin 60 = Fin 110"
  using mk64_int [of 2] mk64_int [of 45] mk64_int [of 55] mk64_int [of 90] mk64_int [of 110] by (simp_all add: trunc_u64_def)

lemma demo_accumulated:
  "fold accumulate_tick (demo_seconds rl) [] =
     [(40, \<lparr> bc_rps_lo = Fin 40, bc_rps_hi = Fin 50, bc_total = 93, bc_pass = 88, bc_rate_limited = 0 \<rparr>),
      (50, \<lparr> bc_rps_lo = Fin 50, bc_rps_hi = Fin 60, bc_total = 52, bc_pass = 40, bc_rate_limited = rl \<rparr>)]"
  by (simp add: demo_seconds_def accumulate_tick_def accumulate_bucket_def demo_bucket_def add_counts_of_def
      bucket_counts_default_def demo_keys)

theorem cliff_is_exact_witness:
  "detect_cliff_rps (fold accumulate_tick (demo_seconds 3) []) (f64_lit (95 / 100)) 30 = Some (Fin 45)"
proof -
  have "\<forall>(k, b)\<in>set (fold accumulate_tick (demo_seconds 3) []). unat (bc_total b) < 2 ^ 46 \<and> unat (bc_pass b) < 2 ^ 53"
    by (simp add: demo_accumulated)
  from cliff_is_exact [OF this] show ?thesis by (simp add: demo_accumulated demo_keys del: detect_cliff_rps.simps)
qed

definition demo_aggregated :: "bucket list \<Rightarrow> aggregated_tick" where
  "demo_aggregated bs =
     (fst (aggregate_tick exact_hdr 1 [] \<lparr> at_completed = 0, at_pass = 0, at_fail_status = 0 \<rparr>))\<lparr>gt_buckets := bs\<rparr>"

theorem detectors_agree_witness:
  "cliff_rps (fold observe (map demo_aggregated (map tk_buckets (demo_seconds 0))) finals_acc_default) = Some (Fin 45)"
proof -
  let ?gs = "map demo_aggregated (map tk_buckets (demo_seconds 0))"
  have "map gt_buckets ?gs = map tk_buckets (demo_seconds 0)" by (simp add: demo_aggregated_def)
  moreover have "\<forall>t\<in>set (demo_seconds 0). \<forall>b\<in>set (tk_buckets t). bk_rate_limited b = 0"
    by (simp add: demo_seconds_def demo_bucket_def)
  ultimately have "cliff_rps (fold observe ?gs finals_acc_default)
      = detect_cliff_rps (fold accumulate_tick (demo_seconds 0) []) (f64_lit (95 / 100)) 30"
    by (rule detectors_agree)
  moreover have "engine.failing \<lparr> bc_rps_lo = Fin 40, bc_rps_hi = Fin 50, bc_total = 93, bc_pass = 88, bc_rate_limited = 0 \<rparr>"
    by (subst engine.failing_exact) (simp_all add: unat_saturating_sub)
  ultimately show ?thesis
    by (simp only: demo_accumulated engine.scan_find) (simp add: demo_keys)
qed

text \<open>
  With rate limiting they differ, although the comment in \<open>FinalsAcc::cliff_rps\<close> says they mirror each other: 40 responses of
  which 10 were rate limited and 30 passed are no cliff for engine-worker and one for the coordinator.
\<close>

lemma detectors_differ:
  defines "b \<equiv> demo_bucket 10 40 30 10"
  shows "detect_cliff_rps (fold accumulate_tick [demo_second b] []) (f64_lit (95 / 100)) 30 = None"
    and "cliff_rps (fold observe [demo_aggregated [b]] finals_acc_default) \<noteq> None"
proof -
  show "detect_cliff_rps (fold accumulate_tick [demo_second b] []) (f64_lit (95 / 100)) 30 = None"
    by (rule engine.none_if_all_passed)
      (simp add: b_def demo_bucket_def accumulate_tick_def accumulate_bucket_def add_counts_of_def bucket_counts_default_def
        saturating_sub_def)
  have "fa_buckets (fold observe [demo_aggregated [b]] finals_acc_default) = [(trunc_u64 10, Fin 10, Fin 20, 40, 30)]"
    unfolding observe_ticks
    by (simp add: demo_aggregated_def b_def demo_bucket_def observe_bucket_def finals_acc_default_def)
  moreover have "coordinator_side.failing (Fin 10, Fin 20, 40, 30)"
    by (simp add: coordinator_side.failing_exact)
  ultimately show "cliff_rps (fold observe [demo_aggregated [b]] finals_acc_default) \<noteq> None"
    by (simp add: cliff_rps_def coordinator_side.scan_find)
qed

end
