(* ===== verification/Admin.thy ===== *)
theory Admin
  imports Cliff
begin

text \<open>
  The coordinator's admin surface, \<open>engine/src/coordinator/admin.rs\<close>: the JSON request with its defaults, the handlers of
  \<open>/admin/runs\<close>, \<open>/admin/runs/{id}/abort\<close> and \<open>/admin/workers\<close>, and the finalize body sent to the control plane. Decoding
  and sending of HTTP bodies and the base64 encoder are not modelled; a body is a record, an encoded one its bytes.
\<close>

section \<open>Requests and responses\<close>

text \<open>\<open>RunRequest\<close> as it arrives: a field with a serde default may be missing.\<close>

record run_request =
  rq_run_id :: string
  rq_target_url :: string
  rq_target_method :: "string option"
  rq_target_rps :: f64
  rq_duration_s :: u64
  rq_connections :: "u32 option"
  rq_keepalive :: "bool option"
  rq_timeout_ms :: "u32 option"
  rq_expected_status :: "i32 list option"
  rq_target_headers :: "(string \<times> string) list option"
  rq_epoch_unix_us :: "i64 option"
  rq_max_latency_us :: "i64 option"
  rq_min_body_bytes :: "i32 option"
  rq_max_body_bytes :: "i32 option"
  rq_content_type :: "string option"
  rq_control_tick_url :: "string option"
  rq_control_finalize_url :: "string option"

fun unwrap_or :: "'a \<Rightarrow> 'a option \<Rightarrow> 'a" where
  "unwrap_or d None = d"
| "unwrap_or d (Some x) = x"

definition default_method :: string where "default_method = ''GET''"
definition default_connections :: u32 where "default_connections = 50"
definition default_keepalive :: bool where "default_keepalive = True"
definition default_timeout_ms :: u32 where "default_timeout_ms = 30000"

definition dispatch_spec_of :: "run_request \<Rightarrow> dispatch_spec" where
  "dispatch_spec_of req =
     \<lparr> ds_run_id = rq_run_id req, ds_target_url = rq_target_url req,
       ds_target_method = unwrap_or default_method (rq_target_method req), ds_target_rps = rq_target_rps req,
       ds_duration_s = rq_duration_s req, ds_connections = unwrap_or default_connections (rq_connections req),
       ds_keepalive = unwrap_or default_keepalive (rq_keepalive req),
       ds_timeout_ms = unwrap_or default_timeout_ms (rq_timeout_ms req),
       ds_expected_status = unwrap_or [] (rq_expected_status req), ds_max_latency_us = rq_max_latency_us req,
       ds_min_body_bytes = rq_min_body_bytes req, ds_max_body_bytes = rq_max_body_bytes req,
       ds_content_type = rq_content_type req, ds_target_headers = unwrap_or [] (rq_target_headers req),
       ds_epoch_unix_us = unwrap_or 0 (rq_epoch_unix_us req) \<rparr>"

record run_response =
  rs_run_id :: string
  rs_workers_dispatched :: nat
  rs_workers_finished :: nat
  rs_total_completed :: u64
  rs_total_pass :: u64
  rs_total_fail_status :: u64
  rs_total_fail_latency :: u64
  rs_total_fail_size :: u64
  rs_total_fail_content_type :: u64
  rs_total_rate_limited :: u64
  rs_rate_limit_onset_rps :: "f64 option"
  rs_workers_lost :: nat
  rs_warnings :: "warning list"

definition to_response :: "string \<Rightarrow> dispatch_summary \<Rightarrow> run_response" where
  "to_response run_id s =
     \<lparr> rs_run_id = run_id, rs_workers_dispatched = dm_workers_dispatched s, rs_workers_finished = dm_workers_finished s,
       rs_total_completed = tt_total (dm_totals s), rs_total_pass = tt_pass (dm_totals s),
       rs_total_fail_status = tt_fail_status (dm_totals s), rs_total_fail_latency = tt_fail_latency (dm_totals s),
       rs_total_fail_size = tt_fail_size (dm_totals s), rs_total_fail_content_type = tt_fail_content_type (dm_totals s),
       rs_total_rate_limited = tt_rate_limited (dm_totals s), rs_rate_limit_onset_rps = dm_first_429_rps s,
       rs_workers_lost = dm_workers_lost s, rs_warnings = dm_warnings s \<rparr>"

record error_body =
  eb_status :: nat
  eb_error :: string

record worker_view =
  wv_worker_id :: string
  wv_address :: string
  wv_contract_version :: string
  wv_max_rps :: u32

definition worker_view_of :: "worker \<Rightarrow> worker_view" where
  "worker_view_of w =
     \<lparr> wv_worker_id = wk_worker_id w, wv_address = wk_address w, wv_contract_version = wk_contract_version w,
       wv_max_rps = wk_max_rps w \<rparr>"

definition list_workers_endpoint :: "coordinator \<Rightarrow> worker_view list" where
  "list_workers_endpoint st = map worker_view_of (list_workers st)"

definition abort_endpoint ::
  "string \<Rightarrow> coordinator \<Rightarrow> (error_body + string \<times> bool) \<times> coordinator \<times> (string \<times> abort_request) list" where
  "abort_endpoint run_id st =
     (case abort_run run_id st of
        (True, st', sent) \<Rightarrow> (Inr (run_id, True), st', sent)
      | (False, st', sent) \<Rightarrow> (Inl \<lparr> eb_status = 404, eb_error = ''run '' @ run_id @ '' is not in flight'' \<rparr>, st', sent))"

section \<open>The finalize body\<close>

definition effective_rps :: "finals_acc \<Rightarrow> dispatch_summary \<Rightarrow> f64" where
  "effective_rps f s =
     (if 0 < dm_workers_lost s \<and> 0 < dm_workers_dispatched s
      then fa_last_achieved_rps f
             * (of_u64 (of_nat (dm_workers_finished s)) / of_u64 (of_nat (dm_workers_dispatched s)))
      else fa_last_achieved_rps f)"

record finalize_body =
  fb_effective_rps :: f64
  fb_p50_us :: i64
  fb_p95_us :: i64
  fb_p99_us :: i64
  fb_p999_us :: i64
  fb_total_requests :: i64
  fb_total_pass :: i64
  fb_cliff_rps :: "f64 option"
  fb_status :: string
  fb_corrected_hist :: bytes
  fb_uncorrected_hist :: bytes
  fb_rate_limited :: i64
  fb_rate_limit_onset_rps :: "f64 option"
  fb_workers_lost :: i64
  fb_warnings :: "warning list"

definition finalize_body_of :: "finals_acc \<Rightarrow> dispatch_summary \<Rightarrow> finalize_body" where
  "finalize_body_of f s =
     \<lparr> fb_effective_rps = effective_rps f s, fb_p50_us = fa_last_p50_us f, fb_p95_us = fa_last_p95_us f,
       fb_p99_us = fa_last_p99_us f, fb_p999_us = fa_last_p99_us f, fb_total_requests = tt_total (dm_totals s),
       fb_total_pass = tt_pass (dm_totals s), fb_cliff_rps = cliff_rps f,
       fb_status = (if dm_aborted s then ''aborted'' else ''completed''), fb_corrected_hist = fa_last_hist_v2 f,
       fb_uncorrected_hist = fa_last_uncorrected_hist_v2 f, fb_rate_limited = tt_rate_limited (dm_totals s),
       fb_rate_limit_onset_rps = dm_first_429_rps s, fb_workers_lost = of_nat (dm_workers_lost s),
       fb_warnings = dm_warnings s \<rparr>"

section \<open>The run endpoint\<close>

text \<open>
  What the handler needs from outside: the clock, a fresh token, the events at the coordinator while the run is in flight,
  the aggregated ticks and the joined worker tasks. It answers, posts ticks and at most one finalize body. The run is
  aborted if its token is cancelled when the token is read, after the workers are joined (\<open>re_meanwhile\<close> are the events
  before that read); the events between the read and the deregistration of the run (\<open>re_late\<close>) still find it in flight.
\<close>

record run_env =
  re_now :: i64
  re_token :: nat
  re_meanwhile :: "co_event list"
  re_late :: "co_event list"
  re_ticks :: "aggregated_tick list"
  re_joined :: "worker_summary option list"

definition run_endpoint ::
  "run_request \<Rightarrow> run_env \<Rightarrow> coordinator \<Rightarrow>
   (error_body + run_response) \<times> coordinator \<times> (string \<times> aggregated_tick) list \<times> (string \<times> finalize_body) list" where
  "run_endpoint req env st =
     (let spec = dispatch_spec_of req in
      case dispatch_begin spec (re_now env) (re_token env) st of
        (Inl NoWorkers, st1) \<Rightarrow> (Inl \<lparr> eb_status = 503, eb_error = ''no registered workers'' \<rparr>, st1, [], [])
      | (Inr calls, st1) \<Rightarrow>
          let finals = fold observe (re_ticks env) finals_acc_default;
              st1' = co_run (re_meanwhile env) st1;
              (s, st2) = dispatch_finish spec (length calls) (re_joined env) (re_token env) (re_late env) st1'
          in (Inr (to_response (rq_run_id req) s), st2,
              case rq_control_tick_url req of None \<Rightarrow> [] | Some u \<Rightarrow> map (\<lambda>t. (u, t)) (re_ticks env),
              case rq_control_finalize_url req of None \<Rightarrow> [] | Some u \<Rightarrow> [(u, finalize_body_of finals s)]))"

section \<open>The token of a run\<close>

text \<open>While run \<open>r\<close> is registered under token \<open>k\<close> and no other run has the token, the token is cancelled by aborts of \<open>r\<close> only.\<close>

definition holds_token :: "string \<Rightarrow> nat \<Rightarrow> coordinator \<Rightarrow> bool" where
  "holds_token r k st \<longleftrightarrow> hm_wf (co_runs st)
     \<and> (\<forall>q h. hm_get (co_runs st) q = Some h \<longrightarrow> (rh_cancel h = k \<longleftrightarrow> q = r)) \<and> hm_get (co_runs st) r \<noteq> None"

fun keeps_run :: "string \<Rightarrow> nat \<Rightarrow> co_event \<Rightarrow> bool" where
  "keeps_run r k (RunStarts q h) \<longleftrightarrow> q \<noteq> r \<and> rh_cancel h \<noteq> k"
| "keeps_run r k (RunEnds q) \<longleftrightarrow> q \<noteq> r"
| "keeps_run r k _ \<longleftrightarrow> True"

lemma holds_token_step:
  assumes "holds_token r k st" "keeps_run r k e"
  shows "holds_token r k (co_step e st)"
    and "k \<in> set (co_cancelled (co_step e st)) \<longleftrightarrow> k \<in> set (co_cancelled st) \<or> e = AbortsRun r"
proof -
  have abort: "co_runs (co_step (AbortsRun q) st) = co_runs st" for q
    by (simp add: abort_run_def split: option.split)
  have other: "co_runs (co_step e st) = co_runs st \<and> co_cancelled (co_step e st) = co_cancelled st"
    if "\<forall>q h. e \<noteq> RunStarts q h" "\<forall>q. e \<noteq> RunEnds q \<and> e \<noteq> AbortsRun q"
    using that by (cases e)
      (auto simp: co_register_def co_heartbeat_def reap_dead_workers_def Let_def split: option.split)
  show "holds_token r k (co_step e st)"
    using assms other abort
    by (cases e) (auto simp: holds_token_def register_run_def deregister_run_def hm.inv_insert hm.inv_remove
        hm.get_insert hm.get_remove split: if_splits)
  show "k \<in> set (co_cancelled (co_step e st)) \<longleftrightarrow> k \<in> set (co_cancelled st) \<or> e = AbortsRun r"
    using assms other
    by (cases e) (auto simp: holds_token_def register_run_def deregister_run_def abort_run_def split: option.split)
qed

lemma holds_token_run:
  "holds_token r k st \<Longrightarrow> \<forall>e\<in>set es. keeps_run r k e \<Longrightarrow>
   k \<in> set (co_cancelled (co_run es st)) \<longleftrightarrow> k \<in> set (co_cancelled st) \<or> AbortsRun r \<in> set es"
  by (induction es arbitrary: st) (auto simp: holds_token_step)

lemma holds_token_kept: "holds_token r k st \<Longrightarrow> \<forall>e\<in>set es. keeps_run r k e \<Longrightarrow> holds_token r k (co_run es st)"
  by (induction es arbitrary: st) (auto simp: holds_token_step)

lemma abort_is_found: "holds_token r k st \<Longrightarrow> fst (abort_run r st)"
  by (auto simp: holds_token_def abort_run_def split: option.split)

lemma dispatch_begin_token:
  assumes "hm_wf (co_runs st)" "\<forall>q h. hm_get (co_runs st) q = Some h \<longrightarrow> rh_cancel h \<noteq> token"
    and "dispatch_begin spec now token st = (Inr calls, st1)"
  shows "holds_token (ds_run_id spec) token st1" "co_cancelled st1 = co_cancelled st"
proof -
  obtain addrs where st1: "st1 = register_run (ds_run_id spec) \<lparr> rh_worker_addrs = addrs, rh_cancel = token \<rparr> st"
    using assms(3) by (auto simp: dispatch_begin_def Let_def split: if_splits)
  show "holds_token (ds_run_id spec) token st1"
    unfolding st1 holds_token_def register_run_def
    by (simp add: hm.inv_insert hm.get_insert assms(1)) (use assms(2) in blast)
  show "co_cancelled st1 = co_cancelled st" by (simp add: st1 register_run_def)
qed

section \<open>Properties\<close>


text \<open>C32. Without registered workers a run request is answered with 503; nothing is posted to the control plane and the
  coordinator is unchanged. This is the only error: with a worker the answer is a summary for the requested run.\<close>

theorem run_endpoint_errors:
  "case run_endpoint req env st of
     (Inl e, st', ticks, bodies) \<Rightarrow> co_workers st = [] \<and> eb_status e = 503 \<and> st' = st \<and> ticks = [] \<and> bodies = []
   | (Inr resp, st', ticks, bodies) \<Rightarrow> co_workers st \<noteq> [] \<and> rs_run_id resp = rq_run_id req
       \<and> rs_workers_dispatched resp = length (co_workers st)"
proof (cases "co_workers st = []")
  case True
  then show ?thesis by (simp add: run_endpoint_def dispatch_begin_def list_workers_def hm_values_def Let_def)
next
  case False
  then show ?thesis
    using take_summary_frame [of "re_joined env" "summary_init (length (co_workers st))"]
    by (simp add: run_endpoint_def dispatch_begin_def list_workers_def hm_values_def Let_def dispatch_finish_def
        dispatch_account_def to_response_def summary_init_def)
qed

lemma fraction_le_one:
  assumes "m \<le> n" "0 < n" "n < 2 ^ 53"
  shows "\<exists>q. of_u64 (of_nat m) / of_u64 (of_nat n) = Fin q \<and> 0 \<le> q \<and> q \<le> 1"
proof -
  have small: "unat (of_nat k :: u64) = k" if "k < 2 ^ 53" for k
    using that by (simp add: unat_of_nat take_bit_nat_eq_self)
  have m: "m < 2 ^ 53" using assms by simp
  let ?q = "round64 (of_nat m / of_nat n)"
  have q: "0 \<le> ?q" "?q \<le> 1"
    using b64.rnd_nonneg [of "of_nat m / of_nat n"] round64_mono [of "of_nat m / of_nat n" 1] round64_int [of 1] assms(1,2)
    by (simp_all add: divide_le_eq)
  then have "mk64 (of_nat m / of_nat n) = Fin ?q" by (intro mk64_Fin) simp
  then show ?thesis
    using assms(2,3) m q by (simp add: of_u64_small small)
qed

text \<open>The effective rate is never overstated: it lies between zero and the rate of the last aggregated second, and is
  that rate itself when no worker was lost.\<close>

lemma effective_rps_never_overstated:
  assumes "fa_last_achieved_rps f = Fin (of_nat rate)" "rate \<le> 2 ^ 53"
    and "dm_workers_finished s \<le> dm_workers_dispatched s" "dm_workers_dispatched s < 2 ^ 53"
  shows "Fin 0 \<le> effective_rps f s \<and> effective_rps f s \<le> Fin (of_nat rate)
    \<and> (dm_workers_lost s = 0 \<longrightarrow> effective_rps f s = Fin (of_nat rate))"
proof (cases "0 < dm_workers_lost s \<and> 0 < dm_workers_dispatched s")
  case True
  then obtain q where q: "of_u64 (of_nat (dm_workers_finished s)) / of_u64 (of_nat (dm_workers_dispatched s)) = Fin q"
    "0 \<le> q" "q \<le> 1"
    using fraction_le_one [OF assms(3) _ assms(4)] by blast
  have "of_nat rate * q \<le> of_nat rate" using q(3) by (simp add: mult_left_le)
  then have "mk64 (of_nat rate * q) \<le> mk64 (of_nat rate)" by (rule mk64_mono)
  moreover have "mk64 (of_nat rate) = Fin (of_nat rate)" using mk64_int [of "int rate"] assms(2) by simp
  moreover have "Fin 0 \<le> mk64 (of_nat rate * q)" using q(2) by (intro mk64_nonneg) simp
  ultimately show ?thesis using True q(1) by (simp add: effective_rps_def assms(1))
next
  case False
  then show ?thesis by (auto simp: effective_rps_def assms(1))
qed

text \<open>The finalized run carries the latest information of its ticks: the rate of the last tick; the three percentiles of
  one and the same tick, the last one that had any; and the last histograms that were not empty.\<close>

lemma finals_are_latest:
  "let f = fold observe gs finals_acc_default in
     fa_last_achieved_rps f = (if gs = [] then f64_lit 0 else gt_achieved_rps_1s (last gs))
   \<and> (fa_last_p50_us f, fa_last_p95_us f, fa_last_p99_us f) =
       (case filter (\<lambda>t. 0 < agg_p99_us (gt_percentiles t)) (rev gs) of [] \<Rightarrow> (0, 0, 0)
        | t # _ \<Rightarrow> (agg_p50_us (gt_percentiles t), agg_p95_us (gt_percentiles t), agg_p99_us (gt_percentiles t)))
   \<and> fa_last_hist_v2 f = (case filter (\<lambda>t. gt_merged_hist_v2 t \<noteq> []) (rev gs) of [] \<Rightarrow> [] | t # _ \<Rightarrow> gt_merged_hist_v2 t)
   \<and> fa_last_uncorrected_hist_v2 f =
       (case filter (\<lambda>t. gt_merged_uncorrected_hist_v2 t \<noteq> []) (rev gs) of [] \<Rightarrow> [] | t # _ \<Rightarrow> gt_merged_uncorrected_hist_v2 t)"
proof (induction gs rule: rev_induct)
  case Nil
  then show ?case by (simp add: finals_acc_default_def)
next
  case (snoc t gs)
  then show ?case by (simp add: observe_def Let_def)
qed

section \<open>An example\<close>

definition demo_request :: run_request where
  "demo_request =
     \<lparr> rq_run_id = ''r1'', rq_target_url = ''http://svc/'', rq_target_method = None, rq_target_rps = Fin 100, rq_duration_s = 30,
       rq_connections = None, rq_keepalive = None, rq_timeout_ms = None, rq_expected_status = None, rq_target_headers = None,
       rq_epoch_unix_us = None, rq_max_latency_us = None, rq_min_body_bytes = None, rq_max_body_bytes = None,
       rq_content_type = None, rq_control_tick_url = None, rq_control_finalize_url = Some ''http://control/finalize'' \<rparr>"

text \<open>The only worker disappears without a final partial, and the run is aborted meanwhile.\<close>

definition demo_env :: "co_event list \<Rightarrow> co_event list \<Rightarrow> run_env" where
  "demo_env es late =
     \<lparr> re_now = 5, re_token = 9, re_meanwhile = es, re_late = late, re_ticks = [], re_joined = [Some worker_summary_default] \<rparr>"

lemma demo_urls:
  "rq_control_tick_url demo_request = None" "rq_control_finalize_url demo_request = Some ''http://control/finalize''"
  "rq_run_id demo_request = ''r1''"
  by (simp_all add: demo_request_def)

lemma demo_no_runs: "co_runs demo_coordinator = []" "co_cancelled demo_coordinator = []" "list_workers demo_coordinator \<noteq> []"
  by (simp_all add: demo_coordinator_def co_register_def demo_info_def CONTRACT_VERSION_def coordinator_new_def list_workers_def
      hm_values_def hm_insert_def)


text \<open>An abort that comes after the token was read: its caller is told that it succeeded, and the run is finalized as completed.\<close>

lemma late_abort_is_answered_and_lost:
  "\<exists>resp st' body. run_endpoint demo_request (demo_env [] [AbortsRun ''r1'']) demo_coordinator
      = (Inr resp, st', [], [(''http://control/finalize'', body)]) \<and> fb_status body = ''completed''
     \<and> fst (abort_run ''r1'' (snd (dispatch_begin (dispatch_spec_of demo_request) 5 9 demo_coordinator)))"
proof -
  have sp: "ds_run_id (dispatch_spec_of demo_request) = ''r1''" by (simp add: dispatch_spec_of_def demo_urls)
  obtain resp st' body where r: "run_endpoint demo_request (demo_env [] [AbortsRun ''r1'']) demo_coordinator
      = (Inr resp, st', [], [(''http://control/finalize'', body)])" and "fb_status body = ''completed''"
    by (simp add: run_endpoint_def dispatch_begin_def demo_no_runs demo_urls Let_def case_prod_beta demo_env_def
        dispatch_finish_def dispatch_account_def register_run_def finalize_body_of_def summary_init_def split: if_split)
  moreover have "fst (abort_run ''r1'' (snd (dispatch_begin (dispatch_spec_of demo_request) 5 9 demo_coordinator)))"
    by (simp add: dispatch_begin_def demo_no_runs(1,3) Let_def sp abort_run_def register_run_def hm_insert_def hm_get_def)
  ultimately show ?thesis by (intro exI conjI)
qed

end
