(* ===== verification/Registration.thy ===== *)
theory Registration
  imports Coordinator Http_Reader
begin

text \<open>
  The worker process, \<open>engine/src/bin/worker_node.rs\<close>: the address it announces, the bounded retry loop before it starts to
  serve, the registration message and the endless re-registration loop; and the process of the coordinator,
  \<open>engine/src/bin/coordinator.rs\<close>. Dialling is an argument: the n-th attempt gives an error or the coordinator's answer.
  Durations of the retry loop are milliseconds, instants microseconds.
\<close>

section \<open>The loop\<close>

datatype 'e registration_error = Rejected string | GaveUp nat 'e

definition REREGISTER_INTERVAL :: nat where
  "REREGISTER_INTERVAL = 10000"

definition max_attempts :: nat where
  "max_attempts = 30"

definition worker_info_of :: "string \<Rightarrow> string \<Rightarrow> u32 \<Rightarrow> worker_info" where
  "worker_info_of worker_id address max_rps =
     \<lparr> wi_worker_id = worker_id, wi_address = address, wi_contract_version = CONTRACT_VERSION, wi_max_rps = max_rps \<rparr>"

text \<open>The result is the list of the delays slept and the outcome.\<close>

function register_loop ::
  "(nat \<Rightarrow> 'e + register_ack) \<Rightarrow> nat \<Rightarrow> nat \<Rightarrow> nat list \<times> ('e registration_error + unit)" where
  "register_loop dial attempt delay =
     (case dial (attempt + 1) of
        Inr ack \<Rightarrow> ([], if ack_accepted ack then Inr () else Inl (Rejected (ack_reason ack)))
      | Inl e \<Rightarrow>
          if attempt + 1 < max_attempts
          then (let (slept, r) = register_loop dial (attempt + 1) (min (delay * 2) 5000) in (delay # slept, r))
          else ([], Inl (GaveUp (attempt + 1) e)))"
  by pat_completeness auto

termination
  by (relation "measure (\<lambda>(dial, attempt, delay). max_attempts - attempt)") auto

declare register_loop.simps [simp del]

definition register_with_coordinator :: "(nat \<Rightarrow> 'e + register_ack) \<Rightarrow> nat list \<times> ('e registration_error + unit)" where
  "register_with_coordinator dial = register_loop dial 0 200"

section \<open>Its outcome\<close>

text \<open>The first attempt that is answered, among the attempts from \<open>n\<close> to 30.\<close>

fun is_error :: "'e + 'a \<Rightarrow> bool" where
  "is_error (Inl _) = True"
| "is_error (Inr _) = False"

definition first_answer :: "(nat \<Rightarrow> 'e + register_ack) \<Rightarrow> nat \<Rightarrow> nat option" where
  "first_answer dial n = find (\<lambda>i. \<not> is_error (dial i)) [n..<Suc max_attempts]"

lemma first_answer_step:
  "n \<le> max_attempts \<Longrightarrow> first_answer dial n = (if is_error (dial n) then first_answer dial (Suc n) else Some n)"
  by (simp add: first_answer_def upt_conv_Cons del: upt_Suc)

lemma first_answer_end: "first_answer dial (Suc max_attempts) = None"
  by (simp add: first_answer_def)

lemma first_answerD:
  assumes "first_answer dial k = Some n"
  shows "k \<le> n" "n \<le> max_attempts" "\<not> is_error (dial n)" "\<forall>i\<in>{k..<n}. is_error (dial i)"
proof -
  obtain j where j: "j < length [k..<Suc max_attempts]" "\<not> is_error (dial ([k..<Suc max_attempts] ! j))"
    "n = [k..<Suc max_attempts] ! j" "\<forall>i<j. is_error (dial ([k..<Suc max_attempts] ! i))"
    using assms unfolding first_answer_def by (auto simp only: find_Some_iff not_not)
  then have n: "n = k + j" "k + j < Suc max_attempts" by (simp_all del: upt_Suc)
  then show "k \<le> n" "n \<le> max_attempts" "\<not> is_error (dial n)" using j by (simp_all del: upt_Suc)
  show "\<forall>i\<in>{k..<n}. is_error (dial i)"
  proof
    fix i assume i: "i \<in> {k..<n}"
    then have "i - k < j" using n by auto
    then have "is_error (dial ([k..<Suc max_attempts] ! (i - k)))" using j(4) by blast
    then show "is_error (dial i)" using i n by (simp del: upt_Suc)
  qed
qed

text \<open>The outcome of an answer, and the delays slept before the n-th attempt when the first of them is \<open>d\<close>.\<close>

fun answered :: "register_ack \<Rightarrow> 'e registration_error + unit" where
  "answered ack = (if ack_accepted ack then Inr () else Inl (Rejected (ack_reason ack)))"

definition delays :: "nat \<Rightarrow> nat \<Rightarrow> nat list" where
  "delays d n = map (\<lambda>i. min (d * 2 ^ i) 5000) [0..<n]"

lemma capped_doubling: "min (d * 2 ^ Suc i) 5000 = min (min (d * 2) 5000 * 2 ^ i) (5000 :: nat)"
proof (cases "d * 2 \<le> 5000")
  case False
  have "(1 :: nat) \<le> 2 ^ i" by simp
  then have "5000 * 1 \<le> 5000 * (2 ^ i :: nat)" "5000 * 1 \<le> (d * 2) * (2 ^ i :: nat)" using False by (intro mult_le_mono; simp)+
  then show ?thesis using False by (simp add: mult.assoc)
qed (simp add: mult.assoc)

lemma delays_Suc: "d \<le> 5000 \<Longrightarrow> delays d (Suc n) = d # delays (min (d * 2) 5000) n"
  unfolding delays_def
  by (subst upt_conv_Cons) (simp_all add: map_Suc_upt [symmetric] capped_doubling comp_def del: upt_Suc power_Suc)

lemma register_loop_outcome:
  assumes "attempt < max_attempts" "delay \<le> 5000"
  shows "case first_answer dial (Suc attempt) of
      Some n \<Rightarrow> (\<exists>ack. dial n = Inr ack \<and> register_loop dial attempt delay = (delays delay (n - Suc attempt), answered ack))
    | None \<Rightarrow> (\<exists>e. dial max_attempts = Inl e
        \<and> register_loop dial attempt delay = (delays delay (max_attempts - Suc attempt), Inl (GaveUp max_attempts e)))"
  using assms
proof (induction dial attempt delay rule: register_loop.induct)
  case (1 dial attempt delay)
  note step = register_loop.simps [of dial attempt delay] first_answer_step [of "Suc attempt" dial]
  show ?case
  proof (cases "dial (Suc attempt)")
    case (Inl e)
    show ?thesis
    proof (cases "Suc attempt < max_attempts")
      case True
      have IH: "case first_answer dial (Suc (Suc attempt)) of
          Some n \<Rightarrow> (\<exists>ack. dial n = Inr ack \<and> register_loop dial (Suc attempt) (min (delay * 2) 5000)
              = (delays (min (delay * 2) 5000) (n - Suc (Suc attempt)), answered ack))
        | None \<Rightarrow> (\<exists>e. dial max_attempts = Inl e \<and> register_loop dial (Suc attempt) (min (delay * 2) 5000)
              = (delays (min (delay * 2) 5000) (max_attempts - Suc (Suc attempt)), Inl (GaveUp max_attempts e)))"
        using "1.IH" [unfolded Suc_eq_plus1 [symmetric]] Inl True by simp
      show ?thesis
      proof (cases "first_answer dial (Suc (Suc attempt))")
        case None
        have "max_attempts - Suc attempt = Suc (max_attempts - Suc (Suc attempt))" using True by simp
        then show ?thesis using None IH step Inl True "1.prems" by (auto simp: delays_Suc)
      next
        case (Some n)
        have "n - Suc attempt = Suc (n - Suc (Suc attempt))" using first_answerD(1) [OF Some] by simp
        then show ?thesis using Some IH step Inl True "1.prems" by (auto simp: delays_Suc)
      qed
    next
      case False
      then have "Suc attempt = max_attempts" using "1.prems" by simp
      then show ?thesis using Inl step first_answer_end [of dial] by (simp add: delays_def)
    qed
  qed (use step "1.prems" in \<open>simp add: delays_def\<close>)
qed

lemma sum_delays_mono: "m \<le> n \<Longrightarrow> sum_list (delays d m) \<le> sum_list (delays d n)"
  by (induction rule: dec_induct) (auto simp: delays_def)

text \<open>C28. Registration always comes to an end: whatever the coordinator does, the loop makes at most 30 attempts and sleeps
  at most 126.2 seconds in total, doubling from 200 milliseconds up to five seconds. It succeeds exactly if the first
  answer among the 30 attempts accepts the worker; a rejection is final, and without any answer the last error is
  reported.\<close>

theorem registration_terminates:
  "\<exists>n\<in>{1..30}. (\<forall>i\<in>{1..<n}. is_error (dial i)) \<and> fst (register_with_coordinator dial) = delays 200 (n - 1)
     \<and> sum_list (fst (register_with_coordinator dial)) \<le> 126200
     \<and> snd (register_with_coordinator dial) = (case dial n of Inr ack \<Rightarrow> answered ack | Inl e \<Rightarrow> Inl (GaveUp 30 e))
     \<and> (is_error (dial n) \<longrightarrow> n = 30)"
proof -
  have all: "sum_list (delays 200 29) = 126200" by (simp add: delays_def upt_rec)
  have out: "case first_answer dial 1 of
      Some n \<Rightarrow> (\<exists>ack. dial n = Inr ack \<and> register_with_coordinator dial = (delays 200 (n - 1), answered ack))
    | None \<Rightarrow> (\<exists>e. dial 30 = Inl e \<and> register_with_coordinator dial = (delays 200 29, Inl (GaveUp 30 e)))"
    using register_loop_outcome [of 0 200 dial] by (simp add: max_attempts_def register_with_coordinator_def cong: option.case_cong)
  show ?thesis
  proof (cases "first_answer dial 1")
    case None
    have "is_error (dial i)" if "i \<in> {1..<30}" for i
      using None that by (simp add: first_answer_def find_None_iff max_attempts_def del: upt_Suc)
    moreover obtain e where "dial 30 = Inl e" "register_with_coordinator dial = (delays 200 29, Inl (GaveUp 30 e))"
      using out None by auto
    ultimately show ?thesis using all by (intro bexI [of _ 30]) simp_all
  next
    case (Some n)
    note n = first_answerD [OF Some]
    have "sum_list (delays 200 (n - 1)) \<le> 126200"
      using sum_delays_mono [of "n - 1" 29 200] n(2) all by (simp add: max_attempts_def)
    moreover obtain ack where "dial n = Inr ack" "register_with_coordinator dial = (delays 200 (n - 1), answered ack)"
      using out Some by auto
    ultimately show ?thesis using n by (intro bexI [of _ n]) (simp_all add: max_attempts_def)
  qed
qed

text \<open>A coordinator that comes up for the third attempt.\<close>

theorem registration_terminates_witness:
  "register_with_coordinator (\<lambda>n. if n < 3 then Inl ''connection refused'' else Inr \<lparr> ack_accepted = True, ack_reason = [] \<rparr>)
   = ([200, 400], Inr ())"
proof -
  let ?dial = "\<lambda>n :: nat. if n < 3 then Inl ''connection refused'' else Inr \<lparr> ack_accepted = True, ack_reason = [] \<rparr>"
  obtain n where n: "n \<in> {1..30}" "\<forall>i\<in>{1..<n}. is_error (?dial i)" "is_error (?dial n) \<longrightarrow> n = 30"
    and out: "fst (register_with_coordinator ?dial) = delays 200 (n - 1)"
      "snd (register_with_coordinator ?dial) = (case ?dial n of Inr ack \<Rightarrow> answered ack | Inl e \<Rightarrow> Inl (GaveUp 30 e))"
    using registration_terminates [of ?dial] by (elim bexE conjE) (rule that)
  have "n \<ge> 3" using n(3) by (auto split: if_splits)
  moreover have "\<not> 3 < n" using bspec [OF n(2), of 3] by auto
  ultimately have "n = 3" by simp
  then have "fst (register_with_coordinator ?dial) = [200, 400]" "snd (register_with_coordinator ?dial) = Inr ()"
    using out by (simp_all add: delays_def numeral_2_eq_2)
  then show ?thesis by (simp add: prod_eq_iff)
qed

text \<open>Against this coordinator, a worker with an id and an address is accepted.\<close>

lemma own_registration_accepted:
  "worker_id \<noteq> [] \<Longrightarrow> address \<noteq> [] \<Longrightarrow>
   ack_accepted (fst (co_register (worker_info_of worker_id address max_rps) now st))"
  by (simp add: register_accepted worker_info_of_def)

section \<open>The worker process\<close>

text \<open>What the code reads of a \<open>SocketAddr\<close>: how it is printed, whether its ip is unspecified, and its port.\<close>

record socket_addr =
  sa_text :: string
  sa_unspecified :: bool
  sa_port :: u16

record node_cli =
  nc_coord :: string
  nc_listen :: socket_addr
  nc_address :: "string option"
  nc_worker_id :: "string option"
  nc_max_rps :: u32

text \<open>\<open>fresh\<close> is the uuid drawn for a process without an id, \<open>hostname\<close> the variable HOSTNAME.\<close>

definition node_worker_id :: "string \<Rightarrow> node_cli \<Rightarrow> string" where
  "node_worker_id fresh cli = (case nc_worker_id cli of Some w \<Rightarrow> w | None \<Rightarrow> fresh)"

definition advertised_address :: "string option \<Rightarrow> node_cli \<Rightarrow> string" where
  "advertised_address hostname cli =
     (case nc_address cli of
        Some a \<Rightarrow> a
      | None \<Rightarrow>
          if sa_unspecified (nc_listen cli) then
            (case hostname of Some h \<Rightarrow> h | None \<Rightarrow> ''127.0.0.1'') @ '':'' @ decimal (unat (sa_port (nc_listen cli)))
          else sa_text (nc_listen cli))"

definition node_info :: "string \<Rightarrow> string option \<Rightarrow> node_cli \<Rightarrow> worker_info" where
  "node_info fresh hostname cli =
     worker_info_of (node_worker_id fresh cli) (advertised_address hostname cli) (nc_max_rps cli)"

text \<open>
  The re-registration loop, against the coordinator it talks to. A tick of the interval comes when its instant has been
  reached: the \<open>k\<close>-th is due \<open>k\<close> intervals after the start, and a tick that is overdue, because the last attempt took long, comes
  at once (the default behaviour of a \<open>tokio\<close> interval). The first tick is at once and skipped. Each attempt is awaited before
  the next tick; whatever it gives is logged, and the loop goes on.

  An attempt has what happens at the coordinator since the last one (it may restart and lose its registry), how far the
  call gets - the coordinator is not reached, or it handles the registration after some time and its answer arrives or
  not - and how long the call takes in all; a connect has no timeout, so that may be long.
\<close>

datatype reregister_log = Reregistered | RegistrationRejected string | AttemptFailed

definition reregister_log_of :: "'e + register_ack \<Rightarrow> reregister_log" where
  "reregister_log_of r =
     (case r of Inl e \<Rightarrow> AttemptFailed
      | Inr ack \<Rightarrow> if ack_accepted ack then Reregistered else RegistrationRejected (ack_reason ack))"

datatype coordinator_event = Happens co_event | Restarts

fun coordinator_step :: "coordinator_event \<Rightarrow> coordinator \<Rightarrow> coordinator" where
  "coordinator_step (Happens e) st = co_step e st"
| "coordinator_step Restarts st = coordinator_new"

datatype 'e dial_fate = Unreached 'e | Answered nat | Answer_Lost nat 'e

record 'e attempt =
  at_before :: "coordinator_event list"
  at_fate :: "'e dial_fate"
  at_took :: nat

fun dial_and_register :: "worker_info \<Rightarrow> nat \<Rightarrow> 'e dial_fate \<Rightarrow> coordinator \<Rightarrow> ('e + register_ack) \<times> coordinator" where
  "dial_and_register info now (Unreached e) st = (Inl e, st)"
| "dial_and_register info now (Answered d) st = (case co_register info (now + d) st of (ack, st') \<Rightarrow> (Inr ack, st'))"
| "dial_and_register info now (Answer_Lost d e) st = (Inl e, snd (co_register info (now + d) st))"

definition tick_at :: "nat \<Rightarrow> nat \<Rightarrow> nat \<Rightarrow> nat" where
  "tick_at started k now = max now (started + k * (REREGISTER_INTERVAL * 1000))"

fun reregister_loop ::
  "worker_info \<Rightarrow> nat \<Rightarrow> nat \<Rightarrow> nat \<Rightarrow> 'e attempt list \<Rightarrow> coordinator \<Rightarrow> (nat \<times> reregister_log) list \<times> coordinator" where
  "reregister_loop info started k now [] st = ([], st)"
| "reregister_loop info started k now (a # as) st =
     (let t = tick_at started k now;
          (r, st1) = dial_and_register info t (at_fate a) (fold coordinator_step (at_before a) st);
          (log, st2) = reregister_loop info started (Suc k) (t + at_took a) as st1
      in ((t, reregister_log_of r) # log, st2))"

definition spawn_reregister_loop ::
  "worker_info \<Rightarrow> nat \<Rightarrow> 'e attempt list \<Rightarrow> coordinator \<Rightarrow> (nat \<times> reregister_log) list \<times> coordinator" where
  "spawn_reregister_loop info started as st = reregister_loop info started 1 (tick_at started 0 started) as st"

text \<open>The process: it serves only after its registration has been accepted, otherwise \<open>main\<close> returns the error.\<close>

definition node_main :: "(nat \<Rightarrow> 'e + register_ack) \<Rightarrow> bool \<Rightarrow> bool \<times> nat" where
  "node_main dial served_ok =
     (case snd (register_with_coordinator dial) of
        Inl e \<Rightarrow> (False, 1)
      | Inr _ \<Rightarrow> (True, if served_ok then 0 else 1))"

section \<open>The coordinator process\<close>

text \<open>
  One state is shared by the reaper, the gRPC server and the admin server. The process ends with the server that ends
  first, and with success: what a server returned is only printed.
\<close>

datatype server = GrpcServer | AdminServer

datatype server_end = Stopped | ServerError string | Panicked string

definition coordinator_main :: "server \<Rightarrow> server_end \<Rightarrow> string option \<times> nat" where
  "coordinator_main who how =
     (let name = (case who of GrpcServer \<Rightarrow> ''grpc'' | AdminServer \<Rightarrow> ''admin'') in
      (case how of
         Stopped \<Rightarrow> None
       | ServerError e \<Rightarrow> Some (''coordinator: '' @ name @ '' server error: '' @ e)
       | Panicked e \<Rightarrow> Some (''coordinator: '' @ name @ '' task panicked: '' @ e), 0))"

section \<open>A coordinator that restarts\<close>

lemma loop_append:
  "reregister_loop info started k now (xs @ ys) st =
     (let (log, st1) = reregister_loop info started k now xs st;
          (k1, now1) = fold (\<lambda>a (k, now). (Suc k, tick_at started k now + at_took a)) xs (k, now);
          (log', st2) = reregister_loop info started k1 now1 ys st1
      in (log @ log', st2))"
  by (induction xs arbitrary: k now st) (auto simp: Let_def split: prod.split)

lemma loop_length: "length (fst (reregister_loop info started k now as st)) = length as"
  by (induction as arbitrary: k now st) (simp_all add: Let_def case_prod_beta)

text \<open>Attempts follow each other within an interval, or within the time that the longest attempt takes.\<close>

lemma loop_pace:
  assumes "\<forall>a\<in>set as. at_took a \<le> longest" "t \<in> fst ` set (fst (reregister_loop info started k now as st))" "now \<le> r" "r < t"
    and "r0 \<le> r" "tick_at started k now \<le> r0 + max (REREGISTER_INTERVAL * 1000) longest"
  shows "\<exists>t'\<in>fst ` set (fst (reregister_loop info started k now as st)). r < t' \<and> t' \<le> r + max (REREGISTER_INTERVAL * 1000) longest"
  using assms
proof (induction as arbitrary: k now st r0)
  case (Cons a as)
  let ?t = "tick_at started k now" and ?P = "max (REREGISTER_INTERVAL * 1000) longest"
  obtain r1 st1 where d: "dial_and_register info ?t (at_fate a) (fold coordinator_step (at_before a) st) = (r1, st1)" by fastforce
  obtain log st2 where l: "reregister_loop info started (Suc k) (?t + at_took a) as st1 = (log, st2)" by fastforce
  have run: "fst (reregister_loop info started k now (a # as) st) = (?t, reregister_log_of r1) # log"
    by (simp add: Let_def d l)
  show ?case
  proof (cases "r < ?t")
    case True
    have "?t \<le> r + ?P" using Cons.prems(5,6) by linarith
    with True show ?thesis unfolding run by auto
  next
    case False
    then have later: "t \<in> fst ` set log" using Cons.prems(2,4) unfolding run by auto
    have next_tick: "tick_at started (Suc k) (?t + at_took a) \<le> ?t + ?P"
      using Cons.prems(1) by (auto simp: tick_at_def)
    show ?thesis
    proof (cases "?t + at_took a \<le> r")
      case True
      then show ?thesis
        using Cons.IH [of "Suc k" "?t + at_took a" st1 ?t] Cons.prems(1,4) later next_tick False unfolding run l by auto
    next
      case dialling: False
      obtain b bs where as: "as = b # bs" using later l by (cases as) auto
      let ?t' = "tick_at started (Suc k) (?t + at_took a)"
      have "?t' \<in> fst ` set log" using l unfolding as by (auto simp: Let_def split: prod.splits)
      moreover have "r < ?t'" using dialling by (simp add: tick_at_def)
      ultimately show ?thesis using next_tick False unfolding run by fastforce
    qed
  qed
qed simp

lemma coordinator_steps_inv: "co_inv st \<Longrightarrow> co_inv (fold coordinator_step es st)"
proof (induction es arbitrary: st)
  case (Cons e es)
  then show ?case by (cases e) (simp_all add: co_inv_step co_inv_new)
qed simp

lemma dial_inv: "co_inv st \<Longrightarrow> co_inv (snd (dial_and_register info now f st))"
  using co_inv_step [of st "Registers info t" for t] by (cases f) (simp_all add: case_prod_beta)

lemma loop_inv: "co_inv st \<Longrightarrow> co_inv (snd (reregister_loop info started k now as st))"
proof (induction as arbitrary: k now st)
  case (Cons a as)
  obtain r1 st1 where d: "dial_and_register info (tick_at started k now) (at_fate a) (fold coordinator_step (at_before a) st) = (r1, st1)"
    by fastforce
  have "co_inv st1" using dial_inv [OF coordinator_steps_inv [OF Cons.prems]] d by (metis snd_conv)
  with Cons.IH show ?case by (simp add: Let_def d case_prod_beta)
qed simp

text \<open>When the coordinator handles a registration of a valid worker, it knows it from then on, whatever it knew before.\<close>

definition reached_after :: "'e dial_fate \<Rightarrow> nat option" where
  "reached_after f = (case f of Unreached e \<Rightarrow> None | Answered d \<Rightarrow> Some d | Answer_Lost d e \<Rightarrow> Some d)"

lemma dial_registers:
  assumes "co_inv st" "wi_contract_version info = CONTRACT_VERSION" "wi_worker_id info \<noteq> []" "wi_address info \<noteq> []"
    and "dial_and_register info now f st = (r, st')"
  shows "reached_after f = Some d \<Longrightarrow> last_sign (wi_worker_id info) st' = Some (now + d)"
    and "reregister_log_of r = (case f of Answered d \<Rightarrow> Reregistered | _ \<Rightarrow> AttemptFailed)"
proof -
  have "last_sign (wi_worker_id info) (snd (co_register info (now + d) st)) = Some (now + d)" for d
    using live_step_refines [OF assms(1), of "wi_worker_id info" "Registers info (now + d)"] assms(2-4) by simp
  then show "reached_after f = Some d \<Longrightarrow> last_sign (wi_worker_id info) st' = Some (now + d)"
    using assms(5) by (cases f) (auto simp: reached_after_def case_prod_beta)
  show "reregister_log_of r = (case f of Answered d \<Rightarrow> Reregistered | _ \<Rightarrow> AttemptFailed)"
    using assms(2-5) by (cases f) (auto simp: reregister_log_of_def co_register_def split: prod.splits)
qed

text \<open>C36. The worker announces itself again and again, whatever happens. However its attempts end (the loop makes all of them and
  logs each), after every instant a further attempt starts within ten seconds, or within the time the longest attempt takes if that is
  more. And each attempt that reaches the coordinator makes the worker known there with the time of that registration as its
  last sign of life, whatever happened to the coordinator before: a coordinator that restarted and lost its registry
  knows the worker again with the next attempt that reaches it. It has no other sign of life of this
  worker, which sends no heartbeats.\<close>

theorem worker_is_relearned:
  assumes "info = node_info fresh hostname cli" "wi_worker_id info \<noteq> []" "wi_address info \<noteq> []" "co_inv st"
    and "\<forall>a\<in>set (xs @ a # ys). at_took a \<le> longest"
    and "entries = fst (spawn_reregister_loop info started (xs @ a # ys) st)" and "t = fst (entries ! length xs)"
  shows "length entries = length (xs @ a # ys)
    \<and> (\<forall>r. started \<le> r \<and> r < t \<longrightarrow>
         (\<exists>t'\<in>fst ` set entries. r < t' \<and> t' \<le> r + max (REREGISTER_INTERVAL * 1000) longest))
    \<and> snd (entries ! length xs) = (case at_fate a of Answered d \<Rightarrow> Reregistered | _ \<Rightarrow> AttemptFailed)
    \<and> (\<forall>d. reached_after (at_fate a) = Some d \<longrightarrow>
         last_sign (wi_worker_id info) (snd (spawn_reregister_loop info started (xs @ [a]) st)) = Some (t + d))"
proof (intro conjI)
  have version: "wi_contract_version info = CONTRACT_VERSION"
    by (simp add: assms(1) node_info_def worker_info_of_def)
  obtain log1 st1 where l1: "reregister_loop info started 1 (tick_at started 0 started) xs st = (log1, st1)" by fastforce
  obtain k now where kn: "fold (\<lambda>a (k, now). (Suc k, tick_at started k now + at_took a)) xs (1, tick_at started 0 started) = (k, now)"
    by fastforce
  let ?t = "tick_at started k now"
  obtain r st2 where d: "dial_and_register info ?t (at_fate a) (fold coordinator_step (at_before a) st1) = (r, st2)"
    by fastforce
  have n: "length log1 = length xs" using loop_length [of info started 1 "tick_at started 0 started" xs st] l1 by simp
  obtain rest where entries: "entries = log1 @ (?t, reregister_log_of r) # rest"
    unfolding assms(6) spawn_reregister_loop_def loop_append l1 by (simp add: kn [unfolded One_nat_def] d Let_def case_prod_beta)
  have end_state: "snd (spawn_reregister_loop info started (xs @ [a]) st) = st2"
    unfolding spawn_reregister_loop_def loop_append l1 by (simp add: kn [unfolded One_nat_def] d Let_def)
  have t: "t = ?t" "snd (entries ! length xs) = reregister_log_of r" by (simp_all add: assms(7) entries n [symmetric])
  have inv: "co_inv (fold coordinator_step (at_before a) st1)"
    using loop_inv [OF assms(4), of info started 1 "tick_at started 0 started" xs] coordinator_steps_inv l1 by simp
  note told = dial_registers [OF inv version assms(2,3) d]
  show "length entries = length (xs @ a # ys)"
    unfolding assms(6) spawn_reregister_loop_def by (rule loop_length)
  show "\<forall>r. started \<le> r \<and> r < t \<longrightarrow> (\<exists>t'\<in>fst ` set entries. r < t' \<and> t' \<le> r + max (REREGISTER_INTERVAL * 1000) longest)"
  proof (intro allI impI)
    fix r
    assume r: "started \<le> r \<and> r < t"
    have "t \<in> fst ` set (fst (reregister_loop info started 1 (tick_at started 0 started) (xs @ a # ys) st))"
      using entries t(1) unfolding assms(6) spawn_reregister_loop_def by (metis (no_types) fst_conv image_eqI in_set_conv_decomp)
    from loop_pace [OF assms(5) this, of r started] r
    show "\<exists>t'\<in>fst ` set entries. r < t' \<and> t' \<le> r + max (REREGISTER_INTERVAL * 1000) longest"
      unfolding assms(6) spawn_reregister_loop_def by (simp add: tick_at_def)
  qed
  show "snd (entries ! length xs) = (case at_fate a of Answered d \<Rightarrow> Reregistered | _ \<Rightarrow> AttemptFailed)"
    using told(2) t(2) by simp
  show "\<forall>d. reached_after (at_fate a) = Some d \<longrightarrow>
      last_sign (wi_worker_id info) (snd (spawn_reregister_loop info started (xs @ [a]) st)) = Some (t + d)"
    unfolding end_state t(1) using told(1) by blast
qed

definition demo_node :: node_cli where
  "demo_node =
     \<lparr> nc_coord = ''http://c:9090'', nc_listen = \<lparr> sa_text = ''0.0.0.0:9091'', sa_unspecified = True, sa_port = 9091 \<rparr>,
       nc_address = None, nc_worker_id = Some ''w1'', nc_max_rps = 0 \<rparr>"

text \<open>The first attempt hangs for twelve seconds and fails, the coordinator restarts, and the second attempt, 22 seconds after the
  start, reaches it.\<close>

definition demo_attempts :: "string attempt list" where
  "demo_attempts =
     [\<lparr> at_before = [], at_fate = Unreached ''timeout'', at_took = 12000000 \<rparr>,
      \<lparr> at_before = [Restarts], at_fate = Answered 500, at_took = 1000 \<rparr>]"

theorem worker_is_relearned_witness:
  "let info = node_info [] (Some ''node-1'') demo_node;
       entries = fst (spawn_reregister_loop info 0 demo_attempts coordinator_new)
   in advertised_address (Some ''node-1'') demo_node = ''node-1:9091''
     \<and> entries = [(10000000, AttemptFailed), (22000000, Reregistered)]
     \<and> (\<forall>r < 22000000 :: nat. \<exists>t'\<in>{10000000, 22000000}. r < t' \<and> t' \<le> r + 12000000)
     \<and> last_sign ''w1'' (snd (spawn_reregister_loop info 0 demo_attempts coordinator_new)) = Some 22000500"
proof -
  let ?i = "node_info [] (Some ''node-1'') demo_node" and ?f = "hd demo_attempts" and ?a = "last demo_attempts"
  let ?log = "fst (spawn_reregister_loop ?i 0 demo_attempts coordinator_new)"
  have "decimal 9091 = ''9091''" by (simp add: decimal.simps char_of_def bit_0)
  then have addr: "advertised_address (Some ''node-1'') demo_node = ''node-1:9091''"
    by (simp add: advertised_address_def demo_node_def)
  have i: "wi_worker_id ?i = ''w1''" "wi_address ?i \<noteq> []" "wi_contract_version ?i = CONTRACT_VERSION"
    using addr by (simp_all add: node_info_def worker_info_of_def node_worker_id_def demo_node_def)
  have id: "wi_worker_id ?i \<noteq> []" by (simp add: i)
  have as: "demo_attempts = [?f] @ ?a # []" by (simp add: demo_attempts_def)
  have entries: "?log = [(10000000, AttemptFailed), (22000000, Reregistered)]"
    using i by (simp add: demo_attempts_def spawn_reregister_loop_def Let_def tick_at_def REREGISTER_INTERVAL_def
        reregister_log_of_def co_register_def)
  have took: "\<forall>a\<in>set ([?f] @ ?a # []). at_took a \<le> 12000000" by (simp add: demo_attempts_def)
  note told = worker_is_relearned [OF refl id i(2) co_inv_new took refl refl, of 0, folded as, unfolded entries]
  have "\<forall>r < 22000000 :: nat. \<exists>t'\<in>{10000000, 22000000}. r < t' \<and> t' \<le> r + 12000000"
    using told [THEN conjunct2, THEN conjunct1] by (simp add: REREGISTER_INTERVAL_def)
  moreover have "reached_after (at_fate ?a) = Some 500" by (simp add: demo_attempts_def reached_after_def)
  with told [THEN conjunct2, THEN conjunct2, THEN conjunct2]
  have "last_sign ''w1'' (snd (spawn_reregister_loop ?i 0 demo_attempts coordinator_new)) = Some 22000500"
    using as by (simp add: i)
  ultimately show ?thesis using addr entries by (simp add: Let_def)
qed

end
