(* ===== verification/Worker_Progress.thy ===== *)
theory Worker_Progress
  imports Worker_Ticks
begin

text \<open>
  The tasks of a run never get stuck, and they end: well-formed connections (\<open>conn_typed\<close>), progress of some connection
  until all of them are joined, and a bound on what is left to do after an abort or the deadline. The state machine is
  that of \<open>Worker_Run\<close>; the emitter does not hold up a run, which aborts it once the connections are joined.
  \<open>Start_Barrier\<close> adds the connect phase.
\<close>

section \<open>Well-formed connections\<close>

text \<open>How many operations an action can lead to: a sample that is due is pushed, a claimed onset is stored.\<close>

fun action_steps :: "action \<Rightarrow> nat" where
  "action_steps (SampleSeq s) = 2"
| "action_steps (ClaimOnset x) = 2"
| "action_steps _ = 1"

definition todo_steps :: "action list \<Rightarrow> nat" where
  "todo_steps as = sum_list (map action_steps as)"

lemma todo_steps_simps [simp]:
  "todo_steps [] = 0" "todo_steps (a # as) = action_steps a + todo_steps as"
  "todo_steps (as @ bs) = todo_steps as + todo_steps bs"
  by (simp_all add: todo_steps_def)

lemma action_steps_pos: "0 < action_steps a"
  by (cases a) simp_all

lemma perform_steps: "perform L a x sh = (sh', follow) \<Longrightarrow> todo_steps follow < action_steps x"
  by (cases x) (auto simp: Let_def split: if_splits)

text \<open>Between two turns of the loop a connection has at most nine operations to do; everywhere else it has none, and its
  buffer is never overrun.\<close>

definition conn_typed :: "conn \<Rightarrow> bool" where
  "conn_typed c \<longleftrightarrow> (cn_phase c \<noteq> AtTop \<longrightarrow> cn_todo c = []) \<and> todo_steps (cn_todo c) \<le> 9
     \<and> length (cn_buf c) \<le> READ_BUF_BYTES"

lemma policy_steps: "todo_steps (fst (rate_limit_policy rl p)) \<le> 2"
  by (simp add: rate_limit_policy_def Let_def split: rl_action.split option.split)

lemma on_response_steps: "todo_steps (cn_todo (on_response a rl i s t p buf c)) \<le> 9"
  using policy_steps [of rl p]
  by (cases "rate_limit_policy rl p") (auto simp: on_response_def Let_def)

lemma on_response_buf: "length (cn_buf (on_response a rl i s t p buf c)) \<le> length buf"
  by (simp add: on_response_def Let_def shift_buffer_def split: prod.split)

lemma fire_typed:
  assumes "conn_typed c" "cn_phase c = Firing"
  shows "conn_typed (fire httparse a rl d x c)"
proof -
  have idle: "cn_todo c = []" and buf: "length (cn_buf c) \<le> READ_BUF_BYTES"
    using assms by (simp_all add: conn_typed_def)
  obtain r got rest where read: "read_one_response httparse (cn_buf c) (ex_reads x) = (r, got, rest)"
    by (rule prod_cases3)
  have got: "length got \<le> READ_BUF_BYTES" using read_within_buffer [OF read buf] by simp
  have "conn_typed (on_response a rl i t u p got c)" for i t u p
    using on_response_steps order.trans [OF on_response_buf got] by (simp add: conn_typed_def conn_simps)
  then show ?thesis
    using idle buf got by (simp add: fire_def read conn_refused_def split: read_result.split) (simp add: conn_typed_def)
qed

lemma conns_typed:
  assumes "reachable cf n w"
  shows "\<forall>c\<in>set (w_conns w). conn_typed c"
  using assms
proof (rule conns_induct)
  fix c x as follow
  assume c: "conn_typed c" "cn_todo c = x # as"
    and follow: "follow = [] \<or> (\<exists>s. x = SampleSeq s \<and> follow = [PushSample s]) \<or> (\<exists>o'. x = ClaimOnset o' \<and> follow = [StoreOnset o'])"
  then have "cn_phase c = AtTop" by (auto simp: conn_typed_def)
  with c follow show "conn_typed (c\<lparr>cn_todo := follow @ as\<rparr>)" by (auto simp: conn_typed_def)
qed (simp_all add: fire_typed, simp_all add: conn_typed_def conn_init_def conn_refused_def conn_started_def loop_top_def
    split: prod.split)

section \<open>Progress\<close>

text \<open>The events of the connections; the others are those of the emitter and of the cancellation.\<close>

fun conn_event :: "worker_event \<Rightarrow> bool" where
  "conn_event (Refuse i) = True"
| "conn_event (Start i) = True"
| "conn_event (Top i now) = True"
| "conn_event (Fire i x) = True"
| "conn_event (Act i) = True"
| "conn_event _ = False"

text \<open>An event that does not happen at the top of a loop before the deadline.\<close>

fun past_deadline :: "'h config \<Rightarrow> worker_event \<Rightarrow> bool" where
  "past_deadline cf (Top i now) \<longleftrightarrow> deadline_us (duration_s (cf_spec cf)) \<le> now"
| "past_deadline cf _ \<longleftrightarrow> True"

definition prompt_exchange :: "nat \<Rightarrow> exchange" where
  "prompt_exchange t = \<lparr> ex_ready = t, ex_sent = t, ex_write_ok = True, ex_reads = [], ex_recv = t \<rparr>"

text \<open>A connection that is not done can go on: which event it waits for depends on its phase alone.\<close>

definition next_event :: "'h config \<Rightarrow> nat \<Rightarrow> conn \<Rightarrow> worker_event" where
  "next_event cf i c =
     (if cn_todo c \<noteq> [] then Act i
      else case cn_phase c of
          Prewarm \<Rightarrow> Start i
        | AtTop \<Rightarrow> Top i (deadline_us (duration_s (cf_spec cf)))
        | Firing \<Rightarrow> Fire i (prompt_exchange (cn_target c))
        | Done \<Rightarrow> Act i)"

lemma next_event_enabled:
  assumes "i < length (w_conns w)" "\<not> (cn_phase (w_conns w ! i) = Done \<and> cn_todo (w_conns w ! i) = [])"
  shows "\<exists>w'. worker_exec cf (next_event cf i (w_conns w ! i)) w = Some w'"
proof (cases "cn_todo (w_conns w ! i)")
  case Nil
  then show ?thesis
    using assms by (cases "cn_phase (w_conns w ! i)") (simp_all add: next_event_def on_conn_def prompt_exchange_def)
next
  case (Cons a as)
  then show ?thesis using assms(1) by (simp add: next_event_def act_def split: prod.split)
qed

lemma progress:
  assumes "\<not> all_joined w"
  shows "\<exists>ev w'. conn_event ev \<and> past_deadline cf ev \<and> worker_exec cf ev w = Some w'"
proof -
  obtain i where i: "i < length (w_conns w)" "\<not> (cn_phase (w_conns w ! i) = Done \<and> cn_todo (w_conns w ! i) = [])"
    using assms by (auto simp: all_joined_def in_set_conv_nth)
  have "conn_event (next_event cf i (w_conns w ! i))" "past_deadline cf (next_event cf i (w_conns w ! i))"
    by (simp_all add: next_event_def split: phase.split)
  then show ?thesis using next_event_enabled [OF i] by blast
qed

lemma joined_is_final:
  assumes "all_joined w" "conn_event ev"
  shows "worker_exec cf ev w = None"
proof (cases ev)
  case (Act i)
  then show ?thesis using assms(1) by (auto simp: act_def all_joined_def)
qed (use assms in \<open>auto simp: on_conn_def all_joined_def\<close>)

section \<open>What is left to do after an abort or the deadline\<close>

definition conn_work :: "conn \<Rightarrow> nat" where
  "conn_work c = (case cn_phase c of Prewarm \<Rightarrow> 2 | AtTop \<Rightarrow> 1 | Firing \<Rightarrow> 11 | Done \<Rightarrow> 0) + todo_steps (cn_todo c)"

definition work_left :: "'h world \<Rightarrow> nat" where
  "work_left w = total_over conn_work w"

lemma work_bound:
  assumes "\<forall>c\<in>set (w_conns w). conn_typed c"
  shows "work_left w \<le> 11 * length (w_conns w)"
proof -
  have "conn_work c \<le> 11" if "conn_typed c" for c
    using that by (cases "cn_phase c") (simp_all add: conn_typed_def conn_work_def)
  then have "sum_list (map conn_work (w_conns w)) \<le> sum_list (map (\<lambda>c. 11) (w_conns w))"
    using assms by (intro sum_list_mono) blast
  then show ?thesis by (simp add: work_left_def total_over_def sum_list_triv mult.commute)
qed

lemma work_update:
  assumes "i < length (w_conns w)" "conn_work c < conn_work (w_conns w ! i)" "w_conns w' = (w_conns w)[i := c]"
  shows "work_left w' < work_left w"
  using total_over_update [OF assms(1), of conn_work c] assms(2,3) by (simp add: work_left_def total_over_def)

lemma fire_work: "cn_phase c = Firing \<Longrightarrow> conn_work (fire httparse a rl d x c) < conn_work c"
  by (auto simp: fire_def conn_work_def conn_refused_def conn_simps split: prod.split read_result.split
      intro: le_less_trans [OF on_response_steps])

lemma work_exec:
  assumes "l_abort (sh_live (w_shared w)) \<or> past_deadline cf ev" "worker_exec cf ev w = Some w'"
  shows "if conn_event ev then work_left w' < work_left w else work_left w' = work_left w"
proof -
  have on: "work_left w' < work_left w"
    if "on_conn w i en f = Some w'" "\<And>c. en c \<Longrightarrow> conn_work (f c) < conn_work c" for i en f
    using that by (auto elim!: on_conn_cases intro!: work_update)
  show ?thesis
  proof (cases ev)
    case (Act i)
    with assms(2) have "act cf i w = Some w'" by simp
    then show ?thesis
    proof (rule act_cases)
      fix x as sh follow
      assume "i < length (w_conns w)" "cn_todo (w_conns w ! i) = x # as"
        and p: "perform (cf_hdr cf) (from_spec (cf_spec cf)) x (w_shared w) = (sh, follow)"
        and "w' = w\<lparr>w_shared := sh, w_conns := (w_conns w)[i := (w_conns w ! i)\<lparr>cn_todo := follow @ as\<rparr>]\<rparr>"
      with perform_steps [OF p] show ?thesis
        using work_update [of i w "(w_conns w ! i)\<lparr>cn_todo := follow @ as\<rparr>" w'] by (simp add: Act conn_work_def)
    qed
  next
    case (Refuse i)
    then show ?thesis using assms(2) on by (auto simp: conn_refused_def conn_work_def)
  next
    case (Start i)
    then show ?thesis using assms(2) on by (auto simp: conn_started_def conn_work_def)
  next
    case (Top i now)
    then show ?thesis using assms on by (auto simp: loop_top_def conn_work_def)
  next
    case (Fire i x)
    then show ?thesis using assms(2) on [OF _ fire_work] by auto
  qed (use assms(2) in \<open>auto simp: work_left_def total_over_def emit_def Let_def split: if_splits list.splits\<close>)
qed

lemma work_runs:
  "l_abort (sh_live (w_shared w)) \<or> (\<forall>ev\<in>set es. past_deadline cf ev) \<Longrightarrow> worker_runs cf es w = Some w' \<Longrightarrow>
   length (filter conn_event es) + work_left w' \<le> work_left w"
proof (induction es arbitrary: w)
  case (Cons ev es)
  then obtain w1 where w1: "worker_exec cf ev w = Some w1" "worker_runs cf es w1 = Some w'"
    by (auto split: option.splits)
  have "l_abort (sh_live (w_shared w1)) \<or> (\<forall>ev\<in>set es. past_deadline cf ev)"
    using Cons.prems(1) abort_stays [OF w1(1)] by auto
  from Cons.IH [OF this w1(2)] show ?case
    using work_exec [OF _ w1(1)] Cons.prems(1) by (auto split: if_splits)
qed simp

text \<open>A run that goes on until no connection can move any more, one event after the other.\<close>

lemma can_be_joined: "\<exists>es w'. worker_runs cf es w = Some w' \<and> all_joined w'"
proof (induction "work_left w" arbitrary: w rule: less_induct)
  case less
  show ?case
  proof (cases "all_joined w")
    case True
    then show ?thesis by (intro exI [of _ "[]"]) simp
  next
    case False
    then obtain ev w1 where ev: "conn_event ev" "past_deadline cf ev" "worker_exec cf ev w = Some w1"
      using progress [of w cf] by blast
    then have "work_left w1 < work_left w" using work_exec [of w cf ev w1] by simp
    from less.hyps [OF this] obtain es w' where "worker_runs cf es w1 = Some w'" "all_joined w'" by blast
    then show ?thesis using ev(3) by (intro exI [of _ "ev # es"]) auto
  qed
qed

section \<open>Properties\<close>



text \<open>
  The emitter is aborted as soon as the connections are joined, also in the middle of a second: what was counted since
  the last tick is in the report but in no tick. Here a response is completed and the run ends without any tick.
\<close>

lemma counts_after_last_tick_are_lost:
  "\<exists>es w. worker_runs demo_config es (world_init demo_config) = Some w \<and> all_joined w
     \<and> l_completed (sh_live (w_shared w)) = 1 \<and> w_ticks w = []"
proof -
  obtain w1 where w1: "worker_runs demo_config demo_events (world_init demo_config) = Some w1"
    "sh_live (w_shared w1) = live_default\<lparr>l_completed := 1, l_pass := 1\<rparr>"
    "map cn_phase (w_conns w1) = [AtTop]" "map cn_todo (w_conns w1) = [[]]" "w_ticks w1 = []"
    using demo_answered by (elim exE conjE) (rule that)
  obtain w where w: "worker_runs demo_config [Cancel, Top 0 1000] w1 = Some w" "all_joined w"
    "l_completed (sh_live (w_shared w)) = l_completed (sh_live (w_shared w1))" "w_ticks w = w_ticks w1"
    using demo_drained [OF w1(3,4) demo_cancellable] by (elim exE conjE) (rule that)
  have "worker_runs demo_config (demo_events @ [Cancel, Top 0 1000]) (world_init demo_config) = Some w"
    by (simp only: runs_append w1(1) w(1) option.simps)
  moreover have "l_completed (sh_live (w_shared w)) = 1" by (simp only: w(3) w1(2)) simp
  ultimately show ?thesis using w(2,4) w1(5) by auto
qed

text \<open>The flag is read at the top of the loop only: a connection that waits for its slot sends once more after the abort,
  however far away the slot is.\<close>

lemma sends_after_abort:
  "\<exists>w. worker_runs demo_config [Start 0, Top 0 2, Cancel, Fire 0 demo_exchange] (world_init demo_config) = Some w
     \<and> l_abort (sh_live (w_shared w)) \<and> map (r_completed \<circ> cn_res) (w_conns w) = [1]"
  by (simp add: demo_eval conn_result_default_def)

end
