(* ===== verification/Abort_Path.thy ===== *)
theory Abort_Path
  imports Coordinator Worker_Node Worker_Progress
begin

text \<open>
  The way of an abort through the system: the coordinator (\<open>coordinator/mod.rs\<close>) sends one request to each worker of the
  run, the worker's service (\<open>worker_node.rs\<close>) cancels the token of the run, the bridge of \<open>worker.rs\<close> stores the abort flag
  and the connections drain. The components are composed to one state machine: requests in flight may be delivered in any
  order or be lost, the slices of a worker run their engines concurrently, and everything interleaves.
\<close>

section \<open>The composition\<close>

text \<open>
  What is outside of the sources: the histograms, the parser of response heads and the parser of URIs. A slice whose
  specification the engine refuses has no engine.
\<close>

record 'h cluster_env =
  ce_hdr :: "'h hdr"
  ce_httparse :: "bytes \<Rightarrow> parse_status"
  ce_parse_uri :: "string \<Rightarrow> uri option"

record 'h slice =
  sl_run :: string
  sl_engine :: "('h config \<times> 'h world) option"

record 'h cluster =
  cl_coord :: coordinator
  cl_sent :: "(string \<times> abort_request) list"
  cl_nodes :: "string \<Rightarrow> worker_node"
  cl_slices :: "string \<Rightarrow> nat \<Rightarrow> 'h slice option"

text \<open>Workers are found at their url; \<open>ids\<close> gives their ids.\<close>

definition cl_init :: "(string \<Rightarrow> string) \<Rightarrow> 'h cluster" where
  "cl_init ids =
     \<lparr> cl_coord = coordinator_new, cl_sent = [], cl_nodes = (\<lambda>u. node_new (ids u)), cl_slices = (\<lambda>u t. None) \<rparr>"

definition engine_start :: "'h cluster_env \<Rightarrow> run_spec \<Rightarrow> ('h config \<times> 'h world) option" where
  "engine_start E spec =
     (case run_setup spec of
        Inl e \<Rightarrow> None
      | Inr plan \<Rightarrow>
          (let cf = \<lparr> cf_hdr = ce_hdr E, cf_httparse = ce_httparse E, cf_spec = spec, cf_plan = plan, cf_cancellable = True \<rparr>
           in Some (cf, world_init cf)))"

definition set_slice :: "string \<Rightarrow> nat \<Rightarrow> 'h slice option \<Rightarrow> 'h cluster \<Rightarrow> 'h cluster" where
  "set_slice u t s c = c\<lparr>cl_slices := (cl_slices c)(u := (cl_slices c u)(t := s))\<rparr>"

definition set_node :: "string \<Rightarrow> worker_node \<Rightarrow> 'h cluster \<Rightarrow> 'h cluster" where
  "set_node u n c = c\<lparr>cl_nodes := (cl_nodes c)(u := n)\<rparr>"

datatype cluster_event =
    At_Coordinator co_event
  | Delivered "string \<times> abort_request"
  | Lost "string \<times> abort_request"
  | Accepts string assignment
  | Runs string nat worker_event
  | Closes string nat

fun abort_messages :: "co_event \<Rightarrow> coordinator \<Rightarrow> (string \<times> abort_request) list" where
  "abort_messages (AbortsRun r) st = snd (snd (abort_run r st))"
| "abort_messages _ st = []"

text \<open>The bridge of an engine fires once its token is cancelled; a slice is closed when its engine has returned.\<close>

fun cl_step :: "'h cluster_env \<Rightarrow> cluster_event \<Rightarrow> 'h cluster \<Rightarrow> 'h cluster option" where
  "cl_step E (At_Coordinator e) c =
     Some (c\<lparr>cl_coord := co_step e (cl_coord c), cl_sent := cl_sent c @ abort_messages e (cl_coord c)\<rparr>)"
| "cl_step E (Delivered m) c =
     (if m \<in> set (cl_sent c)
      then Some (set_node (fst m) (snd (node_abort (snd m) (cl_nodes c (fst m)))) (c\<lparr>cl_sent := remove1 m (cl_sent c)\<rparr>))
      else None)"
| "cl_step E (Lost m) c = (if m \<in> set (cl_sent c) then Some (c\<lparr>cl_sent := remove1 m (cl_sent c)\<rparr>) else None)"
| "cl_step E (Accepts u a) c =
     (case run_slice_begin (ce_parse_uri E) a (cl_nodes c u) of
        (Inl e, n) \<Rightarrow> Some c
      | (Inr (spec, t), n) \<Rightarrow>
          Some (set_slice u t (Some \<lparr> sl_run = asg_run_id a, sl_engine = engine_start E spec \<rparr>) (set_node u n c)))"
| "cl_step E (Runs u t ev) c =
     (case cl_slices c u t of
        None \<Rightarrow> None
      | Some sl \<Rightarrow> (case sl_engine sl of
          None \<Rightarrow> None
        | Some (cf, w) \<Rightarrow>
            if ev = Cancel \<and> t \<notin> set (wn_cancelled (cl_nodes c u)) then None
            else map_option (\<lambda>w'. set_slice u t (Some (sl\<lparr>sl_engine := Some (cf, w')\<rparr>)) c) (worker_exec cf ev w)))"
| "cl_step E (Closes u t) c =
     (case cl_slices c u t of
        None \<Rightarrow> None
      | Some sl \<Rightarrow>
          if (case sl_engine sl of None \<Rightarrow> True | Some (cf, w) \<Rightarrow> all_joined w)
          then Some (set_slice u t None (set_node u (run_slice_end (sl_run sl) (cl_nodes c u)) c))
          else None)"

fun cl_runs :: "'h cluster_env \<Rightarrow> cluster_event list \<Rightarrow> 'h cluster \<Rightarrow> 'h cluster option" where
  "cl_runs E [] c = Some c"
| "cl_runs E (e # es) c = Option.bind (cl_step E e c) (cl_runs E es)"

lemma cl_runs_append: "cl_runs E (es @ fs) c = Option.bind (cl_runs E es c) (cl_runs E fs)"
proof (induction es arbitrary: c)
  case (Cons e es)
  then show ?case by (cases "cl_step E e c") simp_all
qed simp

lemma cluster_simps [simp]:
  "cl_slices (set_slice u t s c) = (cl_slices c)(u := (cl_slices c u)(t := s))"
  "cl_nodes (set_slice u t s c) = cl_nodes c" "cl_sent (set_slice u t s c) = cl_sent c"
  "cl_slices (set_node u n c) = cl_slices c" "cl_nodes (set_node u n c) = (cl_nodes c)(u := n)"
  "cl_sent (set_node u n c) = cl_sent c" "cl_coord (set_slice u t s c) = cl_coord c" "cl_coord (set_node u n c) = cl_coord c"
  by (simp_all add: set_slice_def set_node_def)

section \<open>What every reachable cluster keeps\<close>

definition slice_ok :: "string \<Rightarrow> nat \<Rightarrow> 'h cluster \<Rightarrow> 'h slice \<Rightarrow> bool" where
  "slice_ok u t c sl \<longleftrightarrow> t < wn_next (cl_nodes c u)
     \<and> (\<forall>r. hm_get (wn_tokens (cl_nodes c u)) r = Some t \<longrightarrow> r = sl_run sl)
     \<and> (case sl_engine sl of None \<Rightarrow> True | Some (cf, w) \<Rightarrow> cf_cancellable cf \<and> (\<exists>n. reachable cf n w))"

definition cl_inv :: "'h cluster \<Rightarrow> bool" where
  "cl_inv c \<longleftrightarrow> (\<forall>u. node_inv (cl_nodes c u)) \<and> (\<forall>u t sl. cl_slices c u t = Some sl \<longrightarrow> slice_ok u t c sl)"

lemma cl_invD:
  assumes "cl_inv c"
  shows "node_inv (cl_nodes c u)" "cl_slices c u t = Some sl \<Longrightarrow> slice_ok u t c sl"
  using assms by (simp_all add: cl_inv_def)

lemma cl_inv_init: "cl_inv (cl_init ids)"
  by (simp add: cl_inv_def cl_init_def node_inv_new)

lemma engine_start_ok:
  "case engine_start E spec of None \<Rightarrow> True | Some (cf, w) \<Rightarrow> cf_cancellable cf \<and> (\<exists>n. reachable cf n w)"
  by (auto simp: engine_start_def Let_def split: sum.splits intro: reachable.start)

text \<open>The cases of a step, with what they change.\<close>

lemma cl_step_cases:
  assumes "cl_step E e c = Some c'"
  obtains (Coordinator) x where "e = At_Coordinator x" "cl_nodes c' = cl_nodes c" "cl_slices c' = cl_slices c"
      "cl_sent c' = cl_sent c @ abort_messages x (cl_coord c)"
  | (Delivery) u q where "e = Delivered (u, q)" "(u, q) \<in> set (cl_sent c)" "cl_sent c' = remove1 (u, q) (cl_sent c)"
      "cl_nodes c' = (cl_nodes c)(u := snd (node_abort q (cl_nodes c u)))" "cl_slices c' = cl_slices c"
  | (Loss) m where "e = Lost m" "cl_nodes c' = cl_nodes c" "cl_slices c' = cl_slices c" "cl_sent c' = remove1 m (cl_sent c)"
  | (Refusal) u a where "e = Accepts u a" "c' = c"
  | (Acceptance) u a spec t n where "e = Accepts u a" "run_slice_begin (ce_parse_uri E) a (cl_nodes c u) = (Inr (spec, t), n)"
      "cl_nodes c' = (cl_nodes c)(u := n)" "cl_sent c' = cl_sent c"
      "cl_slices c' = (cl_slices c)(u := (cl_slices c u)(t \<mapsto> \<lparr> sl_run = asg_run_id a, sl_engine = engine_start E spec \<rparr>))"
  | (Engine) u t ev sl cf w w' where "e = Runs u t ev" "cl_slices c u t = Some sl" "sl_engine sl = Some (cf, w)"
      "ev = Cancel \<longrightarrow> t \<in> set (wn_cancelled (cl_nodes c u))" "worker_exec cf ev w = Some w'"
      "cl_slices c' = (cl_slices c)(u := (cl_slices c u)(t \<mapsto> sl\<lparr>sl_engine := Some (cf, w')\<rparr>))"
      "cl_nodes c' = cl_nodes c" "cl_sent c' = cl_sent c"
  | (Closing) u t sl where "e = Closes u t" "cl_slices c u t = Some sl"
      "\<And>cf w. sl_engine sl = Some (cf, w) \<Longrightarrow> all_joined w"
      "cl_slices c' = (cl_slices c)(u := (cl_slices c u)(t := None))" "cl_sent c' = cl_sent c"
      "cl_nodes c' = (cl_nodes c)(u := run_slice_end (sl_run sl) (cl_nodes c u))"
proof (cases e)
  case (At_Coordinator x)
  show thesis by (rule Coordinator [of x]) (use assms At_Coordinator in auto)
next
  case (Delivered m)
  show thesis by (rule Delivery [of "fst m" "snd m"]) (use assms Delivered in \<open>auto split: if_splits\<close>)
next
  case (Lost m)
  show thesis by (rule Loss [of m]) (use assms Lost in \<open>auto split: if_splits\<close>)
next
  case (Accepts u a)
  obtain out n where run: "run_slice_begin (ce_parse_uri E) a (cl_nodes c u) = (out, n)" by (rule prod.exhaust)
  show thesis
  proof (cases out)
    case (Inl x)
    show thesis by (rule Refusal [of u a]) (use assms Accepts run Inl in auto)
  next
    case (Inr st)
    obtain spec t where st: "st = (spec, t)" by (rule prod.exhaust)
    show thesis by (rule Acceptance [of u a spec t n]) (use assms Accepts run Inr st in auto)
  qed
next
  case (Runs u t ev)
  obtain sl cf w w' where e: "cl_slices c u t = Some sl" "sl_engine sl = Some (cf, w)"
    "\<not> (ev = Cancel \<and> t \<notin> set (wn_cancelled (cl_nodes c u)))" "worker_exec cf ev w = Some w'"
    "c' = set_slice u t (Some (sl\<lparr>sl_engine := Some (cf, w')\<rparr>)) c"
    using assms Runs by (simp split: option.splits if_splits prod.splits) (elim conjE exE, simp)
  show thesis by (rule Engine [of u t ev sl cf w w']) (use Runs e in auto)
next
  case (Closes u t)
  obtain sl where e: "cl_slices c u t = Some sl" "case sl_engine sl of None \<Rightarrow> True | Some (cf, w) \<Rightarrow> all_joined w"
    "c' = set_slice u t None (set_node u (run_slice_end (sl_run sl) (cl_nodes c u)) c)"
    using assms Closes by (simp split: option.splits if_splits)
  show thesis by (rule Closing [of u t sl]) (use Closes e in auto)
qed

lemma cl_inv_step:
  assumes "cl_inv c" "cl_step E e c = Some c'"
  shows "cl_inv c'"
  using assms(2)
proof (cases rule: cl_step_cases)
  case (Delivery u q)
  have "node_inv (snd (node_abort q (cl_nodes c u)))" using cl_invD(1) [OF assms(1)] by (rule node_inv_abort)
  moreover have "wn_next (snd (node_abort q n)) = wn_next n" "wn_tokens (snd (node_abort q n)) = wn_tokens n" for n
    by (simp_all add: node_abort_def split: option.split)
  ultimately show ?thesis using Delivery assms(1) by (auto simp: cl_inv_def slice_ok_def)
next
  case (Acceptance u a spec t n)
  note new = begin_tokens [OF cl_invD(1) [OF assms(1)] Acceptance(2)]
  have "node_inv (snd (run_slice_begin (ce_parse_uri E) a (cl_nodes c u)))"
    using cl_invD(1) [OF assms(1)] by (rule node_inv_begin)
  then have "node_inv n" using Acceptance(2) by simp
  moreover have "slice_ok u t c' \<lparr> sl_run = asg_run_id a, sl_engine = engine_start E spec \<rparr>"
    using engine_start_ok [of E spec] node_invD(3) [OF cl_invD(1) [OF assms(1), of u]] new Acceptance
    by (fastforce simp: slice_ok_def split: if_splits)
  moreover have "slice_ok v s c' sl" if "cl_slices c v s = Some sl" "(v, s) \<noteq> (u, t)" for v s sl
    using cl_invD(2) [OF assms(1) that(1)] that new Acceptance by (auto simp: slice_ok_def split: if_splits)
  ultimately show ?thesis using Acceptance(3,5) assms(1) by (auto simp: cl_inv_def)
next
  case (Engine u t ev sl cf w w')
  have "slice_ok u t c' (sl\<lparr>sl_engine := Some (cf, w')\<rparr>)"
    using cl_invD(2) [OF assms(1) Engine(2)] Engine(3,5,7) by (auto simp: slice_ok_def intro: reachable.event)
  then show ?thesis using Engine assms(1) by (auto simp: cl_inv_def slice_ok_def)
next
  case (Closing u t sl)
  have "node_inv (run_slice_end (sl_run sl) (cl_nodes c u))" using cl_invD(1) [OF assms(1)] by (rule node_inv_end)
  moreover have "hm_get (wn_tokens (run_slice_end r (cl_nodes c u))) r' = Some s \<Longrightarrow> hm_get (wn_tokens (cl_nodes c u)) r' = Some s" for r r' s
    using node_invD(1) [OF cl_invD(1) [OF assms(1)]] by (simp add: run_slice_end_def hm.get_remove split: if_splits)
  moreover have "wn_next (run_slice_end r n) = wn_next n" for r n by (simp add: run_slice_end_def)
  ultimately show ?thesis using Closing assms(1) by (auto simp: cl_inv_def slice_ok_def split: if_splits)
qed (use assms(1) in \<open>auto simp: cl_inv_def slice_ok_def\<close>)

lemma cl_inv_runs: "cl_inv c \<Longrightarrow> cl_runs E es c = Some c' \<Longrightarrow> cl_inv c'"
  by (induction es arbitrary: c) (auto simp: bind_eq_Some_conv dest: cl_inv_step)

section \<open>The engines of the cluster\<close>

text \<open>The events of one engine: the cluster lets every engine run as it would run alone.\<close>

fun engine_event :: "string \<Rightarrow> nat \<Rightarrow> cluster_event \<Rightarrow> worker_event option" where
  "engine_event u t (Runs v s ev) = (if v = u \<and> s = t then Some ev else None)"
| "engine_event u t _ = None"

definition engine_events :: "string \<Rightarrow> nat \<Rightarrow> cluster_event list \<Rightarrow> worker_event list" where
  "engine_events u t es = List.map_filter (engine_event u t) es"

lemma engine_events_simps [simp]:
  "engine_events u t [] = []"
  "engine_events u t (e # es) = (case engine_event u t e of None \<Rightarrow> engine_events u t es | Some ev \<Rightarrow> ev # engine_events u t es)"
  by (simp_all add: engine_events_def List.map_filter_simps split: option.split)

text \<open>A slice that is closed does not come back: tokens are never used again.\<close>

lemma closed_step:
  assumes "cl_inv c" "cl_step E e c = Some c'" "cl_slices c u t = None" "t < wn_next (cl_nodes c u)"
  shows "cl_slices c' u t = None \<and> t < wn_next (cl_nodes c' u) \<and> engine_event u t e = None"
  using assms(2)
proof (cases rule: cl_step_cases)
  case (Acceptance v a spec s n)
  then show ?thesis using begin_tokens(1,2) [OF cl_invD(1) [OF assms(1)] Acceptance(2)] assms(3,4) by auto
next
  case (Delivery v q)
  then show ?thesis using assms(3,4) by (auto simp: node_abort_def split: option.split)
next
  case (Closing v s sl)
  then show ?thesis using assms(3,4) by (auto simp: run_slice_end_def)
qed (use assms(3,4) in auto)

lemma closed_runs:
  "cl_inv c \<Longrightarrow> cl_runs E es c = Some c' \<Longrightarrow> cl_slices c u t = None \<Longrightarrow> t < wn_next (cl_nodes c u) \<Longrightarrow>
   engine_events u t es = []"
proof (induction es arbitrary: c)
  case (Cons e es)
  then obtain c1 where c1: "cl_step E e c = Some c1" "cl_runs E es c1 = Some c'" by (auto simp: bind_eq_Some_conv)
  show ?case using closed_step [OF Cons.prems(1) c1(1) Cons.prems(3,4)] Cons.IH [OF cl_inv_step [OF Cons.prems(1) c1(1)] c1(2)]
    by simp
qed simp

lemma engine_step:
  assumes "cl_inv c" "cl_step E e c = Some c'" "cl_slices c u t = Some sl" "sl_engine sl = Some (cf, w)"
  shows "case engine_event u t e of
      None \<Rightarrow> cl_slices c' u t = Some sl \<or> cl_slices c' u t = None \<and> t < wn_next (cl_nodes c' u)
    | Some ev \<Rightarrow> \<exists>w'. worker_exec cf ev w = Some w' \<and> cl_slices c' u t = Some (sl\<lparr>sl_engine := Some (cf, w')\<rparr>)"
  using assms(2)
proof (cases rule: cl_step_cases)
  case (Acceptance v a spec s n)
  then show ?thesis
    using begin_tokens(1) [OF cl_invD(1) [OF assms(1)] Acceptance(2)] cl_invD(2) [OF assms(1,3)] assms(3) by (auto simp: slice_ok_def)
next
  case (Closing v s sl')
  then show ?thesis using assms(3) cl_invD(2) [OF assms(1,3)] by (auto simp: slice_ok_def run_slice_end_def)
qed (use assms(3,4) in auto)

lemma engine_runs:
  "cl_inv c \<Longrightarrow> cl_runs E es c = Some c' \<Longrightarrow> cl_slices c u t = Some sl \<Longrightarrow> sl_engine sl = Some (cf, w) \<Longrightarrow>
   \<exists>w'. worker_runs cf (engine_events u t es) w = Some w'"
proof (induction es arbitrary: c sl w)
  case (Cons e es)
  then obtain c1 where c1: "cl_step E e c = Some c1" "cl_runs E es c1 = Some c'" by (auto simp: bind_eq_Some_conv)
  note inv1 = cl_inv_step [OF Cons.prems(1) c1(1)]
  show ?case
  proof (cases "engine_event u t e")
    case None
    then consider "cl_slices c1 u t = Some sl" | "cl_slices c1 u t = None" "t < wn_next (cl_nodes c1 u)"
      using engine_step [OF Cons.prems(1) c1(1) Cons.prems(3,4)] by auto
    then show ?thesis
    proof cases
      case 1
      then show ?thesis using Cons.IH [OF inv1 c1(2) 1 Cons.prems(4)] None by simp
    next
      case 2
      then show ?thesis using closed_runs [OF inv1 c1(2) 2] None by simp
    qed
  next
    case (Some ev)
    then obtain w1 where w1: "worker_exec cf ev w = Some w1" "cl_slices c1 u t = Some (sl\<lparr>sl_engine := Some (cf, w1)\<rparr>)"
      using engine_step [OF Cons.prems(1) c1(1) Cons.prems(3,4)] by auto
    then show ?thesis using Cons.IH [OF inv1 c1(2) w1(2)] Some by simp
  qed
qed simp

text \<open>Conversely an engine whose token is cancelled can make any run of its own.\<close>

lemma engine_lifts:
  "t \<in> set (wn_cancelled (cl_nodes c u)) \<Longrightarrow> cl_slices c u t = Some sl \<Longrightarrow> sl_engine sl = Some (cf, w) \<Longrightarrow>
   worker_runs cf evs w = Some w' \<Longrightarrow>
   \<exists>c'. cl_runs E (map (Runs u t) evs) c = Some c' \<and> cl_slices c' u t = Some (sl\<lparr>sl_engine := Some (cf, w')\<rparr>)"
proof (induction evs arbitrary: c sl w)
  case (Cons ev evs)
  then obtain w1 where w1: "worker_exec cf ev w = Some w1" "worker_runs cf evs w1 = Some w'" by (auto split: option.splits)
  let ?sl = "sl\<lparr>sl_engine := Some (cf, w1)\<rparr>" and ?c = "set_slice u t (Some (sl\<lparr>sl_engine := Some (cf, w1)\<rparr>)) c"
  have "cl_step E (Runs u t ev) c = Some ?c" using Cons.prems(1-3) w1(1) by simp
  then show ?case using Cons.IH [of ?c ?sl w1] Cons.prems(1) w1(2) by simp
qed auto

section \<open>From the request to the engine\<close>

fun accepts :: "string \<Rightarrow> string \<Rightarrow> cluster_event \<Rightarrow> bool" where
  "accepts u r (Accepts v a) \<longleftrightarrow> v = u \<and> asg_run_id a = r"
| "accepts u r _ \<longleftrightarrow> False"

text \<open>A worker that has accepted one slice of a run knows its token, as long as the slice is open.\<close>

definition token_known :: "string \<Rightarrow> string \<Rightarrow> nat \<Rightarrow> 'h cluster \<Rightarrow> bool" where
  "token_known u r n c \<longleftrightarrow>
     (\<forall>t sl. cl_slices c u t = Some sl \<longrightarrow> sl_run sl = r \<longrightarrow>
        n \<noteq> 0 \<and> (n = 1 \<longrightarrow> hm_get (wn_tokens (cl_nodes c u)) r = Some t))"

lemma token_known_step:
  assumes "cl_inv c" "cl_step E e c = Some c'" "token_known u r n c"
  shows "token_known u r (if accepts u r e then Suc n else n) c'"
  using assms(2)
proof (cases rule: cl_step_cases)
  case (Delivery v q)
  then show ?thesis using assms(3) by (auto simp: token_known_def node_abort_def split: option.split)
next
  case (Acceptance v a spec s m)
  then show ?thesis using begin_tokens(4) [OF cl_invD(1) [OF assms(1)] Acceptance(2)] assms(3)
    by (auto simp: token_known_def)
next
  case (Closing v s sl)
  have known: "n \<noteq> 0 \<and> (n = 1 \<longrightarrow> hm_get (wn_tokens (cl_nodes c u)) r = Some t)"
    if "cl_slices c u t = Some sl'" "sl_run sl' = r" for t sl'
    using assms(3) that by (simp add: token_known_def)
  have wf: "hm_wf (wn_tokens (cl_nodes c v))" using node_invD(1) [OF cl_invD(1) [OF assms(1)]] .
  show ?thesis
    unfolding token_known_def
  proof (intro allI impI)
    fix t sl' assume t: "cl_slices c' u t = Some sl'" "sl_run sl' = r"
    then have old: "cl_slices c u t = Some sl'" "\<not> (v = u \<and> s = t)" using Closing(4) by (auto split: if_splits)
    have "\<not> (v = u \<and> sl_run sl = r \<and> n = 1)" using known [OF old(1) t(2)] known [of s sl] Closing(2) old(2) by auto
    then show "(if accepts u r e then Suc n else n) \<noteq> 0
        \<and> ((if accepts u r e then Suc n else n) = 1 \<longrightarrow> hm_get (wn_tokens (cl_nodes c' u)) r = Some t)"
      using known [OF old(1) t(2)] Closing(1,6) wf by (auto simp: run_slice_end_def hm.get_remove)
  qed
qed (use assms(3) in \<open>auto simp: token_known_def\<close>)

lemma token_known_runs:
  "cl_inv c \<Longrightarrow> cl_runs E es c = Some c' \<Longrightarrow> token_known u r n c \<Longrightarrow>
   token_known u r (n + length (filter (accepts u r) es)) c'"
proof (induction es arbitrary: c n)
  case (Cons e es)
  then obtain c1 where c1: "cl_step E e c = Some c1" "cl_runs E es c1 = Some c'" by (auto simp: bind_eq_Some_conv)
  show ?case
    using Cons.IH [OF cl_inv_step [OF Cons.prems(1) c1(1)] c1(2) token_known_step [OF Cons.prems(1) c1(1) Cons.prems(3)]]
    by (simp split: if_splits)
qed simp

lemma cancelled_step:
  "cl_step E e c = Some c' \<Longrightarrow> t \<in> set (wn_cancelled (cl_nodes c u)) \<Longrightarrow> t \<in> set (wn_cancelled (cl_nodes c' u))"
  by (erule cl_step_cases)
    (auto simp: node_abort_def run_slice_begin_def run_slice_end_def split: option.split sum.splits)

lemma cancelled_runs:
  "cl_runs E es c = Some c' \<Longrightarrow> t \<in> set (wn_cancelled (cl_nodes c u)) \<Longrightarrow> t \<in> set (wn_cancelled (cl_nodes c' u))"
  by (induction es arbitrary: c) (auto simp: bind_eq_Some_conv dest: cancelled_step)

text \<open>The runs whose abort was asked for at the coordinator.\<close>

definition asked :: "cluster_event list \<Rightarrow> string \<Rightarrow> bool" where
  "asked es r \<longleftrightarrow> At_Coordinator (AbortsRun r) \<in> set es"

definition only_asked :: "cluster_event list \<Rightarrow> 'h cluster \<Rightarrow> bool" where
  "only_asked es c \<longleftrightarrow> (\<forall>m\<in>set (cl_sent c). asked es (ar_run_id (snd m)))
     \<and> (\<forall>u t sl. cl_slices c u t = Some sl \<longrightarrow> t \<in> set (wn_cancelled (cl_nodes c u)) \<longrightarrow> asked es (sl_run sl))"

lemma abort_messages_asked: "m \<in> set (abort_messages x st) \<Longrightarrow> x = AbortsRun (ar_run_id (snd m))"
  by (cases x) (auto simp: abort_run_def fan_out_aborts_def split: option.splits)

lemma only_asked_step:
  assumes "cl_inv c" "cl_step E e c = Some c'" "only_asked es c"
  shows "only_asked (es @ [e]) c'"
proof -
  have more: "only_asked (es @ [e]) c" using assms(3) by (auto simp: only_asked_def asked_def)
  show ?thesis using assms(2)
  proof (cases rule: cl_step_cases)
    case (Coordinator x)
    then show ?thesis using more abort_messages_asked [of _ x "cl_coord c"] by (fastforce simp: only_asked_def asked_def)
  next
    case (Delivery u q)
    have q: "asked (es @ [e]) (ar_run_id q)" using more Delivery(2) by (force simp: only_asked_def)
    have "asked (es @ [e]) (sl_run sl)" if sl: "cl_slices c' v t = Some sl" "t \<in> set (wn_cancelled (cl_nodes c' v))" for v t sl
    proof (cases "t \<in> set (wn_cancelled (cl_nodes c v))")
      case True
      then show ?thesis using more sl(1) Delivery(5) by (auto simp: only_asked_def)
    next
      case False
      then have "hm_get (wn_tokens (cl_nodes c v)) (ar_run_id q) = Some t"
        using sl(2) Delivery(4) by (auto simp: node_abort_def split: if_splits option.splits)
      then show ?thesis using cl_invD(2) [OF assms(1), of v t sl] sl(1) Delivery(5) q by (auto simp: slice_ok_def)
    qed
    moreover have "\<forall>m\<in>set (cl_sent c'). asked (es @ [e]) (ar_run_id (snd m))"
      using more Delivery(3) set_remove1_subset [of "(u, q)" "cl_sent c"] by (auto simp: only_asked_def)
    ultimately show ?thesis by (simp add: only_asked_def)
  next
    case (Acceptance u a spec t n)
    note new = begin_tokens [OF cl_invD(1) [OF assms(1)] Acceptance(2)]
    have "t \<notin> set (wn_cancelled n)" using node_invD(2) [OF cl_invD(1) [OF assms(1)], of t u] new(1,3) by auto
    then show ?thesis using Acceptance more new(3) by (auto simp: only_asked_def split: if_splits)
  next
    case (Closing u t sl)
    then show ?thesis using more by (auto simp: only_asked_def run_slice_end_def split: if_splits)
  next
    case (Loss m)
    then show ?thesis using more by (auto simp: only_asked_def dest: notin_set_remove1)
  qed (use more in \<open>auto simp: only_asked_def split: if_splits\<close>)
qed

lemma only_asked_runs:
  "cl_inv c \<Longrightarrow> cl_runs E fs c = Some c' \<Longrightarrow> only_asked es c \<Longrightarrow> only_asked (es @ fs) c'"
proof (induction fs arbitrary: c es)
  case (Cons e fs)
  then obtain c1 where c1: "cl_step E e c = Some c1" "cl_runs E fs c1 = Some c'" by (auto simp: bind_eq_Some_conv)
  show ?case
    using Cons.IH [OF cl_inv_step [OF Cons.prems(1) c1(1)] c1(2) only_asked_step [OF Cons.prems(1) c1(1) Cons.prems(3)]]
    by simp
qed simp

section \<open>Properties\<close>

text \<open>C17. Only what is asked to stop is stopped: in every reachable state, with any delays, losses and reorderings of requests
  and any other runs on the same workers, the engine of a slice can be cancelled only if the abort of its very run was
  asked for at the coordinator.\<close>

theorem slices_stop_only_on_request:
  assumes "cl_runs E es (cl_init ids) = Some c" "cl_slices c u t = Some sl" "cl_step E (Runs u t Cancel) c = Some c'"
  shows "At_Coordinator (AbortsRun (sl_run sl)) \<in> set es"
proof -
  have "only_asked [] (cl_init ids)" by (simp add: only_asked_def cl_init_def)
  then have "only_asked es c" using only_asked_runs [OF cl_inv_init assms(1), of "[]"] by simp
  moreover have "t \<in> set (wn_cancelled (cl_nodes c u))"
    using assms(2,3) by (auto split: option.splits if_splits)
  ultimately show ?thesis using assms(2) by (auto simp: only_asked_def asked_def)
qed

text \<open>What an abort of a run in flight sends.\<close>

lemma abort_is_sent:
  assumes "hm_get (co_runs (cl_coord c)) r = Some h" "cl_step E (At_Coordinator (AbortsRun r)) c = Some c'"
  shows "map fst (drop (length (cl_sent c)) (cl_sent c')) = map worker_url (rh_worker_addrs h)"
    "\<forall>m\<in>set (drop (length (cl_sent c)) (cl_sent c')). ar_run_id (snd m) = r"
  using assms by (auto simp: abort_run_def fan_out_aborts_def)

text \<open>Once the flag is stored, an engine has a bounded number of steps left, and can be run to its end.\<close>

lemma cancelled_engine:
  assumes "cl_inv c" "cl_slices c u t = Some sl" "sl_engine sl = Some (cf, w)" "t \<in> set (wn_cancelled (cl_nodes c u))"
  obtains c1 where "cl_step E (Runs u t Cancel) c = Some c1"
    and "\<And>gs c'. cl_runs E gs c1 = Some c' \<Longrightarrow> length (filter conn_event (engine_events u t gs)) \<le> 11 * length (w_conns w)"
    and "\<exists>gs c'. cl_runs E (gs @ [Closes u t]) c1 = Some c'"
proof -
  have cf: "cf_cancellable cf" "\<exists>n. reachable cf n w" using cl_invD(2) [OF assms(1,2)] assms(3) by (simp_all add: slice_ok_def)
  obtain w1 where w1: "worker_exec cf Cancel w = Some w1" "l_abort (sh_live (w_shared w1))" "w_conns w1 = w_conns w"
    using cf(1) by simp
  let ?sl = "sl\<lparr>sl_engine := Some (cf, w1)\<rparr>" and ?c = "set_slice u t (Some (sl\<lparr>sl_engine := Some (cf, w1)\<rparr>)) c"
  have step: "cl_step E (Runs u t Cancel) c = Some ?c" using assms(2,3,4) w1(1) by (simp del: worker_exec.simps)
  have "\<exists>n. reachable cf n w1" using cf(2) reachable.event [OF _ w1(1)] by blast
  then have work: "work_left w1 \<le> 11 * length (w_conns w)" using work_bound [OF conns_typed] w1(3) by metis
  have "length (filter conn_event (engine_events u t gs)) \<le> 11 * length (w_conns w)" if gs: "cl_runs E gs ?c = Some c'" for gs c'
  proof -
    obtain w' where "worker_runs cf (engine_events u t gs) w1 = Some w'"
      using engine_runs [OF cl_inv_step [OF assms(1) step] gs, of u t ?sl cf w1] by auto
    from work_runs [OF disjI1 [OF w1(2)] this] work show ?thesis by simp
  qed
  moreover have "\<exists>gs c'. cl_runs E (gs @ [Closes u t]) ?c = Some c'"
  proof -
    obtain evs w' where evs: "worker_runs cf evs w1 = Some w'" "all_joined w'" using can_be_joined [of cf w1] by blast
    obtain c' where c': "cl_runs E (map (Runs u t) evs) ?c = Some c'" "cl_slices c' u t = Some (?sl\<lparr>sl_engine := Some (cf, w')\<rparr>)"
      using engine_lifts [of t ?c u ?sl cf w1 evs w'] assms(4) evs(1) by auto
    have "\<exists>c2. cl_step E (Closes u t) c' = Some c2" using c'(2) evs(2) by simp
    then show ?thesis using c'(1) by (intro exI [of _ "map (Runs u t) evs"]) (auto simp: cl_runs_append)
  qed
  ultimately show thesis using that step by blast
qed

text \<open>C9. The way of an abort, end to end: aborting a run in flight sends a request to each of its workers; once that request
  has been delivered to a worker that has accepted its one slice of the run, the engine of the slice can be cancelled
  at any later moment, and then it makes at most eleven more steps per connection, however everything else goes on,
  and can always be closed.\<close>

theorem abort_stops_the_slice:
  assumes "cl_runs E es (cl_init ids) = Some c0" "cl_slices c0 u t = Some sl"
    and "length (filter (accepts u (sl_run sl)) es) \<le> 1"
    and "cl_runs E (Delivered (u, q) # fs) c0 = Some c" "ar_run_id q = sl_run sl"
    and "cl_slices c u t = Some sl'" "sl_engine sl' = Some (cf, w)"
  shows "\<exists>c1. cl_step E (Runs u t Cancel) c = Some c1
    \<and> (\<forall>gs c'. cl_runs E gs c1 = Some c' \<longrightarrow> length (filter conn_event (engine_events u t gs)) \<le> 11 * length (w_conns w))
    \<and> (\<exists>gs c'. cl_runs E (gs @ [Closes u t]) c1 = Some c')"
proof -
  have inv: "cl_inv c0" by (rule cl_inv_runs [OF cl_inv_init assms(1)])
  have "token_known u (sl_run sl) 0 (cl_init ids)" by (simp add: token_known_def cl_init_def)
  from token_known_runs [OF cl_inv_init assms(1) this]
  have "length (filter (accepts u (sl_run sl)) es) \<noteq> 0 \<and> (length (filter (accepts u (sl_run sl)) es) = 1
      \<longrightarrow> hm_get (wn_tokens (cl_nodes c0 u)) (sl_run sl) = Some t)"
    unfolding token_known_def add_0 using assms(2) by blast
  then have token: "hm_get (wn_tokens (cl_nodes c0 u)) (sl_run sl) = Some t" using assms(3) by linarith
  obtain c1 where c1: "cl_step E (Delivered (u, q)) c0 = Some c1" "cl_runs E fs c1 = Some c"
    using assms(4) by (auto simp: bind_eq_Some_conv)
  have "t \<in> set (wn_cancelled (cl_nodes c1 u))" using c1(1) token assms(5) by (auto simp: node_abort_def split: if_splits)
  then have "t \<in> set (wn_cancelled (cl_nodes c u))" using cancelled_runs [OF c1(2)] by blast
  from cancelled_engine [OF cl_inv_runs [OF inv assms(4)] assms(6,7) this] show ?thesis by metis
qed

section \<open>Examples\<close>

definition demo_env :: "nat list cluster_env" where
  "demo_env = \<lparr> ce_hdr = exact_hdr, ce_httparse = one_head_parser ''HEAD'' (Some 200) [], ce_parse_uri = demo_parse \<rparr>"

definition demo_handle :: run_handle where
  "demo_handle = \<lparr> rh_worker_addrs = [''w''], rh_cancel = 0 \<rparr>"

definition operator_abort :: "string \<times> abort_request" where
  "operator_abort = (''http://w'', \<lparr> ar_run_id = ''r1'', ar_worker_id = [], ar_reason = ''operator abort'' \<rparr>)"

lemma demo_engine:
  "\<exists>spec cf. build_run_spec demo_parse (demo_assignment ''r1'') = Inr spec \<and> engine_start demo_env spec = Some (cf, world_init cf)
     \<and> length (w_conns (world_init cf)) = 1 \<and> cf_cancellable cf"
  by (auto simp: build_run_spec_def demo_assignment_def demo_parse_def rate_limit_of_def engine_start_def run_setup_def Let_def
      world_init_def i32_max_def i32_as_u64_def)

text \<open>The run is registered, its slice accepted, and then it is aborted.\<close>

definition asked_in_time :: "cluster_event list" where
  "asked_in_time = [At_Coordinator (RunStarts ''r1'' demo_handle), Accepts ''http://w'' (demo_assignment ''r1''),
     At_Coordinator (AbortsRun ''r1'')]"

text \<open>The same, but the abort is delivered before the assignment: the request is acknowledged and forgotten.\<close>

definition asked_too_early :: "cluster_event list" where
  "asked_too_early = [At_Coordinator (RunStarts ''r1'' demo_handle), At_Coordinator (AbortsRun ''r1''), Delivered operator_abort,
     Accepts ''http://w'' (demo_assignment ''r1'')]"

lemmas cluster_eval = cl_init_def coordinator_new_def register_run_def hm_get_def hm_insert_def abort_run_def
  fan_out_aborts_def worker_url_def node_new_def run_slice_begin_def node_abort_def demo_handle_def operator_abort_def

lemma in_time_runs:
  "\<exists>c cf. cl_runs demo_env asked_in_time (cl_init (\<lambda>u. u)) = Some c
     \<and> cl_slices c ''http://w'' 0 = Some \<lparr> sl_run = ''r1'', sl_engine = Some (cf, world_init cf) \<rparr>
     \<and> length (w_conns (world_init cf)) = 1 \<and> cl_sent c = [operator_abort]"
proof -
  have "asg_run_id (demo_assignment ''r1'') = ''r1''" "ce_parse_uri demo_env = demo_parse"
    by (simp_all add: demo_assignment_def demo_env_def)
  then show ?thesis using demo_engine by (auto simp: asked_in_time_def cluster_eval)
qed

lemma in_time_delivered:
  "\<exists>c cf. cl_runs demo_env (asked_in_time @ [Delivered operator_abort]) (cl_init (\<lambda>u. u)) = Some c
     \<and> cl_slices c ''http://w'' 0 = Some \<lparr> sl_run = ''r1'', sl_engine = Some (cf, world_init cf) \<rparr>
     \<and> cl_step demo_env (Runs ''http://w'' 0 Cancel) c \<noteq> None"
proof -
  have "asg_run_id (demo_assignment ''r1'') = ''r1''" "ce_parse_uri demo_env = demo_parse"
    by (simp_all add: demo_assignment_def demo_env_def)
  then show ?thesis using demo_engine by (auto simp: asked_in_time_def cluster_eval)
qed

text \<open>An abort that reaches a worker before its assignment does is lost: the engine of the slice cannot be cancelled, and no
  request is on its way.\<close>

lemma early_abort_is_lost:
  "\<exists>c cf. cl_runs demo_env asked_too_early (cl_init (\<lambda>u. u)) = Some c \<and> 0 \<in> set (co_cancelled (cl_coord c))
     \<and> cl_slices c ''http://w'' 0 = Some \<lparr> sl_run = ''r1'', sl_engine = Some (cf, world_init cf) \<rparr>
     \<and> cl_step demo_env (Runs ''http://w'' 0 Cancel) c = None \<and> cl_sent c = []"
proof -
  have "asg_run_id (demo_assignment ''r1'') = ''r1''" "ce_parse_uri demo_env = demo_parse"
    by (simp_all add: demo_assignment_def demo_env_def)
  then show ?thesis using demo_engine by (auto simp: asked_too_early_def cluster_eval)
qed

theorem slices_stop_only_on_request_witness:
  "\<exists>c c'. cl_runs demo_env (asked_in_time @ [Delivered operator_abort]) (cl_init (\<lambda>u. u)) = Some c
     \<and> cl_step demo_env (Runs ''http://w'' 0 Cancel) c = Some c'
     \<and> At_Coordinator (AbortsRun ''r1'') \<in> set (asked_in_time @ [Delivered operator_abort])"
proof -
  let ?es = "asked_in_time @ [Delivered operator_abort]"
  obtain c cf where c: "cl_runs demo_env ?es (cl_init (\<lambda>u. u)) = Some c"
    "cl_slices c ''http://w'' 0 = Some \<lparr> sl_run = ''r1'', sl_engine = Some (cf, world_init cf) \<rparr>"
    "cl_step demo_env (Runs ''http://w'' 0 Cancel) c \<noteq> None"
    using in_time_delivered by blast
  then obtain c' where c': "cl_step demo_env (Runs ''http://w'' 0 Cancel) c = Some c'" by blast
  from slices_stop_only_on_request [OF c(1,2) c'] c(1) c' show ?thesis by auto
qed

theorem abort_stops_the_slice_witness:
  "\<exists>c c1. cl_runs demo_env (asked_in_time @ [Delivered operator_abort]) (cl_init (\<lambda>u. u)) = Some c
     \<and> cl_step demo_env (Runs ''http://w'' 0 Cancel) c = Some c1
     \<and> (\<forall>gs c'. cl_runs demo_env gs c1 = Some c' \<longrightarrow> length (filter conn_event (engine_events ''http://w'' 0 gs)) \<le> 11)"
proof -
  obtain c0 cf where c0: "cl_runs demo_env asked_in_time (cl_init (\<lambda>u. u)) = Some c0"
    "cl_slices c0 ''http://w'' 0 = Some \<lparr> sl_run = ''r1'', sl_engine = Some (cf, world_init cf) \<rparr>"
    "length (w_conns (world_init cf)) = 1" "cl_sent c0 = [operator_abort]"
    using in_time_runs by blast
  let ?sl = "\<lparr> sl_run = ''r1'', sl_engine = Some (cf, world_init cf) \<rparr>" and ?q = "snd operator_abort"
  obtain c where c: "cl_step demo_env (Delivered operator_abort) c0 = Some c" "cl_slices c = cl_slices c0" using c0(4) by simp
  have pair: "operator_abort = (''http://w'', ?q)" by (simp add: operator_abort_def)
  have "cl_runs demo_env (Delivered (''http://w'', ?q) # []) c0 = Some c" using c(1) pair by simp
  moreover have "length (filter (accepts ''http://w'' (sl_run ?sl)) asked_in_time) \<le> 1" by (simp add: asked_in_time_def)
  moreover have "ar_run_id ?q = sl_run ?sl" by (simp add: operator_abort_def)
  moreover have "cl_slices c ''http://w'' 0 = Some ?sl" "sl_engine ?sl = Some (cf, world_init cf)" using c(2) c0(2) by simp_all
  ultimately obtain c1 where "cl_step demo_env (Runs ''http://w'' 0 Cancel) c = Some c1"
    "\<forall>gs c'. cl_runs demo_env gs c1 = Some c' \<longrightarrow>
       length (filter conn_event (engine_events ''http://w'' 0 gs)) \<le> 11 * length (w_conns (world_init cf))"
    using abort_stops_the_slice [OF c0(1,2)] by metis
  moreover have "cl_runs demo_env (asked_in_time @ [Delivered operator_abort]) (cl_init (\<lambda>u. u)) = Some c"
    using c0(1) c(1) by (simp add: cl_runs_append)
  ultimately show ?thesis using c0(3) by auto
qed

end
