(* ===== verification/Rounding.thy ===== *)
theory Rounding
  imports Float64
begin

text \<open>
  The errors of binary64 arithmetic: every operation rounds once, and a chain of them stays within a few units in the last
  place of the exact value. The square root of a square is exact, so the root lies between the roots of squares.
\<close>

section \<open>Chains of roundings\<close>

text \<open>\<open>x\<close> is within \<open>n\<close> half units in the last place of \<open>q\<close>, each relative to the value rounded.\<close>

definition ulp :: rat where
  "ulp = 1 / 2 ^ 53"

definition rounded :: "nat \<Rightarrow> rat \<Rightarrow> rat \<Rightarrow> bool" where
  "rounded n q x \<longleftrightarrow> (1 - ulp) ^ n * q \<le> x \<and> x \<le> (1 + ulp) ^ n * q"

lemma mk64_Fin_wide: "\<bar>round64 x\<bar> \<le> 2 ^ 300 \<Longrightarrow> mk64 x = Fin (round64 x)"
proof -
  have "(2 :: rat) ^ 300 < overflow_threshold" unfolding overflow_threshold_def by (rule power_strict_increasing) simp_all
  then show "\<bar>round64 x\<bar> \<le> 2 ^ 300 \<Longrightarrow> mk64 x = Fin (round64 x)" by (simp add: mk64_def abs_le_iff)
qed

lemma rounded_0: "rounded 0 q q"
  by (simp add: rounded_def)

lemma rounded_div: "rounded n q x \<Longrightarrow> 0 < d \<Longrightarrow> rounded n (q / d) (x / d)"
  by (simp add: rounded_def divide_right_mono)

lemma rounded_round64:
  assumes "rounded n q x" "1 / 2 ^ 100 \<le> x"
  shows "rounded (Suc n) q (round64 x)"
proof -
  have "\<bar>round64 x - x\<bar> \<le> x / 2 ^ 53" by (rule round64_error) (rule normal_range, rule assms(2))
  then have "x - x / 2 ^ 53 \<le> round64 x" "round64 x \<le> x + x / 2 ^ 53" by linarith+
  then have r: "(1 - ulp) * x \<le> round64 x" "round64 x \<le> (1 + ulp) * x" by (simp_all add: ulp_def algebra_simps)
  have "0 \<le> 1 - ulp" "0 \<le> 1 + ulp" by (simp_all add: ulp_def)
  then have "(1 - ulp) * ((1 - ulp) ^ n * q) \<le> (1 - ulp) * x" "(1 + ulp) * x \<le> (1 + ulp) * ((1 + ulp) ^ n * q)"
    using assms(1) by (simp_all only: rounded_def mult_left_mono)
  with r show ?thesis by (simp add: rounded_def mult.assoc)
qed

text \<open>For the few roundings of the program the bounds are close to one.\<close>

lemma ulp_powers:
  assumes "n \<le> 3"
  shows "1 / 2 \<le> (1 - ulp) ^ n" "(1 + ulp) ^ n \<le> 1 + 1 / 2 ^ 51"
proof -
  have "(1 - ulp) ^ 3 \<le> (1 - ulp) ^ n" by (rule power_decreasing [OF assms]) (simp_all add: ulp_def)
  then show "1 / 2 \<le> (1 - ulp) ^ n" by (rule order.trans [rotated]) (simp add: ulp_def power3_eq_cube)
  have "(1 + ulp) ^ n \<le> (1 + ulp) ^ 3" by (rule power_increasing [OF assms]) (simp add: ulp_def)
  then show "(1 + ulp) ^ n \<le> 1 + 1 / 2 ^ 51" by (rule order.trans) (simp add: ulp_def power3_eq_cube)
qed

lemma rounded_bounds:
  assumes "rounded n q x" "n \<le> 3" "0 \<le> q"
  shows "q / 2 \<le> x" "x \<le> (1 + 1 / 2 ^ 51) * q"
proof -
  have "1 / 2 * q \<le> (1 - ulp) ^ n * q" "(1 + ulp) ^ n * q \<le> (1 + 1 / 2 ^ 51) * q"
    using ulp_powers [OF assms(2)] assms(3) by (simp_all only: mult_right_mono)
  then show "q / 2 \<le> x" "x \<le> (1 + 1 / 2 ^ 51) * q" using assms(1) by (simp_all add: rounded_def)
qed

text \<open>One operation of the program.\<close>

lemma mk64_rounded:
  assumes "rounded n q x" "n \<le> 2" "1 / 2 ^ 90 \<le> q" "q \<le> 2 ^ 200"
  shows "\<exists>y. mk64 x = Fin y \<and> rounded (Suc n) q y"
proof -
  have pos: "0 \<le> q" using assms(3) by (rule order.trans [rotated]) simp
  have "(1 / 2 ^ 100 :: rat) \<le> 1 / 2 ^ 90 / 2" by simp
  also have "\<dots> \<le> q / 2" using assms(3) by (rule divide_right_mono) simp
  also have "\<dots> \<le> x" using rounded_bounds(1) [OF assms(1) _ pos] assms(2) by simp
  finally have r: "rounded (Suc n) q (round64 x)" by (rule rounded_round64 [OF assms(1)])
  have "q / 2 \<le> round64 x" "round64 x \<le> (1 + 1 / 2 ^ 51) * q"
    using rounded_bounds [OF r _ pos] assms(2) by simp_all
  moreover have "(1 + 1 / 2 ^ 51) * q \<le> (2 :: rat) * 2 ^ 200"
    by (rule mult_mono) (use assms(4) pos in simp_all)
  ultimately have "\<bar>round64 x\<bar> \<le> 2 ^ 300" using pos by (simp add: abs_le_iff)
  then have "mk64 x = Fin (round64 x)" by (rule mk64_Fin_wide)
  with r show ?thesis by blast
qed

lemma divide_rounded:
  assumes "rounded n q x" "n \<le> 2" "0 < d" "1 / 2 ^ 90 \<le> q / d" "q / d \<le> 2 ^ 200"
  shows "\<exists>y. Fin x / Fin d = Fin y \<and> rounded (Suc n) (q / d) y"
  using mk64_rounded [OF rounded_div [OF assms(1,3)] assms(2,4,5)] assms(3) by simp

section \<open>Roots\<close>

lemma sqrt_square:
  assumes "0 < k" "k \<le> 2 ^ 53"
  shows "f64_sqrt (Fin (of_nat (k * k))) = Fin (of_nat k)"
proof -
  let ?x = "of_nat (k * k) :: rat"
  have x: "0 < ?x" using assms(1) by (simp only: of_nat_0_less_iff nat_0_less_mult_iff)
  have "k * k \<le> 2 ^ 53 * 2 ^ 53" using assms(2) by (rule mult_le_mono) (rule assms(2))
  then have "?x \<le> of_nat (2 ^ 53 * 2 ^ 53)" by (simp only: of_nat_le_iff)
  then have "pow2 (expo ?x) \<le> pow2 106" using expo_bounds(1) [OF x] pow2_nat [of 106] by simp
  then have "expo ?x \<le> 106" by (metis pow2_less_iff not_le)
  then have "0 \<le> root_scale ?x" unfolding root_scale_def by presburger
  then obtain n where n: "root_scale ?x = int n" by (rule nonneg_int_cases)
  have "scaled ?x = of_nat ((k * 2 ^ n) * (k * 2 ^ n))"
    using pow2_nat [of "n + n"] unfolding scaled_def n by (simp add: power_add ac_simps)
  then have "sticky_root (scaled ?x) = of_nat (k * 2 ^ n)" using sticky_root_exact [OF scaled_nonneg [OF x]] by blast
  then have "sqrt_pos ?x = of_nat k" using pow2_nat [of n] unfolding sqrt_pos_def n by (simp add: pow2_minus)
  then show ?thesis using x mk64_int [of "int k"] assms(2) by simp
qed

lemma cast_nat: "k \<le> 2 ^ 53 \<Longrightarrow> unat (as_u64 (Fin (of_nat k))) = k"
  by (simp add: trunc_u64_def unat_of_nat take_bit_nat_eq_self)

lemma sqrt_lower:
  assumes "of_nat (lo * lo) \<le> x" "0 < lo" "lo \<le> 2 ^ 53"
  shows "lo \<le> unat (as_u64 (f64_sqrt (Fin x)))"
proof -
  have "Fin 0 \<le> Fin (of_nat (lo * lo))" "Fin (of_nat (lo * lo)) \<le> Fin x" using assms(1) by simp_all
  then have "Fin (of_nat lo) \<le> f64_sqrt (Fin x)" using f64_sqrt_mono sqrt_square [OF assms(2,3)] by metis
  then have "as_u64 (Fin (of_nat lo)) \<le> as_u64 (f64_sqrt (Fin x))" by (rule as_u64_mono)
  then have "unat (as_u64 (Fin (of_nat lo))) \<le> unat (as_u64 (f64_sqrt (Fin x)))" by (simp only: word_le_nat_alt)
  then show ?thesis by (simp only: cast_nat [OF assms(3)])
qed

lemma sqrt_upper:
  assumes "x \<le> of_nat (hi * hi)" "0 < hi" "hi \<le> 2 ^ 53" "0 \<le> x"
  shows "unat (as_u64 (f64_sqrt (Fin x))) \<le> hi"
proof -
  have "Fin 0 \<le> Fin x" "Fin x \<le> Fin (of_nat (hi * hi))" using assms(1,4) by simp_all
  then have "f64_sqrt (Fin x) \<le> Fin (of_nat hi)" using f64_sqrt_mono sqrt_square [OF assms(2,3)] by metis
  then have "as_u64 (f64_sqrt (Fin x)) \<le> as_u64 (Fin (of_nat hi))" by (rule as_u64_mono)
  then have "unat (as_u64 (f64_sqrt (Fin x))) \<le> unat (as_u64 (Fin (of_nat hi)))" by (simp only: word_le_nat_alt)
  then show ?thesis by (simp only: cast_nat [OF assms(3)])
qed

end
