(* ===== verification/Offered_Load.thy ===== *)
theory Offered_Load
  imports Worker_Run Rounding
begin

text \<open>
  How much load a run offers: a request is sent no earlier than its slot (\<open>sched.rs\<close>), the slots of a rate, constant or
  ramped, leave room for so many requests before the deadline, and nothing is sent after it (\<open>worker.rs\<close>), so catching up
  and backing off never make a run send more than its schedule has slots.
\<close>

section \<open>The room of a schedule\<close>

fun peak_rate :: "rate_schedule \<Rightarrow> f64" where
  "peak_rate (Constant r) = r"
| "peak_rate (Ramp d r) = r"

text \<open>
  The requests that a schedule has slots for before the deadline: a constant rate times the duration, and half of it for a
  ramp that reaches its peak at the deadline, plus what the roundings of its slots can add.
\<close>

fun room :: "rate_schedule \<Rightarrow> nat \<Rightarrow> rat" where
  "room (Constant (Fin r)) deadline = r * of_nat deadline"
| "room (Ramp d (Fin p)) deadline = (1 + 1 / 2 ^ 51) * (p * of_nat deadline / 2)"
| "room _ deadline = 0"

text \<open>The schedules of a run whose connections send between one request in 143 years and one per microsecond.\<close>

fun sound_pace :: "rate_schedule \<Rightarrow> nat \<Rightarrow> bool" where
  "sound_pace (Constant (Fin r)) deadline = (1 / 2 ^ 52 \<le> r \<and> r \<le> 1)"
| "sound_pace (Ramp d (Fin p)) deadline = (1 / 2 ^ 52 \<le> p \<and> p \<le> 1 \<and> unat d = deadline)"
| "sound_pace _ deadline = False"

lemma sound_pace_cases:
  assumes "sound_pace s deadline"
  obtains r where "s = Constant (Fin r)" "1 / 2 ^ 52 \<le> r" "r \<le> 1" "0 < r"
  | d p where "s = Ramp d (Fin p)" "1 / 2 ^ 52 \<le> p" "p \<le> 1" "0 < p" "unat d = deadline"
proof (cases "(s, deadline)" rule: sound_pace.cases)
  case (1 r deadline')
  then show thesis using assms less_le_trans [of 0 "1 / 2 ^ 52" r] by (intro that(1) [of r]) simp_all
next
  case (2 d p deadline')
  then show thesis using assms less_le_trans [of 0 "1 / 2 ^ 52" p] by (intro that(2) [of d p]) simp_all
qed (use assms in simp_all)

lemma sound_pace_schedule: "sound_pace s deadline \<Longrightarrow> sound_schedule s"
  by (erule sound_pace_cases) simp_all

lemma room_bound:
  assumes "sound_pace s deadline" "deadline \<le> 2 ^ 52"
  shows "0 \<le> room s deadline" "room s deadline \<le> 2 ^ 52"
proof -
  have d: "(of_nat deadline :: rat) \<le> 2 ^ 52" using assms(2) by (metis of_nat_le_iff of_nat_numeral of_nat_power)
  have m: "r * of_nat deadline \<le> 1 * 2 ^ 52" if "r \<le> 1" "0 < r" for r :: rat
    by (rule mult_mono) (use that d in simp_all)
  show "0 \<le> room s deadline" using assms(1) by (rule sound_pace_cases) simp_all
  show "room s deadline \<le> 2 ^ 52" using assms(1)
  proof (rule sound_pace_cases)
    fix r assume "s = Constant (Fin r)" "r \<le> 1" "0 < r"
    then show ?thesis using m by simp
  next
    fix v p assume "s = Ramp v (Fin p)" "p \<le> 1" "0 < p"
    moreover have "(1 + 1 / 2 ^ 51) * (p * of_nat deadline / 2) \<le> 2 * (1 * 2 ^ 52 / 2)"
      by (rule mult_mono) (use m [of p] \<open>p \<le> 1\<close> \<open>0 < p\<close> in simp_all)
    ultimately show ?thesis by simp
  qed
qed

text \<open>The area under a ramp up to its request \<open>k\<close>, as the code computes it before it takes the root.\<close>

lemma twice_u64:
  assumes "unat d \<le> 2 ^ 52"
  shows "f64_lit 2 * of_u64 d = Fin (2 * of_nat (unat d))"
proof -
  have "f64_lit 2 * of_u64 d = mk64 (of_int (2 * int (unat d)))"
    using mk64_int [of 2] assms by (simp add: of_u64_small)
  also have "\<dots> = Fin (of_int (2 * int (unat d)))" using assms by (intro mk64_int) simp
  finally show ?thesis by simp
qed

lemma ramp_area:
  assumes "unat d \<le> 2 ^ 52" "0 < unat d" "unat k \<le> 2 ^ 53" "0 < unat k" "1 / 2 ^ 52 \<le> p" "p \<le> 1"
  shows "\<exists>a. slot_offset (Ramp d (Fin p)) k = as_u64 (f64_sqrt (Fin a))
    \<and> rounded 2 (2 * of_nat (unat d) * of_nat (unat k) / p) a"
proof -
  let ?d = "of_nat (unat d) :: rat" and ?k = "of_nat (unat k) :: rat"
  have p: "0 < p" using assms(5) by (rule less_le_trans [rotated]) simp
  have dk: "1 \<le> ?d" "?d \<le> 2 ^ 52" "1 \<le> ?k" "?k \<le> 2 ^ 53"
    using assms(1-4) of_nat_mono [of "unat d" "2 ^ 52", where 'a = rat] of_nat_mono [of "unat k" "2 ^ 53", where 'a = rat]
      of_nat_mono [of 1 "unat d", where 'a = rat] of_nat_mono [of 1 "unat k", where 'a = rat] by simp_all
  note d2 = twice_u64 [OF assms(1)]
  have k: "of_u64 k = Fin ?k" using assms(3) by (rule of_u64_small)
  have low: "1 * 1 \<le> 2 * ?d * ?k" by (rule mult_mono) (use dk in simp_all)
  have high: "2 * ?d * ?k \<le> (2 * 2 ^ 52) * 2 ^ 53" by (rule mult_mono) (use dk in simp_all)
  have "\<exists>y. mk64 (2 * ?d * ?k) = Fin y \<and> rounded (Suc 0) (2 * ?d * ?k) y"
    by (rule mk64_rounded [OF rounded_0]) (use low high in simp_all)
  then obtain y where y: "mk64 (2 * ?d * ?k) = Fin y" "rounded (Suc 0) (2 * ?d * ?k) y" by blast
  have "1 * p \<le> 2 * ?d * ?k" by (rule order.trans [OF _ low]) (use assms(6) in simp)
  then have "1 \<le> 2 * ?d * ?k / p" using p by (simp only: le_divide_eq_1_pos)
  moreover have "2 * ?d * ?k / p \<le> ((2 * 2 ^ 52) * 2 ^ 53) / (1 / 2 ^ 52)"
    by (rule frac_le) (use high assms(5) dk in simp_all)
  ultimately have "\<exists>a. Fin y / Fin p = Fin a \<and> rounded (Suc (Suc 0)) (2 * ?d * ?k / p) a"
    by (intro divide_rounded [OF y(2) _ p]) simp_all
  then obtain a where "Fin y / Fin p = Fin a" "rounded 2 (2 * ?d * ?k / p) a" by (metis numeral_2_eq_2)
  moreover have "f64_lit 2 * of_u64 d * of_u64 k = Fin y" by (simp only: d2 k times_f64.simps y(1))
  ultimately show ?thesis by (metis slot_offset.simps(2))
qed

text \<open>A slot before the deadline belongs to a request the schedule has room for.\<close>

lemma small_slot_in_room:
  assumes "sound_pace s deadline" "deadline \<le> 2 ^ 52" "unat k \<le> 2 ^ 53" "unat (slot_offset s k) < deadline"
  shows "of_nat (unat k) < room s deadline"
  using assms(1)
proof (rule sound_pace_cases)
  fix r assume s: "s = Constant (Fin r)" "0 < r"
  show ?thesis
  proof (rule ccontr)
    assume "\<not> of_nat (unat k) < room s deadline"
    then have "of_int (int deadline) \<le> of_nat (unat k) / r" using s by (simp add: le_divide_eq mult.commute)
    then have "mk64 (of_int (int deadline)) \<le> mk64 (of_nat (unat k) / r)" by (rule mk64_mono)
    moreover have "mk64 (of_int (int deadline)) = Fin (of_nat deadline)" using mk64_int [of "int deadline"] assms(2) by simp
    ultimately have "Fin (of_nat deadline) \<le> of_u64 k / Fin r" using s(2) assms(3) by (simp add: of_u64_small)
    then have "as_u64 (Fin (of_nat deadline)) \<le> slot_offset s k" by (simp only: s slot_offset.simps as_u64_mono)
    then have "unat (as_u64 (Fin (of_nat deadline))) \<le> unat (slot_offset s k)" by (simp only: word_le_nat_alt)
    then show False using assms(2,4) cast_nat [of deadline] by simp
  qed
next
  fix d p assume s: "s = Ramp d (Fin p)" "1 / 2 ^ 52 \<le> p" "p \<le> 1" "0 < p" "unat d = deadline"
  show ?thesis
  proof (cases "unat k = 0")
    case True
    then show ?thesis using s assms(4) by simp
  next
    case False
    let ?d = "of_nat deadline :: rat" and ?k = "of_nat (unat k) :: rat"
    have d: "0 < deadline" using assms(4) by simp
    obtain a where a: "slot_offset s k = as_u64 (f64_sqrt (Fin a))" "rounded 2 (2 * ?d * ?k / p) a"
      using ramp_area [of d k p] s assms(2,3) d False by auto
    have "\<not> of_nat (deadline * deadline) \<le> a"
      using sqrt_lower [of deadline a] d assms(2,4) a(1) by auto
    then have "(1 - ulp) ^ 2 * (2 * ?d * ?k / p) < ?d * ?d" using a(2) by (simp add: rounded_def)
    then have "?d * ((1 - ulp) ^ 2 * (2 * ?k / p)) < ?d * ?d" by (simp add: ac_simps)
    moreover have "0 < ?d" using d by simp
    ultimately have "(1 - ulp) ^ 2 * (2 * ?k / p) < ?d" by (simp only: mult_less_cancel_left_pos)
    then have "?k * (1 - ulp) ^ 2 * 2 < p * ?d" using s(4) by (simp add: divide_simps ac_simps)
    then have "(1 + 1 / 2 ^ 51) * ((1 - ulp) ^ 2 * ?k) < room s deadline" by (simp add: s(1) ac_simps)
    moreover have "1 * ?k \<le> (1 + 1 / 2 ^ 51) * (1 - ulp) ^ 2 * ?k"
      by (rule mult_right_mono) (simp_all add: ulp_def power2_eq_square)
    ultimately show ?thesis by simp
  qed
qed

lemma slot_in_room:
  assumes "sound_pace s deadline" "deadline \<le> 2 ^ 52" "unat (slot_offset s k) < deadline"
  shows "of_nat (unat k) < room s deadline"
proof (cases "unat k \<le> 2 ^ 53")
  case True
  then show ?thesis by (rule small_slot_in_room [OF assms(1,2) _ assms(3)])
next
  case False
  then have "slot_offset s (2 ^ 53) \<le> slot_offset s k"
    by (intro slot_offset_mono [OF sound_pace_schedule [OF assms(1)]]) (simp add: word_le_nat_alt)
  then have "unat (slot_offset s (2 ^ 53)) < deadline" using assms(3) by (simp add: word_le_nat_alt)
  then have "of_nat (unat (2 ^ 53 :: u64)) < room s deadline" by (intro small_slot_in_room [OF assms(1,2)]) simp_all
  then have False using room_bound(2) [OF assms(1,2)] by simp
  then show ?thesis ..
qed

text \<open>The first slot after those before the deadline does not wrap, nor does its number.\<close>

definition opened :: "rate_schedule \<Rightarrow> nat \<Rightarrow> u64 \<Rightarrow> bool" where
  "opened s deadline k \<longleftrightarrow> k = 0 \<or> unat (slot_offset s (k - 1)) < deadline"

lemma opened_in_room:
  assumes "sound_pace s deadline" "deadline \<le> 2 ^ 52" "opened s deadline k"
  shows "of_nat (unat k) < room s deadline + 1" "unat k \<le> 2 ^ 53"
proof -
  show "of_nat (unat k) < room s deadline + 1"
  proof (cases "k = 0")
    case True
    then show ?thesis using room_bound(1) [OF assms(1,2)] by simp
  next
    case False
    then have "unat (k - 1) = unat k - 1" "0 < unat k" by (simp_all add: unat_minus_one unat_gt_0)
    moreover have "of_nat (unat (k - 1)) < room s deadline"
      using False assms(3) by (intro slot_in_room [OF assms(1,2)]) (simp add: opened_def)
    ultimately show ?thesis by (simp add: of_nat_diff)
  qed
  then have "of_nat (unat k) < (of_nat (2 ^ 53) :: rat)" using room_bound(2) [OF assms(1,2)] by simp
  then show "unat k \<le> 2 ^ 53" by (simp only: of_nat_less_iff)
qed

lemma opened_slot:
  assumes "sound_pace s deadline" "deadline \<le> 2 ^ 52" "opened s deadline k"
  shows "unat (slot_offset s k) \<le> 2 ^ 53"
  using assms(1)
proof (rule sound_pace_cases)
  have d: "(of_nat deadline :: rat) \<le> 2 ^ 52" using assms(2) by (metis of_nat_le_iff of_nat_numeral of_nat_power)
  note k = opened_in_room [OF assms]
  {
    fix r assume s: "s = Constant (Fin r)" "1 / 2 ^ 52 \<le> r" "0 < r"
    then have "of_nat (unat k) \<le> r * (of_nat deadline + 1 / r)" using k(1) by (simp add: algebra_simps)
    also have "\<dots> \<le> r * (2 ^ 52 + 2 ^ 52)"
      using s(2,3) d by (intro mult_left_mono add_mono) (simp_all add: field_simps)
    finally have "of_nat (unat k) / r \<le> of_int (2 ^ 53)" using s(3) by (simp add: divide_le_eq mult.commute)
    then have "mk64 (of_nat (unat k) / r) \<le> mk64 (of_int (2 ^ 53))" by (rule mk64_mono)
    moreover have "mk64 (of_int (2 ^ 53)) = Fin (of_nat (2 ^ 53))" using mk64_int [of "2 ^ 53"] by simp
    ultimately have "of_u64 k / Fin r \<le> Fin (of_nat (2 ^ 53))" using s(3) k(2) by (simp add: of_u64_small)
    then have "slot_offset s k \<le> as_u64 (Fin (of_nat (2 ^ 53)))" by (simp only: s slot_offset.simps as_u64_mono)
    then have "unat (slot_offset s k) \<le> unat (as_u64 (Fin (of_nat (2 ^ 53))))" by (simp only: word_le_nat_alt)
    then show ?thesis by (simp only: cast_nat [OF order.refl])
  next
    fix v p assume s: "s = Ramp v (Fin p)" "1 / 2 ^ 52 \<le> p" "p \<le> 1" "0 < p" "unat v = deadline"
    let ?d = "of_nat deadline :: rat" and ?k = "of_nat (unat k) :: rat"
    show ?thesis
    proof (cases "deadline = 0 \<or> unat k = 0")
      case True
      then have "f64_lit 2 * of_u64 v * of_u64 k = Fin 0"
        using twice_u64 [of v] s(5) assms(2) by (auto simp: of_u64_def)
      then show ?thesis using s(4) by (simp add: s(1) trunc_u64_def)
    next
      case False
      then obtain a where a: "slot_offset s k = as_u64 (f64_sqrt (Fin a))" "rounded 2 (2 * ?d * ?k / p) a"
        using ramp_area [of v k p] s assms(2) k(2) by auto
      have q: "0 \<le> 2 * ?d * ?k / p" using s(4) by simp
      have "?k / p \<le> room s deadline / p + 1 / p" using k(1) s(4) by (simp add: divide_simps)
      also have "\<dots> = (1 + 1 / 2 ^ 51) * (?d / 2) + 1 / p" using s(1,4) by simp
      also have "\<dots> \<le> (1 + 1 / 2 ^ 51) * (2 ^ 52 / 2) + 2 ^ 52"
        using d s(2,4) by (intro add_mono mult_left_mono) (simp_all add: field_simps)
      finally have "(2 * ?d) * (?k / p) \<le> (2 * 2 ^ 52) * ((1 + 1 / 2 ^ 51) * (2 ^ 52 / 2) + 2 ^ 52)"
        using d s(4) by (intro mult_mono) simp_all
      then have "(1 + 1 / 2 ^ 51) * (2 * ?d * ?k / p) \<le> (1 + 1 / 2 ^ 51) * ((2 * 2 ^ 52) * ((1 + 1 / 2 ^ 51) * (2 ^ 52 / 2) + 2 ^ 52))"
        by (intro mult_left_mono) simp_all
      also have "\<dots> \<le> of_nat (2 ^ 53 * 2 ^ 53)" by simp
      finally have "a \<le> of_nat (2 ^ 53 * 2 ^ 53)" using rounded_bounds(2) [OF a(2) _ q] by simp
      moreover have "0 \<le> a" using rounded_bounds(1) [OF a(2) _ q] q by simp
      ultimately show ?thesis unfolding a(1) by (intro sqrt_upper) simp_all
    qed
  }
qed

section \<open>Requests and slots\<close>

text \<open>
  The requests of a connection are counted by its schedule, the last one had its slot before the deadline, and a request
  that is under way waits for its slot. Beyond \<open>2 ^ 63\<close> microseconds of backoff the slots themselves wrap.
\<close>

definition on_schedule :: "rate_schedule \<Rightarrow> u64 \<Rightarrow> conn \<Rightarrow> bool" where
  "on_schedule s duration c \<longleftrightarrow>
     schedule (cn_sched c) = s \<and> complete (cn_sched c) = r_completed (cn_res c)
     \<and> (unat (thread_start_us (cn_sched c)) < 2 ^ 63 \<longrightarrow>
          opened s (deadline_us duration) (complete (cn_sched c))
          \<and> (cn_phase c = Firing \<longrightarrow> unat (intended_send_time (cn_sched c)) \<le> cn_target c))"

lemma on_response_sched:
  obtains s where "cn_sched (on_response a rl i t u p buf c) = advance s" "complete s = complete (cn_sched c)"
    "schedule s = schedule (cn_sched c)" "thread_start_us (cn_sched c) \<le> thread_start_us s"
proof (cases "rate_limit_policy rl p")
  case (Pair acts b)
  have later: "thread_start_us s \<le> thread_start_us (defer_origin s d)" for s d
    using unsigned_less [of "thread_start_us s", where 'a = nat] by (simp add: defer_origin_def word_le_nat_alt rust_int)
  show thesis
    by (rule that [of "case (if classify a (status p) (max (saturating_sub u i) 1) (content_length p) (content_type_lc p)
          = RateLimited then b else None) of None \<Rightarrow> cn_sched c | Some us \<Rightarrow> defer_origin (cn_sched c) us"])
      (auto simp: on_response_def Let_def Pair schedule_simps later split: option.split)
qed

lemma on_schedule_frame:
  assumes "on_schedule s d c"
  shows "on_schedule s d (conn_refused c)" "on_schedule s d (conn_started c)" "on_schedule s d (c\<lparr>cn_todo := acts\<rparr>)"
  using assms by (auto simp: on_schedule_def conn_refused_def conn_started_def)

lemma loop_top_on_schedule:
  assumes "on_schedule s d c" "cn_phase c = AtTop"
  shows "on_schedule s d (loop_top d ab now c)"
proof -
  obtain wait t where poll: "usec_to_next_send (cn_sched c) (of_nat now) = (wait, t)" by (rule prod.exhaust)
  have "unat (of_nat now :: u64) \<le> now" by (simp add: unat_of_nat take_bit_nat_less_eq_self)
  then have "unat (intended_send_time t) \<le> now + unat wait"
    using poll_not_early [of "cn_sched c" "of_nat now"] intended_poll [of "cn_sched c" "of_nat now"] by (simp add: poll)
  moreover have "complete t = complete (cn_sched c)" "thread_start_us t = thread_start_us (cn_sched c)"
    "schedule t = schedule (cn_sched c)"
    using poll_frame [of "cn_sched c" "of_nat now"] by (simp_all add: poll)
  ultimately show ?thesis using assms by (auto simp: loop_top_def on_schedule_def poll)
qed

text \<open>A request that is ready before the deadline has its slot before it, and so has its origin.\<close>

lemma slot_before_deadline:
  assumes "sound_pace s (deadline_us d)" "deadline_us d \<le> 2 ^ 52"
    and "on_schedule s d c" "cn_phase c = Firing" "cn_target c < deadline_us d" "unat (thread_start_us (cn_sched c)) < 2 ^ 63"
  shows "unat (slot_offset s (complete (cn_sched c))) < deadline_us d" "unat (thread_start_us (cn_sched c)) < deadline_us d"
proof -
  let ?k = "complete (cn_sched c)" and ?start = "thread_start_us (cn_sched c)"
  have open': "opened s (deadline_us d) ?k" and slot: "unat (?start + slot_offset s ?k) < deadline_us d"
    using assms(3-6) by (auto simp: on_schedule_def intended_send_time_def)
  have "unat (slot_offset s ?k) \<le> 2 ^ 53" by (rule opened_slot [OF assms(1,2) open'])
  then have "unat (?start + slot_offset s ?k) = unat ?start + unat (slot_offset s ?k)"
    using assms(6) by (intro unat_plus_simple [THEN iffD1]) (simp add: no_olen_add_nat)
  with slot show "unat (slot_offset s ?k) < deadline_us d" "unat ?start < deadline_us d" by simp_all
qed

lemma fire_on_schedule:
  assumes "sound_pace s (deadline_us d)" "deadline_us d \<le> 2 ^ 52"
    and c: "on_schedule s d c" "cn_phase c = Firing" "cn_target c \<le> ex_ready x"
  shows "on_schedule s d (fire httparse a rl d x c)"
proof -
  have answered: "on_schedule s d (on_response a rl i t u p buf c)" if in_time: "ex_ready x < deadline_us d" for i t u p buf
  proof -
    let ?c = "on_response a rl i t u p buf c"
    obtain v where v: "cn_sched ?c = advance v" "complete v = complete (cn_sched c)" "schedule v = schedule (cn_sched c)"
      "thread_start_us (cn_sched c) \<le> thread_start_us v" by (rule on_response_sched)
    have "unat (slot_offset s (complete (cn_sched c))) < deadline_us d" if "unat (thread_start_us v) < 2 ^ 63"
      by (rule slot_before_deadline(1) [OF assms(1,2) c(1,2)]) (use that v(4) in_time c(3) in \<open>simp_all add: word_le_nat_alt\<close>)
    then show ?thesis using c(1) v by (simp add: on_schedule_def opened_def schedule_simps conn_simps)
  qed
  have ended: "on_schedule s d c'"
    if "cn_sched c' = cn_sched c" "r_completed (cn_res c') = r_completed (cn_res c)" "cn_phase c' = Done" for c'
    using c(1) that by (auto simp: on_schedule_def)
  show ?thesis by (auto simp: fire_def conn_refused_def answered ended split: prod.split read_result.split)
qed

lemma conns_on_schedule:
  assumes "reachable cf n w" "sound_pace (plan_schedule (cf_plan cf)) (deadline_us (duration_s (cf_spec cf)))"
    and "deadline_us (duration_s (cf_spec cf)) \<le> 2 ^ 52"
  shows "\<forall>c\<in>set (w_conns w). on_schedule (plan_schedule (cf_plan cf)) (duration_s (cf_spec cf)) c"
  using assms(1)
proof (rule conns_induct)
  show "on_schedule (plan_schedule (cf_plan cf)) (duration_s (cf_spec cf)) (conn_init (cf_plan cf) i)" for i
    by (simp add: on_schedule_def opened_def conn_init_def conn_sched_init_def conn_sched_new_def conn_sched_ramp_def
        conn_result_default_def split: rate_schedule.split)
qed (use assms(2,3) in \<open>auto intro: loop_top_on_schedule fire_on_schedule on_schedule_frame\<close>)

text \<open>The room of each connection of a run, and the requests all of them have completed.\<close>

definition run_room :: "'h config \<Rightarrow> rat" where
  "run_room cf = room (plan_schedule (cf_plan cf)) (deadline_us (duration_s (cf_spec cf)))"

definition requests_done :: "'h world \<Rightarrow> nat" where
  "requests_done w = sum_list (map (\<lambda>c. unat (r_completed (cn_res c))) (w_conns w))"

lemma load_within_schedule:
  assumes "reachable cf n w" "sound_pace (plan_schedule (cf_plan cf)) (deadline_us (duration_s (cf_spec cf)))"
    and "deadline_us (duration_s (cf_spec cf)) \<le> 2 ^ 52"
    and "\<forall>c\<in>set (w_conns w). unat (thread_start_us (cn_sched c)) < 2 ^ 63"
  shows "\<forall>c\<in>set (w_conns w). of_nat (unat (r_completed (cn_res c))) < run_room cf + 1"
    and "of_nat (requests_done w) \<le> of_nat (length (w_conns w)) * (run_room cf + 1)"
proof -
  show each: "\<forall>c\<in>set (w_conns w). of_nat (unat (r_completed (cn_res c))) < run_room cf + 1"
    using conns_on_schedule [OF assms(1-3)] assms(4) opened_in_room(1) [OF assms(2,3)]
    by (fastforce simp: on_schedule_def run_room_def)
  have "of_nat (sum_list (map (\<lambda>c. unat (r_completed (cn_res c))) cs)) \<le> of_nat (length cs) * (run_room cf + 1)"
    if "\<forall>c\<in>set cs. of_nat (unat (r_completed (cn_res c))) < run_room cf + 1" for cs
    using that by (induction cs) (auto simp: algebra_simps)
  from this [of "w_conns w"] each show "of_nat (requests_done w) \<le> of_nat (length (w_conns w)) * (run_room cf + 1)"
    by (simp add: requests_done_def)
qed

section \<open>Origins\<close>

text \<open>A backoff is at most the configured one, and is only charged to a connection whose slots are still to come.\<close>

lemma policy_bound:
  assumes "rate_limit_policy rl p = (acts, Some us)"
  shows "unat us \<le> unat (rl_max_backoff_ms rl) * 1000"
proof -
  have "unat (saturating_mul (min ra m) 1000) \<le> unat m * 1000" for ra m :: u64
  proof -
    have "unat (saturating_mul (min ra m) 1000) \<le> unat (min ra m) * 1000" by (simp add: unat_saturating_mul)
    also have "\<dots> \<le> unat m * 1000" by (intro mult_le_mono1) (simp flip: word_le_nat_alt)
    finally show ?thesis .
  qed
  then show ?thesis using assms by (auto simp: rate_limit_policy_def Let_def split: rl_action.splits option.splits if_splits)
qed

lemma on_response_origin:
  "unat (thread_start_us (cn_sched (on_response a rl i t u p buf c)))
     \<le> unat (thread_start_us (cn_sched c)) + unat (rl_max_backoff_ms rl) * 1000"
proof (cases "rate_limit_policy rl p")
  case (Pair acts b)
  have later: "unat (thread_start_us (defer_origin s us)) \<le> unat (thread_start_us s) + unat us" for s us
    by (simp add: defer_origin_def unat_saturating_add)
  show ?thesis
  proof (cases b)
    case (Some us)
    then show ?thesis
      using policy_bound [of rl p acts us] later [of "cn_sched c" us] Pair
      by (auto simp: on_response_def Let_def schedule_simps)
  qed (simp add: on_response_def Let_def Pair schedule_simps)
qed

definition has_origin :: "conn \<Rightarrow> bool" where
  "has_origin c \<longleftrightarrow> unat (thread_start_us (cn_sched c)) < 2 ^ 54"

lemma has_origin_frame:
  assumes "has_origin c"
  shows "has_origin (conn_refused c)" "has_origin (conn_started c)" "has_origin (c\<lparr>cn_todo := acts\<rparr>)"
    "has_origin (loop_top d ab now c)"
  using assms poll_frame(2) [of "cn_sched c" "of_nat now"]
  by (auto simp: has_origin_def conn_refused_def conn_started_def loop_top_def split: prod.split)

lemma fire_has_origin:
  assumes "sound_pace s (deadline_us d)" "deadline_us d \<le> 2 ^ 52"
    and c: "on_schedule s d c" "has_origin c" "cn_phase c = Firing" "cn_target c \<le> ex_ready x"
    and backoff: "unat (rl_max_backoff_ms rl) \<le> 2 ^ 42"
  shows "has_origin (fire httparse a rl d x c)"
proof -
  have "has_origin (on_response a rl i t u p buf c)" if in_time: "ex_ready x < deadline_us d" for i t u p buf
  proof -
    have "unat (thread_start_us (cn_sched c)) < deadline_us d"
      by (rule slot_before_deadline(2) [OF assms(1,2) c(1,3)]) (use c(2,4) in_time in \<open>simp_all add: has_origin_def\<close>)
    then show ?thesis
      using on_response_origin [of a rl i t u p buf c] assms(2) backoff by (simp add: has_origin_def)
  qed
  then show ?thesis using c(2) by (auto simp: fire_def conn_refused_def has_origin_def split: prod.split read_result.split)
qed

text \<open>The schedule of a run, and the first slots of its connections, which lie within one interval of the rate of a connection.\<close>

lemma setup_peak:
  "run_setup spec = Inr plan \<Longrightarrow>
   peak_rate (plan_schedule plan) = target_rps spec / of_u64 (connections spec) / f64_lit 1000000"
  by (simp add: setup_schedule(1) Let_def)

lemma setup_pace:
  assumes "run_setup spec = Inr plan" "peak_rate (plan_schedule plan) = Fin r" "1 / 2 ^ 52 \<le> r" "r \<le> 1"
    and "deadline_us (duration_s spec) \<le> 2 ^ 52"
  shows "sound_pace (plan_schedule plan) (deadline_us (duration_s spec))"
proof -
  have "unat (saturating_mul (duration_s spec) 1000000) = deadline_us (duration_s spec)"
    using assms(5) by (simp add: deadline_us_def unat_saturating_mul)
  then show ?thesis using assms(2-4) by (simp add: setup_schedule(1) [OF assms(1)] Let_def split: if_splits)
qed

lemma first_interval:
  assumes "run_setup spec = Inr plan" "peak_rate (plan_schedule plan) = Fin r" "1 / 2 ^ 52 \<le> r"
  shows "unat (as_u64 (f64_lit 1000000 / (target_rps spec / of_u64 (connections spec)))) \<le> 2 ^ 53"
proof -
  let ?v = "target_rps spec / of_u64 (connections spec)"
  have million: "f64_lit 1000000 = Fin 1000000" using mk64_int [of 1000000] by simp
  have r: "?v / f64_lit 1000000 = Fin r" using setup_peak [OF assms(1)] assms(2) by simp
  then obtain b where b: "?v = Fin b" "mk64 (b / 1000000) = Fin r" by (cases ?v) (simp_all add: million)
  then have rb: "r = round64 (b / 1000000)" by (simp add: mk64_def Let_def split: if_splits)
  have tiny: "round64 (1 / 2 ^ 53) = 1 / 2 ^ 53"
    using round_pos_dyadic [of 1 "- 53"] pow2_minus [of "int 53"] pow2_nat [of 53] by (simp add: round64_def)
  have "1 / 2 ^ 53 \<le> b / 1000000"
  proof (rule ccontr)
    assume "\<not> 1 / 2 ^ 53 \<le> b / 1000000"
    then have "round64 (b / 1000000) \<le> round64 (1 / 2 ^ 53)" by (intro round64_mono) simp
    then have "r \<le> 1 / 2 ^ 53" by (simp only: rb tiny)
    with assms(3) have "(1 / 2 ^ 52 :: rat) \<le> 1 / 2 ^ 53" by (rule order.trans)
    then show False by simp
  qed
  then have "0 < b" "1000000 / b \<le> 2 ^ 53" by (simp_all add: field_simps)
  then have "Fin 1000000 / ?v \<le> mk64 (of_int (2 ^ 53))" using b(1) by (simp add: mk64_mono)
  then have "as_u64 (Fin 1000000 / ?v) \<le> as_u64 (mk64 (of_int (2 ^ 53)))" by (rule as_u64_mono)
  also have "mk64 (of_int (2 ^ 53)) = Fin (of_int (2 ^ 53))" by (rule mk64_int) simp
  also have "as_u64 (Fin (of_int (2 ^ 53))) = 2 ^ 53" by (simp add: trunc_u64_def)
  finally show ?thesis by (simp add: million word_le_nat_alt)
qed

lemma conns_have_origin:
  assumes "reachable cf n w" "run_setup (cf_spec cf) = Inr (cf_plan cf)"
    and rate: "peak_rate (plan_schedule (cf_plan cf)) = Fin r" "1 / 2 ^ 52 \<le> r" "r \<le> 1"
    and deadline: "deadline_us (duration_s (cf_spec cf)) \<le> 2 ^ 52"
    and "unat (max_backoff_ms (cf_spec cf)) \<le> 2 ^ 42"
  shows "\<forall>c\<in>set (w_conns w). has_origin c"
proof -
  let ?s = "plan_schedule (cf_plan cf)"
  let ?P = "\<lambda>c. on_schedule ?s (duration_s (cf_spec cf)) c \<and> has_origin c"
  note pace = setup_pace [OF assms(2) rate deadline]
  have scheduled: "on_schedule ?s (duration_s (cf_spec cf)) (conn_init (cf_plan cf) i)"
    if "i < unat (connections (cf_spec cf))" for i
    using conns_on_schedule [OF reachable.start pace deadline] that by (auto simp: world_init_def)
  have "\<forall>c\<in>set (w_conns w). ?P c"
    using assms(1)
  proof (rule conns_induct)
    fix i assume i: "i < unat (connections (cf_spec cf))"
    have "i * unat (plan_stagger_us (cf_plan cf)) \<le> Suc i * unat (plan_stagger_us (cf_plan cf))" by simp
    then have "has_origin (conn_init (cf_plan cf) i)"
      using starts_within_one_interval [OF assms(2) i] first_interval [OF assms(2) rate(1,2)] by (simp add: has_origin_def)
    with scheduled [OF i] show "?P (conn_init (cf_plan cf) i)" ..
  next
    fix c and x :: exchange assume "?P c" "cn_phase c = Firing" "cn_target c \<le> ex_ready x"
    then show "?P (fire (cf_httparse cf) (from_spec (cf_spec cf)) (rl_config_of (cf_spec cf)) (duration_s (cf_spec cf)) x c)"
      using fire_on_schedule [OF pace deadline] fire_has_origin [OF pace deadline] assms(7) by (simp add: rl_config_of_def)
  qed (auto intro: loop_top_on_schedule on_schedule_frame has_origin_frame)
  then show ?thesis by blast
qed

lemma origins_in_range:
  assumes "reachable cf n w" "run_setup (cf_spec cf) = Inr (cf_plan cf)" "peak_rate (plan_schedule (cf_plan cf)) = Fin r"
    and "1 / 2 ^ 52 \<le> r" "r \<le> 1" "deadline_us (duration_s (cf_spec cf)) \<le> 2 ^ 52" "unat (max_backoff_ms (cf_spec cf)) \<le> 2 ^ 42"
  shows "\<forall>c\<in>set (w_conns w). unat (thread_start_us (cn_sched c)) < 2 ^ 63"
  using conns_have_origin [OF assms] by (auto simp: has_origin_def)

section \<open>The load of a run\<close>

text \<open>C7. No run overloads its target: in every reachable state, and however often the connections fall behind, catch up
  and back off, none has completed more requests than its schedule has room for in the duration, and one, so all together
  complete at most that many and one per connection. The room is the offered rate times the duration at a constant rate,
  and half of the peak rate times the duration on a ramp, whose slots also round.\<close>

theorem load_stays_below_target:
  assumes "reachable cf n w" "run_setup (cf_spec cf) = Inr (cf_plan cf)" "peak_rate (plan_schedule (cf_plan cf)) = Fin r"
    and "1 / 2 ^ 52 \<le> r" "r \<le> 1" "deadline_us (duration_s (cf_spec cf)) \<le> 2 ^ 52"
    and "unat (max_backoff_ms (cf_spec cf)) \<le> 2 ^ 42"
  shows "(\<forall>c\<in>set (w_conns w). of_nat (unat (r_completed (cn_res c))) < run_room cf + 1)
    \<and> of_nat (requests_done w) \<le> of_nat (length (w_conns w)) * (run_room cf + 1)"
  using load_within_schedule [OF assms(1) setup_pace [OF assms(2-6)] assms(6) origins_in_range [OF assms]]
  by simp

text \<open>A ramp to 1000 requests per second over a second has room for 500 requests, like the one of the source's own tests.\<close>

lemma ramp_room:
  "sound_pace (Ramp 1000000 (f64_lit (1 / 1000))) 1000000" "room (Ramp 1000000 (f64_lit (1 / 1000))) 1000000 < 500 + 1 / 10 ^ 12"
  by (simp_all only: throughput_1000rps) simp_all

definition load_config :: "nat list config" where
  "load_config = demo_config\<lparr>
     cf_spec := (cf_spec demo_config)\<lparr>target_rps := Fin 1000\<rparr>,
     cf_plan := \<lparr> plan_host = ''mock'', plan_port = 8080, plan_host_header = ''mock:8080'', plan_path = ''/api'',
       plan_schedule = Constant (f64_lit (1 / 1000)), plan_stagger_us = 1000,
       plan_req_bytes = request_bytes ''GET'' ''/api'' ''mock:8080'' \<rparr>\<rparr>"

lemma load_setup: "run_setup (cf_spec load_config) = Inr (cf_plan load_config)"
proof -
  have "decimal 8080 = ''8080''" by (simp add: decimal.simps char_of_def bit_0)
  then show ?thesis
    by (simp add: load_config_def demo_config_def example_spec_def run_setup_def Let_def float_eval)
qed

lemma load_run:
  "\<exists>w. worker_runs load_config demo_events (world_init load_config) = Some w
     \<and> map (r_completed \<circ> cn_res) (w_conns w) = [1] \<and> requests_done w = 1"
  by (simp add: load_config_def demo_events_def demo_eval conn_result_default_def requests_done_def)

theorem load_stays_below_target_witness:
  "\<exists>w. worker_runs load_config demo_events (world_init load_config) = Some w
     \<and> requests_done w = 1 \<and> requests_done w \<le> 30001"
proof -
  let ?r = "1152921504606847 / 1152921504606846976 :: rat"
  obtain w where w: "worker_runs load_config demo_events (world_init load_config) = Some w"
    "map (r_completed \<circ> cn_res) (w_conns w) = [1]" "requests_done w = 1"
    using load_run by (elim exE conjE) (rule that)
  have D: "deadline_us (duration_s (cf_spec load_config)) = 30000000"
    by (simp add: load_config_def demo_config_def example_spec_def deadline_us_def)
  have plan: "plan_schedule (cf_plan load_config) = Constant (Fin ?r)"
    using throughput_1000rps by (simp add: load_config_def)
  then have room: "run_room load_config = ?r * of_nat 30000000" by (simp add: run_room_def D)
  have "unat (max_backoff_ms (cf_spec load_config)) \<le> 2 ^ 42"
    by (simp add: load_config_def demo_config_def example_spec_def)
  moreover have "length (w_conns w) = 1" using arg_cong [OF w(2), of length] by simp
  ultimately have "of_nat (requests_done w) \<le> ?r * of_nat 30000000 + 1"
    using load_stays_below_target [OF runs_reachable [OF reachable.start w(1)] load_setup, of ?r] plan by (simp add: D room)
  moreover have "?r * of_nat 30000000 + 1 < of_nat 30002" by simp
  ultimately have "of_nat (requests_done w) < (of_nat 30002 :: rat)" by (rule le_less_trans)
  then have "requests_done w < 30002" by (simp only: of_nat_less_iff)
  with w(1,3) show ?thesis by auto
qed

end
