(* ===== verification/Fleet_Load.thy ===== *)
theory Fleet_Load
  imports Dispatch Abort_Path Offered_Load Rounding
begin

text \<open>
  The load of a whole fleet: the coordinator (\<open>coordinator/dispatch.rs\<close>) divides the target rate among the workers, each
  worker (\<open>worker_node.rs\<close>, \<open>worker.rs\<close>) among its connections, and each division rounds. The errors of the roundings are
  bounded, so that the sum over the fleet keeps to the target.
\<close>

section \<open>The rate of a connection\<close>

text \<open>The exact rate of one of \<open>w\<close> times \<open>c\<close> connections per microsecond; it is sensible between one request in seventy-one
  years and one in two microseconds.\<close>

definition share :: "rat \<Rightarrow> nat \<Rightarrow> nat \<Rightarrow> rat" where
  "share t w c = t / of_nat w / of_nat c / 1000000"

definition sensible_share :: "rat \<Rightarrow> nat \<Rightarrow> nat \<Rightarrow> bool" where
  "sensible_share t w c \<longleftrightarrow> 0 < w \<and> w \<le> 2 ^ 20 \<and> 0 < c \<and> c < 2 ^ 31 \<and> 1 / 2 ^ 51 \<le> share t w c \<and> share t w c \<le> 1 / 2"

lemma of_u64_nat: "n \<le> 2 ^ 53 \<Longrightarrow> of_u64 (of_nat n) = Fin (of_nat n)"
  by (subst of_u64_small) (simp_all add: unat_of_nat take_bit_nat_eq_self)

lemma connection_rate:
  assumes "sensible_share t w c" "unat n = c"
  shows "\<exists>r. Fin t / of_u64 (of_nat w) / of_u64 n / f64_lit 1000000 = Fin r \<and> rounded 3 (share t w c) r"
proof -
  have w: "1 \<le> (of_nat w :: rat)" "(of_nat w :: rat) \<le> 2 ^ 20" "0 < (of_nat w :: rat)"
    and c: "1 \<le> (of_nat c :: rat)" "(of_nat c :: rat) \<le> 2 ^ 31" "0 < (of_nat c :: rat)"
    using assms(1) of_nat_mono [of w "2 ^ 20", where 'a = rat] of_nat_mono [of c "2 ^ 31", where 'a = rat]
    by (simp_all add: sensible_share_def)
  have x: "1 / 2 ^ 51 \<le> share t w c" "share t w c \<le> 1 / 2" using assms(1) by (simp_all add: sensible_share_def)
  have fl: "of_u64 (of_nat w) = Fin (of_nat w)" "of_u64 n = Fin (of_nat c)" "f64_lit 1000000 = Fin 1000000"
    using assms mk64_int [of 1000000] by (simp_all add: of_u64_nat of_u64_small sensible_share_def)
  have a: "t / of_nat w = share t w c * (1000000 * of_nat c)" and b: "t / of_nat w / of_nat c = share t w c * 1000000"
    using c by (simp_all add: share_def)
  have lower: "1 / 2 ^ 90 \<le> share t w c * m" and upper: "share t w c * m \<le> 2 ^ 200" if "1 \<le> m" "m \<le> 2 ^ 60" for m
  proof -
    have "(1 / 2 ^ 90 :: rat) \<le> 1 / 2 ^ 51 * 1" by simp
    also have "\<dots> \<le> share t w c * m" by (rule mult_mono) (use x that in simp_all)
    finally show "1 / 2 ^ 90 \<le> share t w c * m" .
    have "share t w c * m \<le> 1 / 2 * 2 ^ 60" by (rule mult_mono) (use x that in simp_all)
    then show "share t w c * m \<le> 2 ^ 200" by (rule order.trans) simp
  qed
  have m: "1 \<le> 1000000 * (of_nat c :: rat)" "1000000 * (of_nat c :: rat) \<le> 2 ^ 60" using c by simp_all
  have "\<exists>y. Fin t / Fin (of_nat w) = Fin y \<and> rounded (Suc 0) (t / of_nat w) y"
    by (rule divide_rounded [OF rounded_0 _ w(3)]) (simp, unfold a, rule lower [OF m], rule upper [OF m])
  then obtain y1 where y1: "Fin t / Fin (of_nat w) = Fin y1" "rounded (Suc 0) (t / of_nat w) y1" by blast
  have "\<exists>y. Fin y1 / Fin (of_nat c) = Fin y \<and> rounded (Suc (Suc 0)) (t / of_nat w / of_nat c) y"
    by (rule divide_rounded [OF y1(2) _ c(3)]) (simp, unfold b, (rule lower upper; simp)+)
  then obtain y2 where y2: "Fin y1 / Fin (of_nat c) = Fin y2" "rounded (Suc (Suc 0)) (t / of_nat w / of_nat c) y2" by blast
  have "\<exists>y. Fin y2 / Fin 1000000 = Fin y \<and> rounded (Suc (Suc (Suc 0))) (t / of_nat w / of_nat c / 1000000) y"
    by (rule divide_rounded [OF y2(2)]) (simp, simp, fold share_def, use lower [of 1] upper [of 1] in simp_all)
  then obtain y3 where y3: "Fin y2 / Fin 1000000 = Fin y3" "rounded 3 (share t w c) y3"
    unfolding share_def [symmetric] numeral_3_eq_3 by blast
  have "Fin t / of_u64 (of_nat w) / of_u64 n / f64_lit 1000000 = Fin y3" by (simp only: fl y1(1) y2(1) y3(1))
  with y3(2) show ?thesis by blast
qed

section \<open>The engines of a run\<close>

text \<open>What a worker starts when it accepts an assignment; it starts nothing for one it cannot read.\<close>

definition slice_engine :: "'h cluster_env \<Rightarrow> assignment \<Rightarrow> ('h config \<times> 'h world) option" where
  "slice_engine E a =
     (case build_run_spec (ce_parse_uri E) a of
        Inl e \<Rightarrow> None
      | Inr spec \<Rightarrow> engine_start E spec)"

lemma conns_number: "reachable cf n w \<Longrightarrow> length (w_conns w) = unat (connections (cf_spec cf))"
proof (induction rule: reachable.induct)
  case start
  then show ?case by (simp add: world_init_def)
next
  case (event n w ev w')
  then show ?case
    by (cases ev) (auto simp: on_conn_def act_def emit_def Let_def split: if_splits list.splits prod.splits option.splits)
qed

lemma assigned_spec:
  assumes "build_run_spec parse_uri (build_assignment spec wid rps epoch) = Inr r"
    and "unat (ds_duration_s spec) < 2 ^ 31" "0 < unat (ds_connections spec)" "unat (ds_connections spec) < 2 ^ 31"
  shows "target_rps r = rps" "unat (duration_s r) = unat (ds_duration_s spec)"
    "unat (connections r) = unat (ds_connections spec)" "\<not> ramp r" "max_backoff_ms r = 5000"
proof -
  have dur: "unat (i32_as_u64 (i32_max (ucast (ds_duration_s spec)) 0)) = unat (ds_duration_s spec)"
    using sint_small [of "ucast (ds_duration_s spec)"] ucast_small [OF assms(2)] assms(2) sint_small(2) [of 0]
    by (simp add: i32_max_def)
  have con: "unat (i32_as_u64 (i32_max (ds_connections spec) 1)) = unat (ds_connections spec)"
    using sint_small [OF assms(4)] assms(3) sint_small(2) [of 1] by (simp add: i32_max_def)
  have five: "0 < sint (5000 :: i32)" "i32_as_u64 5000 = 5000" by (simp_all add: i32_as_u64_def)
  show "target_rps r = rps" "unat (duration_s r) = unat (ds_duration_s spec)"
    "unat (connections r) = unat (ds_connections spec)" "\<not> ramp r" "max_backoff_ms r = 5000"
    using assms(1) dur con five
    by (auto simp: build_run_spec_def build_assignment_def rate_limit_of_def rate_limit_action_try_from_def Let_def
        split: option.splits)
qed

lemma slice_engineD:
  assumes "slice_engine E a = Some (cf, w)"
  shows "build_run_spec (ce_parse_uri E) a = Inr (cf_spec cf)" "run_setup (cf_spec cf) = Inr (cf_plan cf)"
    "w = world_init cf"
  using assms by (auto simp: slice_engine_def engine_start_def Let_def split: sum.splits)

text \<open>The load of one engine.\<close>

lemma slice_load:
  assumes "slice_engine E (build_assignment spec wid (per_worker_rps spec k) epoch) = Some (cf, w0)" "reachable cf n w"
    and "ds_target_rps spec = Fin t" "unat (ds_duration_s spec) < 2 ^ 31"
    and "sensible_share t k (unat (ds_connections spec))"
  shows "of_nat (requests_done w) \<le> of_nat (unat (ds_connections spec))
    * ((1 + 1 / 2 ^ 51) * share t k (unat (ds_connections spec)) * of_nat (unat (ds_duration_s spec) * 1000000) + 1)"
proof -
  let ?c = "unat (ds_connections spec)" and ?D = "of_nat (unat (ds_duration_s spec) * 1000000) :: rat"
  have c: "0 < ?c" "?c < 2 ^ 31" and s: "1 / 2 ^ 51 \<le> share t k ?c" "share t k ?c \<le> 1 / 2"
    using assms(5) by (simp_all add: sensible_share_def)
  note eng = slice_engineD [OF assms(1)]
  note spec = assigned_spec [OF eng(1) assms(4) c]
  have "unat (connections (cf_spec cf)) = ?c" by (rule spec(3))
  from connection_rate [OF assms(5) this] obtain r where
    r: "target_rps (cf_spec cf) / of_u64 (connections (cf_spec cf)) / f64_lit 1000000 = Fin r" "rounded 3 (share t k ?c) r"
    by (auto simp: spec(1) per_worker_rps_def assms(3))
  have plan: "plan_schedule (cf_plan cf) = Constant (Fin r)"
    using setup_schedule(1) [OF eng(2)] spec(4) r(1) by (simp add: Let_def)
  have peak: "peak_rate (plan_schedule (cf_plan cf)) = Fin r" by (simp add: plan)
  have bounds: "share t k ?c / 2 \<le> r" "r \<le> (1 + 1 / 2 ^ 51) * share t k ?c"
    using rounded_bounds [OF r(2)] s by simp_all
  have r1: "1 / 2 ^ 52 \<le> r" "r \<le> 1" using bounds s by simp_all
  have dl: "deadline_us (duration_s (cf_spec cf)) = unat (ds_duration_s spec) * 1000000" by (simp add: deadline_us_def spec(2))
  then have d: "deadline_us (duration_s (cf_spec cf)) \<le> 2 ^ 52" using assms(4) by simp
  have "unat (max_backoff_ms (cf_spec cf)) \<le> 2 ^ 42" by (simp add: spec(5))
  note origins = origins_in_range [OF assms(2) eng(2) peak r1 d this]
  from load_within_schedule(2) [OF assms(2) setup_pace [OF eng(2) peak r1 d] d origins]
  have "of_nat (requests_done w) \<le> of_nat ?c * (r * ?D + 1)"
    by (simp only: run_room_def plan room.simps dl conns_number [OF assms(2)] spec(3))
  also have "\<dots> \<le> of_nat ?c * ((1 + 1 / 2 ^ 51) * share t k ?c * ?D + 1)"
    by (intro mult_left_mono add_right_mono mult_right_mono bounds(2)) simp_all
  finally show ?thesis .
qed

section \<open>The load of the fleet\<close>

text \<open>Each worker either has no engine (it refused the assignment, or was never reached) or its engine is somewhere in its run.\<close>

definition slice_running :: "'h cluster_env \<Rightarrow> assignment \<Rightarrow> ('h config \<times> 'h world) option \<Rightarrow> bool" where
  "slice_running E a e \<longleftrightarrow> (\<forall>cf w. e = Some (cf, w) \<longrightarrow> (\<exists>w0 n. slice_engine E a = Some (cf, w0) \<and> reachable cf n w))"

definition fleet_running ::
  "'h cluster_env \<Rightarrow> (string \<times> string \<times> assignment) list \<Rightarrow> ('h config \<times> 'h world) option list \<Rightarrow> bool" where
  "fleet_running E calls engines \<longleftrightarrow> list_all2 (\<lambda>call. slice_running E (snd (snd call))) calls engines"

definition fleet_done :: "('h config \<times> 'h world) option list \<Rightarrow> nat" where
  "fleet_done engines = sum_list (map (\<lambda>e. case e of None \<Rightarrow> 0 | Some (cf, w) \<Rightarrow> requests_done w) engines)"

lemma fleet_done_bound:
  assumes "list_all2 R calls engines" "\<And>a cf w. a \<in> set calls \<Longrightarrow> R a (Some (cf, w)) \<Longrightarrow> of_nat (requests_done w) \<le> (m :: rat)" "0 \<le> m"
  shows "of_nat (fleet_done engines) \<le> of_nat (length calls) * m"
  using assms(1,2)
proof (induction rule: list_all2_induct)
  case (Cons a calls e engines)
  have "of_nat (fleet_done engines) \<le> of_nat (length calls) * m" by (rule Cons.IH) (use Cons.prems in auto)
  moreover have "of_nat (case e of None \<Rightarrow> 0 | Some (cf, w) \<Rightarrow> requests_done w) \<le> m"
    using Cons.prems [of a] Cons.hyps(1) assms(3) by (cases e) auto
  ultimately show ?case by (simp add: fleet_done_def algebra_simps)
qed (simp add: fleet_done_def)

lemma dispatched:
  assumes "dispatch_begin spec now token st = (Inr calls, st')" "(u, wid, a) \<in> set calls"
  shows "\<exists>epoch. a = build_assignment spec wid (per_worker_rps spec (length calls)) epoch"
  using assms by (auto simp: dispatch_begin_def Let_def split: if_splits)

lemma share_total:
  assumes "0 < k" "0 < c"
  shows "of_nat k * (of_nat c * (e * share t k c * of_nat (d * 1000000) + 1)) = e * (t * of_nat d) + of_nat (k * c)"
  using assms by (simp add: share_def field_simps)

text \<open>C8. No fleet overloads its target: the coordinator hands every worker its share of the target rate, and whatever the
  workers then do, at no moment of the run have their engines together completed more requests than the target rate has
  room for in the whole duration, one more for every connection, and the part in \<open>2 ^ 51\<close> that the roundings of the three
  divisions can add up to.\<close>

theorem fleet_load_stays_below_target:
  assumes "dispatch_begin spec now token st = (Inr calls, st')" "fleet_running E calls engines"
    and "ds_target_rps spec = Fin t" "unat (ds_duration_s spec) < 2 ^ 31"
    and "sensible_share t (length calls) (unat (ds_connections spec))"
  shows "of_nat (fleet_done engines)
    \<le> (1 + 1 / 2 ^ 51) * (t * of_nat (unat (ds_duration_s spec))) + of_nat (length calls * unat (ds_connections spec))"
proof -
  let ?k = "length calls" and ?c = "unat (ds_connections spec)"
  let ?m = "of_nat ?c * ((1 + 1 / 2 ^ 51) * share t ?k ?c * of_nat (unat (ds_duration_s spec) * 1000000) + 1) :: rat"
  have s: "0 < ?k" "0 < ?c" "1 / 2 ^ 51 \<le> share t ?k ?c" using assms(5) by (simp_all add: sensible_share_def)
  have "0 \<le> share t ?k ?c" using s(3) by (rule order.trans [rotated]) simp
  then have m: "0 \<le> ?m" by simp
  have "of_nat (fleet_done engines) \<le> of_nat ?k * ?m"
  proof (rule fleet_done_bound [OF assms(2) [unfolded fleet_running_def] _ m])
    fix call :: "string \<times> string \<times> assignment" and cf w
    assume call: "call \<in> set calls" "slice_running E (snd (snd call)) (Some (cf, w))"
    obtain u wid a where abc: "call = (u, wid, a)" by (rule prod_cases3)
    with call(2) obtain w0 n where run: "slice_engine E a = Some (cf, w0)" "reachable cf n w" by (auto simp: slice_running_def)
    obtain epoch where "a = build_assignment spec wid (per_worker_rps spec ?k) epoch"
      using dispatched [OF assms(1)] call(1) abc by blast
    from slice_load [OF run(1) [unfolded this] run(2) assms(3-5)] show "of_nat (requests_done w) \<le> ?m" .
  qed
  then show ?thesis by (simp only: share_total [OF s(1,2)])
qed

text \<open>Two workers share 2000 requests per second; one has answered a request, the other has refused its assignment.\<close>

definition fleet_coordinator :: coordinator where
  "fleet_coordinator =
     co_run [Registers demo_info 0, Registers (demo_info\<lparr>wi_worker_id := ''w2'', wi_address := ''10.0.0.2:7001''\<rparr>) 0]
       coordinator_new"

definition fleet_dispatch :: dispatch_spec where
  "fleet_dispatch = demo_dispatch\<lparr>ds_target_rps := Fin 2000, ds_connections := 1\<rparr>"

definition fleet_assignment :: assignment where
  "fleet_assignment = build_assignment fleet_dispatch ''w1'' (per_worker_rps fleet_dispatch 2) 7"

lemma fleet_workers: "map wk_worker_id (list_workers fleet_coordinator) = [''w1'', ''w2'']"
  by (simp add: fleet_coordinator_def co_register_def demo_info_def CONTRACT_VERSION_def coordinator_new_def
      list_workers_def hm_insert_def hm_values_def hm_get_def)

lemma fleet_dispatched:
  "\<exists>calls st'. dispatch_begin fleet_dispatch 7 0 fleet_coordinator = (Inr calls, st')
     \<and> map (snd \<circ> snd) calls = [fleet_assignment, fleet_assignment\<lparr>asg_worker_id := ''w2''\<rparr>]"
proof -
  have two: "length (list_workers fleet_coordinator) = 2" using arg_cong [OF fleet_workers, of length] by simp
  have "map (\<lambda>w. build_assignment fleet_dispatch (wk_worker_id w) (per_worker_rps fleet_dispatch 2) 7) (list_workers fleet_coordinator)
    = map (\<lambda>i. build_assignment fleet_dispatch i (per_worker_rps fleet_dispatch 2) 7) (map wk_worker_id (list_workers fleet_coordinator))"
    by simp
  also have "\<dots> = [fleet_assignment, fleet_assignment\<lparr>asg_worker_id := ''w2''\<rparr>]"
    by (simp only: fleet_workers) (simp add: fleet_assignment_def build_assignment_def)
  moreover have "list_workers fleet_coordinator \<noteq> []" using two by auto
  moreover have "ds_epoch_unix_us fleet_dispatch = 0" by (simp add: fleet_dispatch_def demo_dispatch_def)
  ultimately show ?thesis by (simp add: dispatch_begin_def Let_def two comp_def)
qed

lemma fleet_engine:
  "\<exists>cf w0 w. slice_engine demo_env fleet_assignment = Some (cf, w0) \<and> worker_runs cf demo_events w0 = Some w
     \<and> requests_done w = 1"
  by (simp add: fleet_assignment_def fleet_dispatch_def demo_dispatch_def build_assignment_def slice_engine_def demo_env_def
      demo_parse_def engine_start_def run_setup_def build_run_spec_def rate_limit_of_def rate_limit_action_try_from_def
      i32_max_def i32_as_u64_def per_worker_rps_def demo_events_def requests_done_def conn_result_default_def demo_eval)

theorem fleet_load_stays_below_target_witness:
  "\<exists>calls st' engines. dispatch_begin fleet_dispatch 7 0 fleet_coordinator = (Inr calls, st')
     \<and> fleet_running demo_env calls engines \<and> fleet_done engines = 1
     \<and> of_nat (fleet_done engines) \<le> (1 + 1 / 2 ^ 51) * 60000 + (2 :: rat)"
proof -
  obtain calls st' where calls: "dispatch_begin fleet_dispatch 7 0 fleet_coordinator = (Inr calls, st')"
    "map (snd \<circ> snd) calls = [fleet_assignment, fleet_assignment\<lparr>asg_worker_id := ''w2''\<rparr>]"
    using fleet_dispatched by (elim exE conjE) (rule that)
  obtain cf w0 w where e: "slice_engine demo_env fleet_assignment = Some (cf, w0)" "worker_runs cf demo_events w0 = Some w"
    "requests_done w = 1"
    using fleet_engine by (elim exE conjE) (rule that)
  have "w0 = world_init cf" by (rule slice_engineD(3) [OF e(1)])
  with e(2) have "reachable cf (0 + length demo_events) w" using runs_reachable [OF reachable.start] by blast
  with e(1) have "slice_running demo_env fleet_assignment (Some (cf, w))" by (auto simp: slice_running_def)
  moreover have "length calls = 2" using arg_cong [OF calls(2), of length] by simp
  then obtain a b where ab: "calls = [a, b]" by (auto simp: numeral_2_eq_2 length_Suc_conv)
  moreover have "slice_running demo_env x None" for x by (simp add: slice_running_def)
  ultimately have run: "fleet_running demo_env calls [Some (cf, w), None]" using calls(2) by (simp add: fleet_running_def)
  have d: "ds_target_rps fleet_dispatch = Fin 2000" "unat (ds_duration_s fleet_dispatch) = 30"
    "unat (ds_connections fleet_dispatch) = 1"
    by (simp_all add: fleet_dispatch_def demo_dispatch_def)
  have "sensible_share 2000 (length calls) 1" by (simp add: ab sensible_share_def share_def)
  with fleet_load_stays_below_target [OF calls(1) run d(1)] have
    "of_nat (fleet_done [Some (cf, w), None]) \<le> (1 + 1 / 2 ^ 51) * 60000 + (2 :: rat)" by (simp add: d ab)
  moreover have "fleet_done [Some (cf, w), None] = 1" by (simp add: fleet_done_def e(3))
  ultimately show ?thesis using calls(1) run by (intro exI conjI)
qed

end
