(* ===== verification/Engine_Entry.thy ===== *)
theory Engine_Entry
  imports Abort_Path Offered_Load
begin

text \<open>
  The entry points of the engine (\<open>run_with_ticks_cancel\<close>, \<open>run_with_ticks\<close> and \<open>run\<close> in \<open>worker.rs\<close>): what a caller
  gets is the initial state of a run, or the error of its set-up. Only a run that was given a token can be cancelled. A
  run without a channel for ticks has no emitter; it is the run whose emitter is never woken.
\<close>

definition run_with_ticks_cancel ::
  "'h hdr \<Rightarrow> (bytes \<Rightarrow> parse_status) \<Rightarrow> run_spec \<Rightarrow> bool \<Rightarrow> setup_error + 'h config \<times> 'h world" where
  "run_with_ticks_cancel L httparse spec cancel =
     (case run_setup spec of
        Inl e \<Rightarrow> Inl e
      | Inr plan \<Rightarrow>
          (let cf = \<lparr> cf_hdr = L, cf_httparse = httparse, cf_spec = spec, cf_plan = plan, cf_cancellable = cancel \<rparr>
           in Inr (cf, world_init cf)))"

definition run_with_ticks ::
  "'h hdr \<Rightarrow> (bytes \<Rightarrow> parse_status) \<Rightarrow> run_spec \<Rightarrow> setup_error + 'h config \<times> 'h world" where
  "run_with_ticks L httparse spec = run_with_ticks_cancel L httparse spec False"

definition run_engine ::
  "'h hdr \<Rightarrow> (bytes \<Rightarrow> parse_status) \<Rightarrow> run_spec \<Rightarrow> setup_error + 'h config \<times> 'h world" where
  "run_engine L httparse spec = run_with_ticks L httparse spec"

text \<open>The worker node starts its engines with a token.\<close>

lemma engine_start_is:
  "engine_start E spec = (case run_with_ticks_cancel (ce_hdr E) (ce_httparse E) spec True of Inl e \<Rightarrow> None | Inr r \<Rightarrow> Some r)"
  by (simp add: engine_start_def run_with_ticks_cancel_def Let_def split: sum.split)

lemma run_with_ticksD:
  assumes "run_with_ticks L httparse spec = Inr (cf, w)"
  shows "cf_spec cf = spec" "\<not> cf_cancellable cf" "w = world_init cf"
  using assms by (auto simp: run_with_ticks_def run_with_ticks_cancel_def Let_def split: sum.splits)

section \<open>No run is cut short\<close>

text \<open>An event whose clock readings are before the deadline.\<close>

fun before_deadline :: "'h config \<Rightarrow> worker_event \<Rightarrow> bool" where
  "before_deadline cf (Top i now) \<longleftrightarrow> now < deadline_us (duration_s (cf_spec cf))"
| "before_deadline cf (Fire i x) \<longleftrightarrow> ex_ready x < deadline_us (duration_s (cf_spec cf))"
| "before_deadline cf _ \<longleftrightarrow> True"

text \<open>A connection that is done has failed, and none is about to abort the run.\<close>

definition going_on :: "conn \<Rightarrow> bool" where
  "going_on c \<longleftrightarrow> failures (cn_res c) = (if cn_phase c = Done then 1 else 0) \<and> StoreAbort \<notin> set (cn_todo c)"

definition not_cut :: "'h world \<Rightarrow> bool" where
  "not_cut w \<longleftrightarrow> \<not> l_abort (sh_live (w_shared w)) \<and> (\<forall>c\<in>set (w_conns w). going_on c)"

lemma policy_no_abort: "rl_act rl \<noteq> Abort \<Longrightarrow> StoreAbort \<notin> set (fst (rate_limit_policy rl p))"
  by (auto simp: rate_limit_policy_def Let_def split: rl_action.split option.split)

lemma on_response_going_on:
  assumes "going_on c" "cn_phase c \<noteq> Done" "rl_act rl \<noteq> Abort"
  shows "going_on (on_response a rl i t u p buf c)"
  using assms policy_no_abort [OF assms(3), of p]
  by (auto simp: going_on_def failures_def conn_simps) (auto simp: on_response_def Let_def split: prod.splits if_splits)

lemma fire_going_on:
  assumes "going_on c" "cn_phase c = Firing" "rl_act rl \<noteq> Abort" "ex_ready x < deadline_us d"
  shows "going_on (fire httparse a rl d x c)"
  using assms on_response_going_on [OF assms(1) _ assms(3)]
  by (auto simp: fire_def conn_refused_def going_on_def failures_once conn_simps split: prod.split read_result.split)

lemma perform_no_abort: "perform L a x sh = (sh', follow) \<Longrightarrow> x \<noteq> StoreAbort \<Longrightarrow> l_abort (sh_live sh') = l_abort (sh_live sh)"
  by (cases x) (auto simp: Let_def split: if_splits)

lemma not_cut_on_conn:
  assumes "not_cut w" "on_conn w i en f = Some w'" "\<And>c. going_on c \<Longrightarrow> en c \<Longrightarrow> going_on (f c)"
  shows "not_cut w'"
  using assms(2)
  by (rule on_conn_cases) (use assms(1,3) set_update_subset_insert [of "w_conns w" i] in \<open>fastforce simp: not_cut_def\<close>)

lemma not_cut_exec:
  assumes "not_cut w" "worker_exec cf ev w = Some w'" "before_deadline cf ev"
    and "\<not> cf_cancellable cf" "rate_limit_action (cf_spec cf) \<noteq> Abort"
  shows "not_cut w'"
proof (cases ev)
  case (Refuse i)
  then show ?thesis
    using assms(2) by (auto intro: not_cut_on_conn [OF assms(1)] simp: going_on_def conn_refused_def failures_once)
next
  case (Start i)
  then show ?thesis
    using assms(2) by (auto intro: not_cut_on_conn [OF assms(1)] simp: going_on_def conn_started_def)
next
  case (Top i now)
  have "\<not> l_abort (sh_live (w_shared w))" using assms(1) by (simp add: not_cut_def)
  then show ?thesis
    using assms(2,3) Top
    by (auto intro!: not_cut_on_conn [OF assms(1)] simp: going_on_def loop_top_def split: prod.splits)
next
  case (Fire i x)
  then show ?thesis
    using assms(2,3,5) by (auto intro!: not_cut_on_conn [OF assms(1)] fire_going_on simp: rl_config_of_def)
next
  case (Act i)
  then have "act cf i w = Some w'" using assms(2) by simp
  then show ?thesis
  proof (rule act_cases)
    fix x as sh follow
    assume i: "i < length (w_conns w)" and todo: "cn_todo (w_conns w ! i) = x # as"
      and p: "perform (cf_hdr cf) (from_spec (cf_spec cf)) x (w_shared w) = (sh, follow)"
      and w': "w' = w\<lparr>w_shared := sh, w_conns := (w_conns w)[i := (w_conns w ! i)\<lparr>cn_todo := follow @ as\<rparr>]\<rparr>"
    have c: "going_on (w_conns w ! i)" using assms(1) i by (simp add: not_cut_def)
    then have "x \<noteq> StoreAbort" using todo by (auto simp: going_on_def)
    moreover have "StoreAbort \<notin> set follow" using perform_follow [OF p] by auto
    ultimately have "going_on ((w_conns w ! i)\<lparr>cn_todo := follow @ as\<rparr>)" "l_abort (sh_live sh) = l_abort (sh_live (w_shared w))"
      using c todo perform_no_abort [OF p] by (auto simp: going_on_def)
    then show ?thesis
      using assms(1) set_update_subset_insert [of "w_conns w" i] by (fastforce simp: not_cut_def w')
  qed
next
  case Cancel
  then show ?thesis using assms(2,4) by simp
next
  case (Emit alive)
  then show ?thesis using assms(1,2) by (auto simp: not_cut_def emit_def Let_def split: if_splits)
qed (use assms(1,2) in \<open>auto simp: not_cut_def split: if_splits list.splits\<close>)

lemma not_cut_runs:
  assumes "not_cut w" "worker_runs cf es w = Some w'" "\<forall>ev\<in>set es. before_deadline cf ev"
    and "\<not> cf_cancellable cf" "rate_limit_action (cf_spec cf) \<noteq> Abort"
  shows "not_cut w'"
  using assms(1-3)
proof (induction es arbitrary: w)
  case (Cons ev es)
  then obtain w1 where w1: "worker_exec cf ev w = Some w1" "worker_runs cf es w1 = Some w'" by (auto split: option.splits)
  have "not_cut w1" using not_cut_exec [OF Cons.prems(1) w1(1) _ assms(4,5)] Cons.prems(3) by simp
  from Cons.IH [OF this w1(2)] Cons.prems(3) show ?case by simp
qed simp

text \<open>C11. No run is cut short: a run without a cancellation token whose policy for a 429 is not to abort never raises its abort
  flag, whatever the order of its events, and up to the deadline the only connections that have stopped are those that
  were lost, each to exactly one connection error or timeout.\<close>

theorem runs_are_not_cut_short:
  assumes "run_with_ticks L httparse spec = Inr (cf, w0)" "rate_limit_action spec \<noteq> Abort"
    and "worker_runs cf es w0 = Some w" "\<forall>ev\<in>set es. before_deadline cf ev"
  shows "\<not> l_abort (sh_live (w_shared w))
    \<and> (\<forall>c\<in>set (w_conns w). cn_phase c = Done \<longrightarrow> unat (r_conn_errors (cn_res c)) + unat (r_timeouts (cn_res c)) = 1)"
proof -
  note run = run_with_ticksD [OF assms(1)]
  have "not_cut w0" by (auto simp: run(3) not_cut_def world_init_def live_default_def going_on_def conn_init_def failures_def conn_result_default_def)
  from not_cut_runs [OF this assms(3,4) run(2)] assms(2) have "not_cut w" by (simp add: run(1))
  then show ?thesis by (auto simp: not_cut_def going_on_def failures_def)
qed

text \<open>The only connection of a run is lost when its first request cannot be written.\<close>

definition broken_write :: "worker_event list" where
  "broken_write = [Start 0, Top 0 2, Fire 0 (demo_exchange\<lparr>ex_write_ok := False\<rparr>)]"

lemma broken_run:
  "\<exists>cf w0 w. run_with_ticks exact_hdr (one_head_parser ''HEAD'' (Some 200) []) (cf_spec load_config) = Inr (cf, w0)
     \<and> worker_runs cf broken_write w0 = Some w \<and> map cn_phase (w_conns w) = [Done]
     \<and> (\<forall>ev\<in>set broken_write. before_deadline cf ev)"
proof -
  let ?cf = "load_config\<lparr>cf_cancellable := False\<rparr>"
  have run: "run_with_ticks exact_hdr (one_head_parser ''HEAD'' (Some 200) []) (cf_spec load_config) = Inr (?cf, world_init ?cf)"
    by (simp add: run_with_ticks_def run_with_ticks_cancel_def load_setup) (simp add: load_config_def demo_config_def Let_def)
  obtain w where w: "worker_runs ?cf broken_write (world_init ?cf) = Some w" "map cn_phase (w_conns w) = [Done]"
  proof -
    have "\<exists>w. worker_runs ?cf broken_write (world_init ?cf) = Some w \<and> map cn_phase (w_conns w) = [Done]"
      by (simp add: load_config_def broken_write_def demo_eval conn_refused_def conn_result_default_def)
    then show thesis by (elim exE conjE) (rule that)
  qed
  have "\<forall>ev\<in>set broken_write. before_deadline ?cf ev"
    by (simp add: broken_write_def demo_exchange_def load_config_def demo_config_def example_spec_def deadline_us_def)
  with run w show ?thesis by (intro exI conjI)
qed

theorem runs_are_not_cut_short_witness:
  "\<exists>cf w0 w. run_with_ticks exact_hdr (one_head_parser ''HEAD'' (Some 200) []) (cf_spec load_config) = Inr (cf, w0)
     \<and> worker_runs cf broken_write w0 = Some w
     \<and> (\<forall>c\<in>set (w_conns w). cn_phase c = Done \<and> unat (r_conn_errors (cn_res c)) + unat (r_timeouts (cn_res c)) = 1)"
proof -
  obtain cf w0 w where run: "run_with_ticks exact_hdr (one_head_parser ''HEAD'' (Some 200) []) (cf_spec load_config) = Inr (cf, w0)"
    "worker_runs cf broken_write w0 = Some w" "map cn_phase (w_conns w) = [Done]"
    "\<forall>ev\<in>set broken_write. before_deadline cf ev"
    using broken_run by (elim exE conjE) (rule that)
  have "rate_limit_action (cf_spec load_config) \<noteq> Abort" by (simp add: load_config_def demo_config_def example_spec_def)
  note lost = runs_are_not_cut_short [OF run(1) this run(2,4)]
  have "\<forall>c\<in>set (w_conns w). cn_phase c = Done" using run(3) by (cases "w_conns w") auto
  with lost run(1,2) show ?thesis by (intro exI conjI) auto
qed

end
