(* ===== verification/Start_Barrier.thy ===== *)
theory Start_Barrier
  imports Worker_Progress
begin

text \<open>
  How a run starts: the connect phase, the start barrier and the broadcast of the start time
  (\<open>run_with_ticks_cancel\<close> and \<open>connection_task\<close> in \<open>engine/src/worker.rs\<close>), as a state machine around that of
  \<open>Worker_Run\<close>. Each of the \<open>connections + 1\<close> tasks calls \<open>barrier.wait()\<close> once and waits there for the others; the
  supervisor then sends the start time, for which every connected task waits. A task that failed to connect has to come to the
  barrier too. The states of this machine are among those of \<open>Worker_Run\<close>, so all properties of runs hold of them.

  What the network answers is an event of the environment: the outcome of a connect (which a timeout bounds in the code), the
  exchange of a request (whose read is bounded by a timeout), and a request write that does not return because the peer does
  not take the bytes: \<open>write_all\<close> is awaited without a timeout, so it can block for good.
\<close>

section \<open>State and events\<close>

text \<open>Where a connection task is before its loop; \<open>At_Barrier ok\<close>: it has called \<open>wait\<close>, after a connect that succeeded or not.\<close>

datatype gate = Connecting | At_Barrier bool | Awaiting_Start | Through

datatype supervisor = Spawned | Main_At_Barrier | Main_Passed | Started

record 'h gated =
  gt_gates :: "gate list"
  gt_main :: supervisor
  gt_arrived :: nat
  gt_blocked :: "nat set"
  gt_world :: "'h world"

definition gated_init :: "'h config \<Rightarrow> 'h gated" where
  "gated_init cf =
     \<lparr> gt_gates = replicate (unat (connections (cf_spec cf))) Connecting, gt_main = Spawned, gt_arrived = 0,
       gt_blocked = {}, gt_world = world_init cf \<rparr>"

datatype gate_event =
    Connected nat
  | Connect_Failed nat
  | Pass_Barrier nat
  | Observe_Start nat
  | Main_Wait
  | Main_Pass
  | Broadcast
  | Run worker_event
  | Write_Blocks nat
  | Write_Resumes nat

text \<open>\<open>Barrier::new(connections + 1)\<close>: a task that waits may pass when as many have called \<open>wait\<close>.\<close>

definition barrier_wait :: "'h gated \<Rightarrow> 'h gated" where
  "barrier_wait g = g\<lparr>gt_arrived := gt_arrived g + 1\<rparr>"

definition barrier_open :: "'h config \<Rightarrow> 'h gated \<Rightarrow> bool" where
  "barrier_open cf g \<longleftrightarrow> unat (connections (cf_spec cf)) + 1 \<le> gt_arrived g"

definition set_gate :: "nat \<Rightarrow> gate \<Rightarrow> 'h gated \<Rightarrow> 'h gated" where
  "set_gate i s g = g\<lparr>gt_gates := (gt_gates g)[i := s]\<rparr>"

text \<open>The two arms of the connect. The failed one counts its error (in its own result, which nobody reads before it returns; here
  when it returns) and still signals.\<close>

definition connect_succeeds :: "nat \<Rightarrow> 'h gated \<Rightarrow> 'h gated" where
  "connect_succeeds i g = barrier_wait (set_gate i (At_Barrier True) g)"

definition connect_fails :: "nat \<Rightarrow> 'h gated \<Rightarrow> 'h gated" where
  "connect_fails i g = barrier_wait (set_gate i (At_Barrier False) g)"

definition in_world :: "'h gated \<Rightarrow> 'h world option \<Rightarrow> 'h gated option" where
  "in_world g = map_option (\<lambda>w. g\<lparr>gt_world := w\<rparr>)"

definition gate_is :: "'h gated \<Rightarrow> nat \<Rightarrow> gate \<Rightarrow> bool" where
  "gate_is g i s \<longleftrightarrow> i < length (gt_gates g) \<and> gt_gates g ! i = s"

text \<open>Which events of \<open>Worker_Run\<close> can happen: those of the loops, whose connections are past the gate by their phase; the
  emitter is spawned after the broadcast; a cancellation can come at any time.\<close>

fun permitted :: "'h gated \<Rightarrow> worker_event \<Rightarrow> bool" where
  "permitted g (Refuse i) = False"
| "permitted g (Start i) = False"
| "permitted g (Top i now) = True"
| "permitted g (Fire i x) = (i \<notin> gt_blocked g)"
| "permitted g (Act i) = True"
| "permitted g Cancel = True"
| "permitted g Wake = (gt_main g = Started)"
| "permitted g Load = (gt_main g = Started)"
| "permitted g (Emit alive) = (gt_main g = Started)"

fun gated_exec :: "'h config \<Rightarrow> gate_event \<Rightarrow> 'h gated \<Rightarrow> 'h gated option" where
  "gated_exec cf (Connected i) g = (if gate_is g i Connecting then Some (connect_succeeds i g) else None)"
| "gated_exec cf (Connect_Failed i) g = (if gate_is g i Connecting then Some (connect_fails i g) else None)"
| "gated_exec cf (Pass_Barrier i) g =
     (if \<not> barrier_open cf g then None
      else if gate_is g i (At_Barrier True) then Some (set_gate i Awaiting_Start g)
      else if gate_is g i (At_Barrier False)
      then in_world (set_gate i Through g) (worker_exec cf (Refuse i) (gt_world g))
      else None)"
| "gated_exec cf (Observe_Start i) g =
     (if gate_is g i Awaiting_Start \<and> gt_main g = Started
      then in_world (set_gate i Through g) (worker_exec cf (Start i) (gt_world g)) else None)"
| "gated_exec cf Main_Wait g =
     (if gt_main g = Spawned then Some (barrier_wait (g\<lparr>gt_main := Main_At_Barrier\<rparr>)) else None)"
| "gated_exec cf Main_Pass g =
     (if gt_main g = Main_At_Barrier \<and> barrier_open cf g then Some (g\<lparr>gt_main := Main_Passed\<rparr>) else None)"
| "gated_exec cf Broadcast g =
     (if gt_main g = Main_Passed then Some (g\<lparr>gt_main := Started\<rparr>) else None)"
| "gated_exec cf (Run ev) g =
     (if permitted g ev then in_world g (worker_exec cf ev (gt_world g)) else None)"
| "gated_exec cf (Write_Blocks i) g =
     (if i < length (w_conns (gt_world g)) \<and> cn_phase (w_conns (gt_world g) ! i) = Firing
      then Some (g\<lparr>gt_blocked := insert i (gt_blocked g)\<rparr>) else None)"
| "gated_exec cf (Write_Resumes i) g =
     (if i \<in> gt_blocked g then Some (g\<lparr>gt_blocked := gt_blocked g - {i}\<rparr>) else None)"

inductive gated_reachable :: "'h config \<Rightarrow> 'h gated \<Rightarrow> bool" for cf where
  start: "gated_reachable cf (gated_init cf)"
| event: "gated_reachable cf g \<Longrightarrow> gated_exec cf ev g = Some g' \<Longrightarrow> gated_reachable cf g'"

fun gated_runs :: "'h config \<Rightarrow> gate_event list \<Rightarrow> 'h gated \<Rightarrow> 'h gated option" where
  "gated_runs cf [] g = Some g"
| "gated_runs cf (e # es) g = (case gated_exec cf e g of None \<Rightarrow> None | Some g' \<Rightarrow> gated_runs cf es g')"

text \<open>What the tasks of the run do themselves, the emitter apart: it does not hold up a run. A cancellation and a peer that stops
  or resumes taking bytes are not theirs.\<close>

fun task_event :: "gate_event \<Rightarrow> bool" where
  "task_event (Run ev) = conn_event ev"
| "task_event (Write_Blocks i) = False"
| "task_event (Write_Resumes i) = False"
| "task_event _ = True"

text \<open>The supervisor has started the run, and each connection has returned or is stuck in a write that its peer does not take.\<close>

definition at_rest :: "'h gated \<Rightarrow> bool" where
  "at_rest g \<longleftrightarrow> gt_main g = Started
     \<and> (\<forall>i < length (w_conns (gt_world g)).
          cn_phase (w_conns (gt_world g) ! i) = Done \<and> cn_todo (w_conns (gt_world g) ! i) = [] \<or> i \<in> gt_blocked g)"

lemma at_rest_joined: "at_rest g \<Longrightarrow> gt_blocked g = {} \<Longrightarrow> all_joined (gt_world g)"
  by (auto simp: at_rest_def all_joined_def in_set_conv_nth)

section \<open>The runs of the engine are among those of Worker_Run\<close>

lemma in_world_cases:
  assumes "in_world g r = Some g'"
  obtains w where "r = Some w" "g' = g\<lparr>gt_world := w\<rparr>"
  using assms by (auto simp: in_world_def)

lemma gated_world:
  assumes "gated_exec cf ev g = Some g'"
  shows "gt_world g' = gt_world g \<or> (\<exists>e. worker_exec cf e (gt_world g) = Some (gt_world g'))"
proof (cases ev)
  case (Pass_Barrier i)
  with assms show ?thesis
    by (auto simp: set_gate_def simp del: worker_exec.simps split: if_splits elim!: in_world_cases)
next
  case (Observe_Start i)
  with assms show ?thesis
    by (auto simp: set_gate_def simp del: worker_exec.simps split: if_splits elim!: in_world_cases)
next
  case (Run e)
  with assms show ?thesis by (auto split: if_splits elim!: in_world_cases)
qed (use assms in \<open>auto simp: connect_succeeds_def connect_fails_def barrier_wait_def set_gate_def split: if_splits\<close>)

lemma gated_is_reachable: "gated_reachable cf g \<Longrightarrow> \<exists>n. reachable cf n (gt_world g)"
proof (induction rule: gated_reachable.induct)
  case start
  show ?case using reachable.start by (auto simp: gated_init_def)
next
  case (event g ev g')
  then obtain n where n: "reachable cf n (gt_world g)" by blast
  from gated_world [OF event.hyps(2)] show ?case
  proof
    assume "gt_world g' = gt_world g"
    with n show ?thesis by (intro exI [of _ n]) simp
  next
    assume "\<exists>e. worker_exec cf e (gt_world g) = Some (gt_world g')"
    then show ?thesis using reachable.event [OF n] by blast
  qed
qed

section \<open>What every state keeps\<close>

definition arrived_gates :: "gate list \<Rightarrow> nat" where
  "arrived_gates gs = sum_list (map (\<lambda>s. if s = Connecting then 0 else 1) gs)"

lemma arrived_update:
  "i < length gs \<Longrightarrow> arrived_gates (gs[i := s]) + (if gs ! i = Connecting then 0 else 1)
     = arrived_gates gs + (if s = Connecting then 0 else 1)"
  unfolding arrived_gates_def by (rule total_over_update)

lemma all_arrived: "Connecting \<notin> set gs \<Longrightarrow> arrived_gates gs = length gs"
  by (induction gs) (auto simp: arrived_gates_def)

text \<open>A connection is in its loop, or past it, exactly when it is through the gate; as many tasks have called \<open>wait\<close> as are
  counted; a blocked write is that of a connection that is sending.\<close>

definition gated_inv :: "'h config \<Rightarrow> 'h gated \<Rightarrow> bool" where
  "gated_inv cf g \<longleftrightarrow>
     length (gt_gates g) = unat (connections (cf_spec cf))
     \<and> length (w_conns (gt_world g)) = unat (connections (cf_spec cf))
     \<and> (\<forall>i < length (gt_gates g). gt_gates g ! i = Through \<longleftrightarrow> cn_phase (w_conns (gt_world g) ! i) \<noteq> Prewarm)
     \<and> gt_arrived g = arrived_gates (gt_gates g) + (if gt_main g = Spawned then 0 else 1)
     \<and> (\<forall>i \<in> gt_blocked g. i < length (w_conns (gt_world g)) \<and> cn_phase (w_conns (gt_world g) ! i) = Firing)"

fun leaves_gate :: "nat \<Rightarrow> worker_event \<Rightarrow> bool" where
  "leaves_gate i (Refuse j) = (j = i)"
| "leaves_gate i (Start j) = (j = i)"
| "leaves_gate i _ = False"

lemma exec_phases:
  assumes "worker_exec cf ev w = Some w'" "i < length (w_conns w)"
  shows "length (w_conns w') = length (w_conns w)
    \<and> (cn_phase (w_conns w' ! i) \<noteq> Prewarm \<longleftrightarrow> leaves_gate i ev \<or> cn_phase (w_conns w ! i) \<noteq> Prewarm)
    \<and> (cn_phase (w_conns w ! i) = Firing \<longrightarrow> \<not> fires i ev \<longrightarrow> cn_phase (w_conns w' ! i) = Firing)"
proof (cases ev)
  case (Fire j x)
  with assms show ?thesis
    using fire_phase [of "cf_httparse cf" "from_spec (cf_spec cf)" "rl_config_of (cf_spec cf)" "duration_s (cf_spec cf)" x "w_conns w ! j"]
    by (auto simp: on_conn_def nth_list_update split: if_splits)
next
  case (Act j)
  with assms(1) have "act cf j w = Some w'" by simp
  then show ?thesis by (rule act_cases) (auto simp: Act nth_list_update)
qed (use assms in \<open>auto simp: on_conn_def emit_def Let_def nth_list_update conn_refused_def conn_started_def loop_top_def
      split: if_splits list.splits prod.splits\<close>)

lemma exec_conn_count: "worker_exec cf ev w = Some w' \<Longrightarrow> length (w_conns w') = length (w_conns w)"
proof (cases ev)
  case (Act j)
  assume "worker_exec cf ev w = Some w'"
  with Act have "act cf j w = Some w'" by simp
  then show ?thesis by (rule act_cases) simp
qed (auto simp: on_conn_def emit_def Let_def split: if_splits list.splits)

lemma gated_invD:
  assumes "gated_inv cf g"
  shows "length (gt_gates g) = length (w_conns (gt_world g))"
    and "length (w_conns (gt_world g)) = unat (connections (cf_spec cf))"
    and "i < length (w_conns (gt_world g)) \<Longrightarrow> gt_gates g ! i = Through \<longleftrightarrow> cn_phase (w_conns (gt_world g) ! i) \<noteq> Prewarm"
    and "gt_arrived g = arrived_gates (gt_gates g) + (if gt_main g = Spawned then 0 else 1)"
    and "i \<in> gt_blocked g \<Longrightarrow> i < length (w_conns (gt_world g)) \<and> cn_phase (w_conns (gt_world g) ! i) = Firing"
  using assms unfolding gated_inv_def by (elim conjE; force)+

lemma permitted_keeps:
  assumes "permitted g ev" "worker_exec cf ev (gt_world g) = Some w" "gated_inv cf g"
  shows "gated_inv cf (g\<lparr>gt_world := w\<rparr>)"
proof -
  have stay: "\<not> leaves_gate i ev" "i \<in> gt_blocked g \<Longrightarrow> \<not> fires i ev" for i
    using assms(1) by (cases ev; force)+
  note inv = gated_invD [OF assms(3)] and n = exec_conn_count [OF assms(2)]
  have "gt_gates g ! i = Through \<longleftrightarrow> cn_phase (w_conns w ! i) \<noteq> Prewarm" if "i < length (gt_gates g)" for i
    using exec_phases [OF assms(2), of i] stay(1) [of i] inv(1,3) that by presburger
  moreover have "i < length (w_conns w) \<and> cn_phase (w_conns w ! i) = Firing" if "i \<in> gt_blocked g" for i
    using exec_phases [OF assms(2), of i] stay(2) [OF that] inv(5) [OF that] by presburger
  ultimately show ?thesis using n inv(1,2,4) by (simp add: gated_inv_def)
qed

text \<open>A task that leaves the gate with \<open>Refuse\<close> or \<open>Start\<close>.\<close>

lemma leaving_keeps:
  assumes "worker_exec cf ev (gt_world g) = Some w" "gated_inv cf g" "ev = Refuse i \<or> ev = Start i"
    and "gt_gates g ! i \<noteq> Connecting" "i < length (gt_gates g)"
  shows "gated_inv cf ((set_gate i Through g)\<lparr>gt_world := w\<rparr>)"
proof -
  have lv: "leaves_gate j ev \<longleftrightarrow> j = i" "\<not> fires j ev" for j using assms(3) by auto
  note inv = gated_invD [OF assms(2)] and n = exec_conn_count [OF assms(1)]
  have "(gt_gates g)[i := Through] ! j = Through \<longleftrightarrow> cn_phase (w_conns w ! j) \<noteq> Prewarm"
    if "j < length (gt_gates g)" for j
    using exec_phases [OF assms(1), of j] lv [of j] inv(1,3) that assms(5) by (cases "j = i") auto
  moreover have "j < length (w_conns w) \<and> cn_phase (w_conns w ! j) = Firing" if "j \<in> gt_blocked g" for j
    using exec_phases [OF assms(1), of j] lv [of j] inv(5) [OF that] by presburger
  moreover have "arrived_gates ((gt_gates g)[i := Through]) = arrived_gates (gt_gates g)"
    using arrived_update [OF assms(5), of Through] assms(4) by simp
  ultimately show ?thesis using n inv(1,2,4) by (simp add: gated_inv_def set_gate_def)
qed

text \<open>A task that moves on before the gate.\<close>

lemma waiting_keeps:
  assumes "gated_inv cf g" "gate_is g i s" "s \<noteq> Through" "s' \<noteq> Through" "s' \<noteq> Connecting"
  shows "gated_inv cf ((set_gate i s' g)\<lparr>gt_arrived := gt_arrived g + (if s = Connecting then 1 else 0)\<rparr>)"
  using assms arrived_update [of i "gt_gates g" s']
  by (auto simp: gated_inv_def set_gate_def gate_is_def nth_list_update)

lemma gated_keeps:
  assumes "gated_inv cf g" "gated_exec cf ev g = Some g'"
  shows "gated_inv cf g'"
proof (cases ev)
  case (Connected i)
  with assms(2) have "gate_is g i Connecting" "g' = connect_succeeds i g" by (auto split: if_splits)
  with waiting_keeps [OF assms(1) this(1), of "At_Barrier True"] show ?thesis
    by (simp add: connect_succeeds_def barrier_wait_def set_gate_def)
next
  case (Connect_Failed i)
  with assms(2) have "gate_is g i Connecting" "g' = connect_fails i g" by (auto split: if_splits)
  with waiting_keeps [OF assms(1) this(1), of "At_Barrier False"] show ?thesis
    by (simp add: connect_fails_def barrier_wait_def set_gate_def)
next
  case (Pass_Barrier i)
  show ?thesis
  proof (cases "gate_is g i (At_Barrier True)")
    case True
    with assms(2) Pass_Barrier have "g' = set_gate i Awaiting_Start g" by (auto split: if_splits)
    with waiting_keeps [OF assms(1) True, of Awaiting_Start] show ?thesis by (simp add: set_gate_def)
  next
    case False
    with assms(2) Pass_Barrier obtain w where "gate_is g i (At_Barrier False)"
      "worker_exec cf (Refuse i) (gt_world g) = Some w" "g' = (set_gate i Through g)\<lparr>gt_world := w\<rparr>"
      by (auto simp: set_gate_def simp del: worker_exec.simps split: if_splits elim!: in_world_cases)
    with leaving_keeps [OF this(2) assms(1), of i] show ?thesis by (simp add: gate_is_def)
  qed
next
  case (Observe_Start i)
  with assms(2) obtain w where "gate_is g i Awaiting_Start"
    "worker_exec cf (Start i) (gt_world g) = Some w" "g' = (set_gate i Through g)\<lparr>gt_world := w\<rparr>"
    by (auto simp: set_gate_def simp del: worker_exec.simps split: if_splits elim!: in_world_cases)
  with leaving_keeps [OF this(2) assms(1), of i] show ?thesis by (simp add: gate_is_def)
next
  case (Run e)
  with assms show ?thesis by (auto split: if_splits elim!: in_world_cases intro: permitted_keeps)
qed (use assms in \<open>auto simp: gated_inv_def barrier_wait_def split: if_splits\<close>)

lemma gated_invariant: "gated_reachable cf g \<Longrightarrow> gated_inv cf g"
proof (induction rule: gated_reachable.induct)
  case start
  show ?case
    by (simp add: gated_inv_def gated_init_def world_init_def conn_init_def arrived_gates_def)
qed (rule gated_keeps)

section \<open>Progress\<close>

lemma prewarm_events:
  assumes "i < length (w_conns w)" "cn_phase (w_conns w ! i) = Prewarm"
  shows "\<exists>w'. worker_exec cf (Refuse i) w = Some w'" "\<exists>w'. worker_exec cf (Start i) w = Some w'"
  using assms by (simp_all add: on_conn_def)

text \<open>An event that some task can do now, as if the clock had passed the deadline.\<close>

fun gate_past_deadline :: "'h config \<Rightarrow> gate_event \<Rightarrow> bool" where
  "gate_past_deadline cf (Run ev) = past_deadline cf ev"
| "gate_past_deadline cf _ = True"

definition can_move :: "'h config \<Rightarrow> 'h gated \<Rightarrow> bool" where
  "can_move cf g \<longleftrightarrow> (\<exists>ev g'. task_event ev \<and> gate_past_deadline cf ev \<and> gated_exec cf ev g = Some g')"

lemma can_moveI:
  "task_event ev \<Longrightarrow> gate_past_deadline cf ev \<Longrightarrow> gated_exec cf ev g = Some g' \<Longrightarrow> can_move cf g"
  unfolding can_move_def by blast

lemma unarrived_can_move:
  assumes "gated_inv cf g" "\<not> barrier_open cf g"
  shows "can_move cf g"
proof (cases "gt_main g = Spawned")
  case True
  then show ?thesis by (intro can_moveI [of Main_Wait]) simp_all
next
  case False
  with gated_invD [OF assms(1)] assms(2) have "arrived_gates (gt_gates g) \<noteq> length (gt_gates g)"
    by (simp add: barrier_open_def)
  then obtain i where "i < length (gt_gates g)" "gt_gates g ! i = Connecting"
    using all_arrived by (auto simp: in_set_conv_nth)
  then show ?thesis by (intro can_moveI [of "Connect_Failed i"]) (simp_all add: gate_is_def)
qed

lemma through_can_move:
  assumes "i < length (w_conns (gt_world g))" "cn_phase (w_conns (gt_world g) ! i) \<noteq> Prewarm"
    and "\<not> (cn_phase (w_conns (gt_world g) ! i) = Done \<and> cn_todo (w_conns (gt_world g) ! i) = [])" "i \<notin> gt_blocked g"
  shows "can_move cf g"
proof -
  let ?ev = "next_event cf i (w_conns (gt_world g) ! i)"
  obtain w' where "worker_exec cf ?ev (gt_world g) = Some w'" using next_event_enabled [OF assms(1,3)] by blast
  moreover have "permitted g ?ev" "conn_event ?ev" "past_deadline cf ?ev"
    using assms(2,4) by (simp_all add: next_event_def split: phase.split)
  ultimately show ?thesis by (intro can_moveI [of "Run ?ev"]) (simp_all add: in_world_def)
qed

lemma open_can_move:
  assumes "gated_inv cf g" "barrier_open cf g" "\<not> at_rest g"
  shows "can_move cf g"
proof (cases "gt_main g")
  case Started
  then obtain i where i: "i < length (w_conns (gt_world g))" "i \<notin> gt_blocked g"
    "\<not> (cn_phase (w_conns (gt_world g) ! i) = Done \<and> cn_todo (w_conns (gt_world g) ! i) = [])"
    using assms(3) by (auto simp: at_rest_def)
  note inv = gated_invD [OF assms(1)]
  show ?thesis
  proof (cases "cn_phase (w_conns (gt_world g) ! i) = Prewarm")
    case False
    then show ?thesis using through_can_move i by blast
  next
    case True
    then have gate: "gt_gates g ! i \<noteq> Through" "i < length (gt_gates g)" using inv(1,3) i(1) by simp_all
    obtain w1 w2 where w: "worker_exec cf (Refuse i) (gt_world g) = Some w1" "worker_exec cf (Start i) (gt_world g) = Some w2"
      using prewarm_events [OF i(1) True] by blast
    show ?thesis
    proof (cases "gt_gates g ! i")
      case Connecting
      with gate(2) show ?thesis by (intro can_moveI [of "Connect_Failed i"]) (simp_all add: gate_is_def)
    next
      case (At_Barrier ok)
      with gate(2) assms(2) w(1) show ?thesis
        by (cases ok; intro can_moveI [of "Pass_Barrier i"])
          (simp_all add: gate_is_def in_world_def del: worker_exec.simps split: if_split)
    next
      case Awaiting_Start
      with gate(2) Started w(2) show ?thesis
        by (intro can_moveI [of "Observe_Start i"]) (simp_all add: gate_is_def in_world_def del: worker_exec.simps)
    qed (use gate in simp)
  qed
next
  case Spawned
  then show ?thesis by (intro can_moveI [of Main_Wait]) simp_all
next
  case Main_At_Barrier
  with assms(2) show ?thesis by (intro can_moveI [of Main_Pass]) simp_all
next
  case Main_Passed
  then show ?thesis by (intro can_moveI [of Broadcast]) simp_all
qed

lemma rest_is_final:
  assumes "gated_inv cf g" "\<forall>c\<in>set (w_conns (gt_world g)). conn_typed c" "at_rest g" "task_event ev"
  shows "gated_exec cf ev g = None"
proof -
  note inv = gated_invD [OF assms(1)]
  have through: "gt_gates g ! i = Through" if "i < length (gt_gates g)" for i
    using assms(3) that inv(1,3,5) by (fastforce simp: at_rest_def)
  have idle: "cn_todo (w_conns (gt_world g) ! i) = []
      \<and> (cn_phase (w_conns (gt_world g) ! i) = Done \<or> cn_phase (w_conns (gt_world g) ! i) = Firing \<and> i \<in> gt_blocked g)"
    if "i < length (w_conns (gt_world g))" for i
  proof -
    have "conn_typed (w_conns (gt_world g) ! i)" using assms(2) that by simp
    then show ?thesis using assms(3) that inv(5) [of i] by (auto simp: at_rest_def conn_typed_def)
  qed
  show ?thesis
  proof (cases ev)
    case (Run e)
    have "worker_exec cf e (gt_world g) = None \<or> \<not> permitted g e" if "conn_event e"
      using that
    proof (cases e)
      case (Top i now)
      then show ?thesis using idle [of i] by (auto simp: on_conn_def)
    next
      case (Fire i x)
      then show ?thesis using idle [of i] by (auto simp: on_conn_def)
    next
      case (Act i)
      then show ?thesis using idle [of i] by (simp add: act_def)
    qed simp_all
    with assms(4) Run show ?thesis by (auto simp: in_world_def)
  qed (use assms(3,4) through in \<open>auto simp: gate_is_def at_rest_def\<close>)
qed

section \<open>What is left to do\<close>

fun gate_steps :: "gate \<Rightarrow> nat" where
  "gate_steps Connecting = 3"
| "gate_steps (At_Barrier ok) = 2"
| "gate_steps Awaiting_Start = 1"
| "gate_steps Through = 0"

fun main_steps :: "supervisor \<Rightarrow> nat" where
  "main_steps Spawned = 3"
| "main_steps Main_At_Barrier = 2"
| "main_steps Main_Passed = 1"
| "main_steps Started = 0"

definition steps_left :: "'h gated \<Rightarrow> nat" where
  "steps_left g = sum_list (map gate_steps (gt_gates g)) + main_steps (gt_main g) + work_left (gt_world g)"

lemma gate_steps_le: "gate_steps s \<le> 3"
  by (cases s) simp_all

lemma steps_bound:
  assumes "gated_inv cf g" "\<forall>c\<in>set (w_conns (gt_world g)). conn_typed c"
  shows "steps_left g \<le> 14 * unat (connections (cf_spec cf)) + 3"
proof -
  have "sum_list (map gate_steps (gt_gates g)) \<le> sum_list (map (\<lambda>s. 3) (gt_gates g))"
    by (intro sum_list_mono) (rule gate_steps_le)
  moreover have "main_steps (gt_main g) \<le> 3" by (cases "gt_main g") simp_all
  ultimately show ?thesis
    using work_bound [OF assms(2)] gated_invD(1,2) [OF assms(1)] by (simp add: steps_left_def sum_list_triv)
qed

lemma gate_step_less:
  assumes "gate_is g i s" "gate_steps s' < gate_steps s" "work_left w \<le> work_left (gt_world g)"
  shows "steps_left ((set_gate i s' g)\<lparr>gt_world := w\<rparr>) < steps_left g"
  using total_over_update [of i "gt_gates g" gate_steps s'] assms by (simp add: steps_left_def set_gate_def gate_is_def)

lemma task_step_less:
  assumes "gated_exec cf ev g = Some g'" "task_event ev" "gate_past_deadline cf ev"
  shows "steps_left g' < steps_left g"
proof -
  have world: "work_left w < work_left (gt_world g)"
    if "worker_exec cf e (gt_world g) = Some w" "conn_event e" "past_deadline cf e" for e w
    using work_exec [OF _ that(1)] that(2,3) by simp
  have pre: "gate_is g i s \<Longrightarrow> gate_steps s' < gate_steps s \<Longrightarrow> steps_left (barrier_wait (set_gate i s' g)) < steps_left g"
    "gate_is g i s \<Longrightarrow> gate_steps s' < gate_steps s \<Longrightarrow> steps_left (set_gate i s' g) < steps_left g" for i s s'
    using gate_step_less [of g i s s' "gt_world g"] by (simp_all add: steps_left_def barrier_wait_def set_gate_def)
  show ?thesis
  proof (cases ev)
    case (Pass_Barrier i)
    show ?thesis
    proof (cases "gate_is g i (At_Barrier True)")
      case True
      with assms(1) Pass_Barrier pre(2) [OF True, of Awaiting_Start] show ?thesis by (auto split: if_splits)
    next
      case False
      with assms(1) Pass_Barrier obtain w where "gate_is g i (At_Barrier False)"
        "worker_exec cf (Refuse i) (gt_world g) = Some w" "g' = (set_gate i Through g)\<lparr>gt_world := w\<rparr>"
        by (auto simp: set_gate_def simp del: worker_exec.simps split: if_splits elim!: in_world_cases)
      with gate_step_less [OF this(1), of Through w] world [of "Refuse i" w] show ?thesis by simp
    qed
  next
    case (Observe_Start i)
    with assms(1) obtain w where "gate_is g i Awaiting_Start"
      "worker_exec cf (Start i) (gt_world g) = Some w" "g' = (set_gate i Through g)\<lparr>gt_world := w\<rparr>"
      by (auto simp: set_gate_def simp del: worker_exec.simps split: if_splits elim!: in_world_cases)
    with gate_step_less [OF this(1), of Through w] world [of "Start i" w] show ?thesis by simp
  next
    case (Run e)
    with assms world show ?thesis by (auto simp: steps_left_def split: if_splits elim!: in_world_cases)
  next
    case (Connected i)
    with assms(1) pre(1) [of i Connecting "At_Barrier True"] show ?thesis by (auto simp: connect_succeeds_def split: if_splits)
  next
    case (Connect_Failed i)
    with assms(1) pre(1) [of i Connecting "At_Barrier False"] show ?thesis by (auto simp: connect_fails_def split: if_splits)
  qed (use assms in \<open>auto simp: steps_left_def barrier_wait_def split: if_splits\<close>)
qed

text \<open>From any state the run can go on until it is at rest, in no more than \<open>steps_left\<close> steps of its tasks.\<close>

lemma can_come_to_rest:
  assumes "gated_reachable cf g"
  shows "\<exists>es g'. gated_runs cf es g = Some g' \<and> at_rest g' \<and> (\<forall>ev\<in>set es. task_event ev) \<and> length es \<le> steps_left g"
  using assms
proof (induction "steps_left g" arbitrary: g rule: less_induct)
  case less
  show ?case
  proof (cases "at_rest g")
    case True
    then show ?thesis by (intro exI [of _ "[]"]) simp
  next
    case False
    have "can_move cf g"
      using unarrived_can_move open_can_move gated_invariant [OF less.prems] False by blast
    then obtain ev g1 where ev: "task_event ev" "gate_past_deadline cf ev" "gated_exec cf ev g = Some g1"
      unfolding can_move_def by blast
    note smaller = task_step_less [OF ev(3,1,2)]
    from less.hyps [OF smaller gated_reachable.event [OF less.prems ev(3)]] obtain es g'
      where "gated_runs cf es g1 = Some g'" "at_rest g'" "\<forall>ev\<in>set es. task_event ev" "length es \<le> steps_left g1"
      by blast
    with ev smaller show ?thesis by (intro exI [of _ "ev # es"]) auto
  qed
qed

section \<open>Property\<close>

text \<open>C10. A run never gets stuck by itself, from the spawning of its tasks on. In every reachable state the connections are
  well typed: operations to do only at the top of the loop, at most nine, and a buffer within its capacity. Some task - a
  connection that connects, waits at the barrier, waits for the start or loops, or the supervisor - can take a step unless the run
  is at rest: the supervisor has started it and every connection has returned or is blocked in a write that its peer does not
  take (\<open>write_all\<close> has no timeout; connects and reads have one). At rest no task can take a step. And from every reachable state
  the tasks can bring the run to rest in at most fourteen steps per connection and three more. In particular a connection that
  could not connect never leaves the others waiting at the barrier.\<close>

theorem run_is_never_stuck:
  assumes "gated_reachable cf g"
  shows "(\<forall>c\<in>set (w_conns (gt_world g)). conn_typed c)
    \<and> (\<not> at_rest g \<longleftrightarrow> (\<exists>ev g'. task_event ev \<and> gated_exec cf ev g = Some g'))
    \<and> (\<exists>es g'. gated_runs cf es g = Some g' \<and> at_rest g' \<and> (\<forall>ev\<in>set es. task_event ev)
         \<and> length es \<le> 14 * unat (connections (cf_spec cf)) + 3)"
proof -
  note inv = gated_invariant [OF assms]
  have typed: "\<forall>c\<in>set (w_conns (gt_world g)). conn_typed c"
    using gated_is_reachable [OF assms] conns_typed by blast
  have "can_move cf g" if "\<not> at_rest g" using unarrived_can_move open_can_move inv that by blast
  then have "\<not> at_rest g \<longleftrightarrow> (\<exists>ev g'. task_event ev \<and> gated_exec cf ev g = Some g')"
    using rest_is_final [OF inv typed] unfolding can_move_def by fastforce
  with typed can_come_to_rest [OF assms] steps_bound [OF inv typed] show ?thesis by fastforce
qed

text \<open>A run whose only connection cannot connect: it still reaches the start and ends.\<close>

theorem run_is_never_stuck_witness:
  "\<exists>g. gated_runs demo_config [Connect_Failed 0, Main_Wait] (gated_init demo_config) = Some g
     \<and> (\<exists>ev g'. task_event ev \<and> gated_exec demo_config ev g = Some g')
     \<and> (\<exists>es g'. gated_runs demo_config es g = Some g' \<and> at_rest g' \<and> length es \<le> 17)"
proof -
  have one: "unat (connections (cf_spec demo_config)) = 1" by (simp add: demo_config_def example_spec_def)
  obtain g1 where g1: "gated_exec demo_config (Connect_Failed 0) (gated_init demo_config) = Some g1"
    "gt_main g1 = Spawned"
    by (simp add: gated_init_def gate_is_def one connect_fails_def barrier_wait_def set_gate_def)
  obtain g where g: "gated_exec demo_config Main_Wait g1 = Some g" "gt_main g = Main_At_Barrier"
    using g1(2) by (simp add: barrier_wait_def)
  have "gated_reachable demo_config g"
    by (rule gated_reachable.event [OF gated_reachable.event [OF gated_reachable.start g1(1)] g(1)])
  from run_is_never_stuck [OF this] g(2) have
    "\<exists>ev g'. task_event ev \<and> gated_exec demo_config ev g = Some g'"
    "\<exists>es g'. gated_runs demo_config es g = Some g' \<and> at_rest g' \<and> length es \<le> 17"
    by (auto simp: one at_rest_def)
  then show ?thesis using g1(1) g(1) by (intro exI [of _ g]) (simp only: gated_runs.simps option.case)
qed

end
