(* ===== verification/Mock.thy ===== *)
theory Mock
  imports Http_Reader
begin

text \<open>
  The mock target, \<open>mock/src/lib.rs\<close>: a service whose failures depend on the load it measures. The rolling meter, the pure
  decision and the handler. Each call of the meter is one step here; \<open>Mock_Meter\<close> has its atomic operations and the races
  of concurrent calls. Times are milliseconds since the start of the instance.
\<close>

section \<open>The rolling meter\<close>

definition SLOT_MS :: u64 where "SLOT_MS = 100"
definition SLOTS :: u64 where "SLOTS = 10"

text \<open>A bucket is its slot and its count.\<close>

type_synonym rps_meter = "(u64 \<times> u64) list"

definition rps_meter_new :: rps_meter where
  "rps_meter_new = replicate (unat SLOTS) (u64_max, 0)"

definition meter_record :: "u64 \<Rightarrow> rps_meter \<Rightarrow> rps_meter" where
  "meter_record now m =
     (let slot = now div SLOT_MS; i = unat (slot mod SLOTS) in
      case m ! i of (cur, n) \<Rightarrow> if cur = slot then m[i := (cur, n + 1)] else m[i := (slot, 1)])"

definition current_rps :: "u64 \<Rightarrow> rps_meter \<Rightarrow> f64" where
  "current_rps now m =
     (let slot = now div SLOT_MS; oldest = saturating_sub slot (SLOTS - 1) in
      of_u64 (sum_list (map (\<lambda>(s, n). if s \<noteq> u64_max \<and> oldest \<le> s \<and> s \<le> slot then n else 0) m)))"

section \<open>Modes and the decision\<close>

datatype mode = Healthy | Fast500 | Truncate | WrongValue | SlowOk | Ratelimit

definition SLOW_PENALTY_MS :: u64 where "SLOW_PENALTY_MS = 500"

definition HEALTHY_BODY :: string where
  "HEALTHY_BODY = ''{\"status\":\"ok\",\"count\":3,\"items\":[\"a\",\"b\",\"c\"]}''"
definition WRONG_VALUE_BODY :: string where
  "WRONG_VALUE_BODY = ''{\"status\":\"ok\",\"count\":-1,\"items\":[\"a\",\"b\",\"c\"]}''"
definition TRUNCATE_BODY :: string where
  "TRUNCATE_BODY = ''{\"status\":\"ok\",\"count\":3,\"items\":[\"a\",\"b''"
definition ERROR_BODY :: string where
  "ERROR_BODY = ''{\"status\":\"error\",\"code\":500}''"
definition RATELIMIT_BODY :: string where
  "RATELIMIT_BODY = ''{\"status\":\"error\",\"code\":429}''"

record params =
  pr_mode :: mode
  pr_cliff_rps :: f64
  pr_pct :: f64
  pr_base_latency_ms :: u64

definition default_mode :: mode where "default_mode = Healthy"
definition default_cliff :: f64 where "default_cliff = f64_lit 100"
definition default_pct :: f64 where "default_pct = f64_lit 100"

text \<open>The query string as decoded: missing parameters take their defaults.\<close>

definition params_of :: "mode option \<Rightarrow> f64 option \<Rightarrow> f64 option \<Rightarrow> u64 option \<Rightarrow> params" where
  "params_of m cliff pct base =
     \<lparr> pr_mode = (case m of Some x \<Rightarrow> x | None \<Rightarrow> default_mode),
       pr_cliff_rps = (case cliff of Some x \<Rightarrow> x | None \<Rightarrow> default_cliff),
       pr_pct = (case pct of Some x \<Rightarrow> x | None \<Rightarrow> default_pct),
       pr_base_latency_ms = (case base of Some x \<Rightarrow> x | None \<Rightarrow> 0) \<rparr>"

record decision =
  de_above_cliff :: bool
  de_injected :: bool
  de_status :: u16
  de_body :: string
  de_latency_ms :: u64
  de_retry_after_secs :: "u64 option"

definition decide :: "params \<Rightarrow> f64 \<Rightarrow> u64 \<Rightarrow> decision" where
  "decide p rps seq =
     (let above_cliff = pr_cliff_rps p < rps;
          selected = seq mod 100 < as_u64 (f64_clamp (pr_pct p) (f64_lit 0) (f64_lit 100));
          injected = above_cliff \<and> selected \<and> pr_mode p \<noteq> Healthy;
          answer = (\<lambda>status body latency retry.
            \<lparr> de_above_cliff = above_cliff, de_injected = injected, de_status = status, de_body = body,
              de_latency_ms = latency, de_retry_after_secs = retry \<rparr>);
          base = pr_base_latency_ms p
      in if \<not> injected then answer 200 HEALTHY_BODY base None
         else case pr_mode p of
             Fast500 \<Rightarrow> answer 500 ERROR_BODY base None
           | Truncate \<Rightarrow> answer 200 TRUNCATE_BODY base None
           | WrongValue \<Rightarrow> answer 200 WRONG_VALUE_BODY base None
           | SlowOk \<Rightarrow> answer 200 HEALTHY_BODY (base + SLOW_PENALTY_MS) None
           | Ratelimit \<Rightarrow> answer 429 RATELIMIT_BODY base (Some 1)
           | Healthy \<Rightarrow> answer 200 HEALTHY_BODY base None)"

section \<open>The handler\<close>

record app_state =
  as_meter :: rps_meter
  as_counter :: u64

definition app_state_new :: app_state where
  "app_state_new = \<lparr> as_meter = rps_meter_new, as_counter = 0 \<rparr>"

fun mode_header :: "mode \<Rightarrow> string" where
  "mode_header Healthy = ''healthy''"
| "mode_header Fast500 = ''fast500''"
| "mode_header Truncate = ''truncate''"
| "mode_header WrongValue = ''wrong_value''"
| "mode_header SlowOk = ''slow_ok''"
| "mode_header Ratelimit = ''ratelimit''"

definition bool_header :: "bool \<Rightarrow> string" where
  "bool_header b = (if b then ''true'' else ''false'')"

definition response_headers :: "params \<Rightarrow> f64 \<Rightarrow> decision \<Rightarrow> (string \<times> string) list" where
  "response_headers p rps d =
     [(''content-type'', ''application/json''), (''x-mock-mode'', mode_header (pr_mode p)),
      (''x-mock-rps'', decimal (unat (as_u64 rps))), (''x-mock-above-cliff'', bool_header (de_above_cliff d)),
      (''x-mock-injected'', bool_header (de_injected d))]
     @ (case de_retry_after_secs d of None \<Rightarrow> [] | Some secs \<Rightarrow> [(''retry-after'', decimal (unat secs))])"

record mock_response =
  mk_status :: u16
  mk_headers :: "(string \<times> string) list"
  mk_body :: string
  mk_sleep_ms :: u64

definition handle :: "params \<Rightarrow> u64 \<Rightarrow> app_state \<Rightarrow> mock_response \<times> app_state" where
  "handle p now st =
     (let m = meter_record now (as_meter st);
          rps = current_rps now m;
          seq = as_counter st;
          d = decide p rps seq
      in (\<lparr> mk_status = de_status d, mk_headers = response_headers p rps d, mk_body = de_body d,
            mk_sleep_ms = de_latency_ms d \<rparr>,
          \<lparr> as_meter = m, as_counter = seq + 1 \<rparr>))"

section \<open>The meter counts the last second\<close>

definition slot_of :: "u64 \<Rightarrow> nat" where
  "slot_of t = unat t div 100"

definition at_slot :: "nat \<Rightarrow> u64 list \<Rightarrow> nat" where
  "at_slot s ts = length (filter (\<lambda>t. slot_of t = s) ts)"

text \<open>Bucket \<open>i\<close> after the requests \<open>ts\<close>: the latest slot that maps to it, with the requests of that slot.\<close>

definition bucket_inv :: "u64 list \<Rightarrow> nat \<Rightarrow> u64 \<times> u64 \<Rightarrow> bool" where
  "bucket_inv ts i b \<longleftrightarrow>
     (case b of (s, n) \<Rightarrow>
        if s = u64_max then n = 0 \<and> (\<forall>t\<in>set ts. slot_of t mod 10 \<noteq> i)
        else unat s mod 10 = i \<and> n = of_nat (at_slot (unat s) ts)
           \<and> (\<exists>t\<in>set ts. slot_of t = unat s) \<and> (\<forall>t\<in>set ts. slot_of t mod 10 = i \<longrightarrow> slot_of t \<le> unat s))"

definition meter_inv :: "u64 list \<Rightarrow> rps_meter \<Rightarrow> bool" where
  "meter_inv ts m \<longleftrightarrow> length m = 10 \<and> (\<forall>i<10. bucket_inv ts i (m ! i))"

lemma unat_slot: "unat (t div SLOT_MS) = slot_of t" "t div SLOT_MS \<noteq> u64_max"
proof -
  show s: "unat (t div SLOT_MS) = slot_of t" by (simp add: SLOT_MS_def slot_of_def unat_div)
  have "slot_of t < 2 ^ 64 - 1" using unat_lt [of t] by (simp add: slot_of_def)
  then show "t div SLOT_MS \<noteq> u64_max" using s by (auto simp: unat_max_word_len)
qed

lemma meter_inv_new: "meter_inv [] rps_meter_new"
  by (simp add: meter_inv_def rps_meter_new_def SLOTS_def bucket_inv_def)

lemma bucket_inv_other:
  "bucket_inv ts i b \<Longrightarrow> slot_of t mod 10 \<noteq> i \<Longrightarrow> bucket_inv (ts @ [t]) i b"
  by (auto simp: bucket_inv_def at_slot_def split: prod.splits if_splits)

lemma bucket_inv_own:
  assumes "bucket_inv ts i (s, n)" "slot_of t mod 10 = i" "\<forall>u\<in>set ts. slot_of u \<le> slot_of t"
  shows "bucket_inv (ts @ [t]) i (if s = t div SLOT_MS then (s, n + 1) else (t div SLOT_MS, 1))"
proof (cases "s = t div SLOT_MS")
  case True
  then show ?thesis using assms unat_slot [of t] by (auto simp: bucket_inv_def at_slot_def)
next
  case False
  have "slot_of u \<noteq> slot_of t" if "u \<in> set ts" for u
  proof
    assume same: "slot_of u = slot_of t"
    then have "s \<noteq> u64_max" using assms(1,2) that by (auto simp: bucket_inv_def split: if_splits)
    then have "\<exists>v\<in>set ts. slot_of v = unat s" "slot_of u \<le> unat s"
      using assms(1,2) that same by (auto simp: bucket_inv_def)
    then obtain v where "v \<in> set ts" "slot_of v = unat s" "slot_of u \<le> unat s" by blast
    then have "unat s = unat (t div SLOT_MS)" using assms(3) same unat_slot [of t] by fastforce
    then show False using False by (simp add: word_unat_eq_iff)
  qed
  then have "filter (\<lambda>u. slot_of u = slot_of t) ts = []" by (auto simp: filter_empty_conv)
  then show ?thesis using False assms unat_slot [of t] by (auto simp: bucket_inv_def at_slot_def)
qed

lemma meter_inv_record:
  assumes "meter_inv ts m" "\<forall>u\<in>set ts. slot_of u \<le> slot_of t"
  shows "meter_inv (ts @ [t]) (meter_record t m)"
proof -
  have i: "unat (t div SLOT_MS mod SLOTS) = slot_of t mod 10"
    by (simp add: SLOTS_def unat_mod unat_slot(1))
  obtain s n where b: "m ! (slot_of t mod 10) = (s, n)" by fastforce
  have m': "meter_record t m = m[slot_of t mod 10 := (if s = t div SLOT_MS then (s, n + 1) else (t div SLOT_MS, 1))]"
    unfolding meter_record_def i Let_def b by simp
  have own: "bucket_inv ts (slot_of t mod 10) (s, n)" using assms(1) by (simp add: meter_inv_def flip: b)
  have "bucket_inv (ts @ [t]) j (meter_record t m ! j)" if "j < 10" for j
  proof (cases "slot_of t mod 10 = j")
    case True
    then show ?thesis
      using assms(1) that bucket_inv_own [OF own refl assms(2)] by (simp only: m' meter_inv_def nth_list_update_eq)
  next
    case False
    then show ?thesis using assms(1) that by (simp add: m' meter_inv_def bucket_inv_other)
  qed
  then show ?thesis using assms(1) by (simp add: meter_inv_def m')
qed

lemma meter_inv_run:
  assumes "sorted ts"
  shows "meter_inv ts (fold meter_record ts rps_meter_new)"
  using assms
proof (induction ts rule: rev_induct)
  case (snoc t ts)
  then have "\<forall>u\<in>set ts. slot_of u \<le> slot_of t"
    by (auto simp: sorted_append slot_of_def intro!: div_le_mono word_le_nat_alt [THEN iffD1])
  then show ?case using snoc by (auto simp: sorted_append intro: meter_inv_record)
qed (simp add: meter_inv_new)

text \<open>What bucket \<open>i\<close> contributes to the sum at a time in slot \<open>q\<close>.\<close>

definition in_window :: "nat \<Rightarrow> nat \<Rightarrow> u64 list \<Rightarrow> u64 list" where
  "in_window q i ts = filter (\<lambda>t. q \<le> slot_of t + 9 \<and> slot_of t mod 10 = i) ts"

lemma same_slot:
  fixes a b :: nat
  assumes "a \<le> b" "b \<le> a + 9" "a mod 10 = b mod 10"
  shows "a = b"
proof -
  have "(b - a) mod 10 = 0" using assms mod_eq_dvd_iff_nat [of a b 10] by (simp add: dvd_eq_mod_eq_0)
  moreover have "(b - a) mod 10 = b - a" using assms(2) by (intro mod_less) simp
  ultimately show ?thesis using assms(1) by simp
qed

lemma bucket_contribution:
  assumes "bucket_inv ts i (s, n)" "\<forall>t\<in>set ts. slot_of t \<le> slot_of now"
  shows "(if s \<noteq> u64_max \<and> saturating_sub (now div SLOT_MS) (SLOTS - 1) \<le> s \<and> s \<le> now div SLOT_MS then n else 0)
    = of_nat (length (in_window (slot_of now) i ts))"
proof (cases "s = u64_max")
  case True
  then have "in_window (slot_of now) i ts = []" using assms(1) by (auto simp: bucket_inv_def in_window_def filter_empty_conv)
  then show ?thesis using True by simp
next
  case False
  have s: "unat s mod 10 = i" "n = of_nat (at_slot (unat s) ts)" "\<forall>t\<in>set ts. slot_of t mod 10 = i \<longrightarrow> slot_of t \<le> unat s"
    using assms(1) False by (auto simp: bucket_inv_def)
  have top: "unat s \<le> slot_of now" using assms False by (auto simp: bucket_inv_def)
  have cond: "saturating_sub (now div SLOT_MS) (SLOTS - 1) \<le> s \<and> s \<le> now div SLOT_MS \<longleftrightarrow> slot_of now \<le> unat s + 9"
    using top by (simp add: word_le_nat_alt unat_saturating_sub unat_slot SLOTS_def) linarith
  show ?thesis
  proof (cases "slot_of now \<le> unat s + 9")
    case True
    have "slot_of now \<le> slot_of t + 9 \<and> slot_of t mod 10 = i \<longleftrightarrow> slot_of t = unat s" if "t \<in> set ts" for t
      using s(1,3) top True that same_slot [of "slot_of t" "unat s"] by auto
    then have "in_window (slot_of now) i ts = filter (\<lambda>t. slot_of t = unat s) ts"
      unfolding in_window_def by (intro filter_cong) auto
    then show ?thesis using False True cond s(2) by (simp add: at_slot_def)
  next
    case late: False
    then have "in_window (slot_of now) i ts = []" using s(3) by (fastforce simp: in_window_def filter_empty_conv)
    then show ?thesis using late cond by auto
  qed
qed

lemma sum_list_of_nat: "sum_list (map (\<lambda>x. of_nat (f x)) xs) = of_nat (sum_list (map f xs))"
  by (induction xs) simp_all

lemma sum_classes: "sum_list (map (\<lambda>i. length (filter (\<lambda>t. P t \<and> f t = i) ts)) [0..<n]) = length (filter (\<lambda>t. P t \<and> f t < n) ts)"
proof (induction n)
  case (Suc n)
  have "length (filter (\<lambda>t. P t \<and> f t < Suc n) ts)
      = length (filter (\<lambda>t. P t \<and> f t < n) ts) + length (filter (\<lambda>t. P t \<and> f t = n) ts)"
    by (induction ts) auto
  with Suc show ?case by simp
qed simp

text \<open>C37. The meter counts exactly the requests of the last second, to the tenth: after any requests in order of time, and
  however long ago the ring of buckets was last used, the measured rate is the number of requests whose slot of 100
  milliseconds is the current one or one of the nine before it.\<close>

theorem meter_counts_last_second:
  assumes "sorted ts" "\<forall>t\<in>set ts. t \<le> now" "length ts < 2 ^ 53"
  shows "current_rps now (fold meter_record ts rps_meter_new)
    = Fin (of_nat (length (filter (\<lambda>t. unat now div 100 \<le> unat t div 100 + 9) ts)))"
proof -
  let ?m = "fold meter_record ts rps_meter_new" and ?q = "slot_of now"
  have inv: "length ?m = 10" "bucket_inv ts i (?m ! i)" if "i < 10" for i
    using meter_inv_run [OF assms(1)] that by (simp_all add: meter_inv_def)
  have before: "\<forall>t\<in>set ts. slot_of t \<le> ?q"
    using assms(2) by (auto simp: slot_of_def intro!: div_le_mono word_le_nat_alt [THEN iffD1])
  let ?part = "\<lambda>(s, n). if s \<noteq> u64_max \<and> saturating_sub (now div SLOT_MS) (SLOTS - 1) \<le> s \<and> s \<le> now div SLOT_MS then n else 0"
  have "map ?part ?m = map (\<lambda>i. ?part (?m ! i)) [0..<10]"
    using inv(1) [of 0] by (intro nth_equalityI) simp_all
  also have "\<dots> = map (\<lambda>i. of_nat (length (in_window ?q i ts))) [0..<10]"
  proof (rule map_cong [OF refl])
    fix i assume "i \<in> set [0..<10]"
    then have b: "bucket_inv ts i (?m ! i)" by (intro inv(2)) simp
    obtain s n where sn: "?m ! i = (s, n)" by fastforce
    show "?part (?m ! i) = of_nat (length (in_window ?q i ts))"
      using bucket_contribution [OF b [unfolded sn] before] by (simp add: sn)
  qed
  finally have "sum_list (map ?part ?m) = of_nat (sum_list (map (\<lambda>i. length (in_window ?q i ts)) [0..<10]))"
    by (simp only: sum_list_of_nat)
  also have "sum_list (map (\<lambda>i. length (in_window ?q i ts)) [0..<10]) = length (filter (\<lambda>t. ?q \<le> slot_of t + 9) ts)"
    unfolding in_window_def by (subst sum_classes) simp
  finally have sum: "sum_list (map ?part ?m) = of_nat (length (filter (\<lambda>t. ?q \<le> slot_of t + 9) ts))" .
  have "length (filter (\<lambda>t. ?q \<le> slot_of t + 9) ts) < 2 ^ 53"
    using assms(3) length_filter_le [of "\<lambda>t. ?q \<le> slot_of t + 9" ts] by linarith
  then show ?thesis
    by (simp add: current_rps_def Let_def sum of_u64_small unat_of_nat take_bit_nat_eq_self slot_of_def)
qed

theorem meter_counts_last_second_witness:
  "current_rps 1500 (fold meter_record [0, 100, 200, 300, 400, 500, 600, 700, 800, 900] rps_meter_new) = Fin 4"
proof -
  let ?ts = "[0, 100, 200, 300, 400, 500, 600, 700, 800, 900] :: u64 list"
  have "sorted ?ts" "\<forall>t\<in>set ?ts. t \<le> 1500" "length ?ts < 2 ^ 53" by simp_all
  from meter_counts_last_second [OF this] show ?thesis by simp
qed

section \<open>The injected fraction\<close>

text \<open>The threshold on the sequence number, and how many of a hundred consecutive numbers lie below it.\<close>

definition pct_limit :: "params \<Rightarrow> nat" where
  "pct_limit p = unat (as_u64 (f64_clamp (pr_pct p) (f64_lit 0) (f64_lit 100)))"

lemma decide_injected:
  "de_injected (decide p rps seq) \<longleftrightarrow> pr_cliff_rps p < rps \<and> pr_mode p \<noteq> Healthy \<and> unat seq mod 100 < pct_limit p"
  by (cases "pr_mode p") (auto simp: decide_def Let_def pct_limit_def word_less_nat_alt unat_mod)

lemma decide_not_injected:
  "\<not> de_injected (decide p rps seq) \<Longrightarrow>
   de_status (decide p rps seq) = 200 \<and> de_body (decide p rps seq) = HEALTHY_BODY
   \<and> de_latency_ms (decide p rps seq) = pr_base_latency_ms p \<and> de_retry_after_secs (decide p rps seq) = None"
  by (auto simp: decide_def Let_def split: mode.splits if_splits)

lemma residues_below: "length (filter (\<lambda>n. (n :: nat) mod 100 < c) [100 * b..<100 * b + 100]) = min c 100"
proof -
  have "[100 * b..<100 * b + 100] = map (\<lambda>i. i + 100 * b) [0..<100]" by (simp add: map_add_upt add.commute)
  then have "length (filter (\<lambda>n. n mod 100 < c) [100 * b..<100 * b + 100]) = length (filter (\<lambda>i. i mod 100 < c) [0..<100])"
    by (simp add: filter_map comp_def)
  also have "filter (\<lambda>i. i mod 100 < c) [0..<100] = filter (\<lambda>i. i < c) [0..<100]" by (intro filter_cong) auto
  also have "length \<dots> = card {i. i < 100 \<and> i < c}" by (subst distinct_length_filter) (auto intro: arg_cong [where f = card])
  also have "{i. i < 100 \<and> i < c} = {..<min c 100}" by auto
  finally show ?thesis by simp
qed

text \<open>Failures appear at the cliff and in the demanded fraction: at or below the cliff rate, or in healthy mode, every
  answer is the healthy one; above it, out of every block of a hundred requests exactly as many fail as the truncated
  percentage says.\<close>

lemma injection_is_exact:
  assumes "100 * b + 100 \<le> (2 :: nat) ^ 64"
  shows "(if pr_cliff_rps p < rps \<and> pr_mode p \<noteq> Healthy
       then length (filter (\<lambda>n. de_injected (decide p rps (of_nat n))) [100 * b..<100 * b + 100]) = min (pct_limit p) 100
       else \<forall>seq. \<not> de_injected (decide p rps seq) \<and> de_status (decide p rps seq) = 200
              \<and> de_body (decide p rps seq) = HEALTHY_BODY \<and> de_latency_ms (decide p rps seq) = pr_base_latency_ms p)"
proof (cases "pr_cliff_rps p < rps \<and> pr_mode p \<noteq> Healthy")
  case True
  have "filter (\<lambda>n. de_injected (decide p rps (of_nat n))) [100 * b..<100 * b + 100]
      = filter (\<lambda>n. n mod 100 < pct_limit p) [100 * b..<100 * b + 100]"
    using True assms by (intro filter_cong) (auto simp: decide_injected unat_of_nat take_bit_nat_eq_self)
  then show ?thesis using True by (simp add: residues_below)
next
  case False
  then have "\<not> de_injected (decide p rps seq)" for seq by (auto simp: decide_injected)
  then show ?thesis using False decide_not_injected by (simp only: if_False) blast
qed

section \<open>Each mode is caught by its tier\<close>

text \<open>What the engine sees of an answer: the length of the body, and the latency with \<open>us\<close> microseconds on the way.\<close>

definition engine_verdict :: "inline_assert \<Rightarrow> u64 \<Rightarrow> decision \<Rightarrow> verdict" where
  "engine_verdict a us d =
     classify a (de_status d) (de_latency_ms d * 1000 + us) (of_nat (length (de_body d))) (Some ''application/json'')"

lemma decide_answer:
  "de_injected (decide p rps seq) \<Longrightarrow>
   (de_status (decide p rps seq), de_body (decide p rps seq), de_latency_ms (decide p rps seq), de_retry_after_secs (decide p rps seq))
   = (case pr_mode p of
        Fast500 \<Rightarrow> (500, ERROR_BODY, pr_base_latency_ms p, None)
      | Truncate \<Rightarrow> (200, TRUNCATE_BODY, pr_base_latency_ms p, None)
      | WrongValue \<Rightarrow> (200, WRONG_VALUE_BODY, pr_base_latency_ms p, None)
      | SlowOk \<Rightarrow> (200, HEALTHY_BODY, pr_base_latency_ms p + SLOW_PENALTY_MS, None)
      | Ratelimit \<Rightarrow> (429, RATELIMIT_BODY, pr_base_latency_ms p, Some 1)
      | Healthy \<Rightarrow> (200, HEALTHY_BODY, pr_base_latency_ms p, None))"
proof -
  assume "de_injected (decide p rps seq)"
  then have c: "pr_cliff_rps p < rps" "pr_mode p \<noteq> Healthy" "seq mod 100 < as_u64 (f64_clamp (pr_pct p) (f64_lit 0) (f64_lit 100))"
    by (auto simp: decide_injected pct_limit_def word_less_nat_alt unat_mod)
  show ?thesis by (cases "pr_mode p") (use c in \<open>simp_all add: decide_def Let_def\<close>)
qed

lemma body_lengths:
  "length HEALTHY_BODY = 47" "length WRONG_VALUE_BODY = 48" "length TRUNCATE_BODY = 40"
  by (simp_all add: HEALTHY_BODY_def WRONG_VALUE_BODY_def TRUNCATE_BODY_def)

text \<open>C39. What the inline tiers of the engine make of the answers of the mock, under one configuration of the assertions: status 200
  expected (or none given, which is any 2xx), a latency limit of 200 milliseconds, a body of at least 45 bytes
  and no upper limit, JSON expected, and at most 100 milliseconds of base latency and 100 on the way. An injected fast 500
  fails the status tier, a 429 counts as rate limited, a slow answer fails the latency tier and a truncated one the size
  tier. An injected wrong value passes all inline tiers: it is left to the value check of the offload tier, which is
  not part of the engine. Every answer that is not injected passes.\<close>

theorem modes_meet_their_tiers:
  assumes "ia_expected_status a \<in> {[], [200]}" "ia_max_latency_us a = Some 200000" "ia_min_body_bytes a = Some 45"
    and "ia_max_body_bytes a = None" "ia_content_type_lc_prefix a = Some ''application/json''"
    and "unat us \<le> 100000" "unat (pr_base_latency_ms p) \<le> 100"
  shows "engine_verdict a us (decide p rps seq) =
    (if de_injected (decide p rps seq)
     then case pr_mode p of
         Fast500 \<Rightarrow> FailStatus | Ratelimit \<Rightarrow> RateLimited | SlowOk \<Rightarrow> FailLatency | Truncate \<Rightarrow> FailSize
       | WrongValue \<Rightarrow> Pass | Healthy \<Rightarrow> Pass
     else Pass)"
proof -
  have wire: "unat (x * 1000 + us) = unat x * 1000 + unat us" if "unat x \<le> 1000" for x :: u64
    using assms(6) that by (simp add: unat_word_ariths)
  have "unat (pr_base_latency_ms p + SLOW_PENALTY_MS) = unat (pr_base_latency_ms p) + 500"
    using assms(7) by (simp add: SLOW_PENALTY_MS_def unat_word_ariths)
  moreover from this have "unat ((pr_base_latency_ms p + SLOW_PENALTY_MS) * 1000 + us)
      = unat (pr_base_latency_ms p + SLOW_PENALTY_MS) * 1000 + unat us"
    using assms(7) by (intro wire) simp
  ultimately have slow: "200000 < (pr_base_latency_ms p + SLOW_PENALTY_MS) * 1000 + us"
    unfolding word_less_nat_alt by simp
  have fast: "\<not> 200000 < pr_base_latency_ms p * 1000 + us"
    using assms(6,7) by (simp add: word_less_nat_alt wire)
  have ok: "status_ok a 200" "\<not> status_ok a 500" using assms(1) by (auto simp: status_ok_def)
  have ct: "content_type_ok a (Some ''application/json'')" by (simp add: content_type_ok_def assms(5))
  note times = slow [unfolded distrib_right] fast
  note tiers = engine_verdict_def classify_def above_def below_def assms(2-4) ok ct body_lengths times
  show ?thesis
  proof (cases "de_injected (decide p rps seq)")
    case False
    then show ?thesis using decide_not_injected [OF False] by (simp add: tiers)
  next
    case True
    note d = decide_answer [OF True]
    show ?thesis
    proof (cases "pr_mode p")
      case SlowOk
      then show ?thesis using d True by (simp add: tiers)
    next
      case Healthy
      then show ?thesis using True by (simp add: decide_injected)
    qed (use d True in \<open>simp_all add: tiers\<close>)
  qed
qed

theorem modes_meet_their_tiers_witness:
  "engine_verdict (from_spec (example_spec\<lparr>min_body_bytes := Some 45\<rparr>)) 2000
     (decide (params_of (Some Truncate) None None (Some 20)) (Fin 200) 0) = FailSize"
proof -
  let ?a = "from_spec (example_spec\<lparr>min_body_bytes := Some 45\<rparr>)" and ?p = "params_of (Some Truncate) None None (Some 20)"
  have lower: "to_ascii_lowercase ''application/json'' = ''application/json''" by code_simp
  have hundred: "mk64 100 = Fin 100" "mk64 0 = Fin 0" using mk64_int [of 100] by simp_all
  have a: "ia_expected_status ?a \<in> {[], [200]}" "ia_max_latency_us ?a = Some 200000" "ia_min_body_bytes ?a = Some 45"
    "ia_max_body_bytes ?a = None" "ia_content_type_lc_prefix ?a = Some ''application/json''"
    by (simp_all add: from_spec_def example_spec_def lower)
  have p: "unat (pr_base_latency_ms ?p) \<le> 100" "pr_mode ?p = Truncate" by (simp_all add: params_of_def)
  have "de_injected (decide ?p (Fin 200) 0)"
    by (simp add: decide_injected pct_limit_def params_of_def default_cliff_def default_pct_def hundred f64_clamp_def trunc_u64_def)
  then show ?thesis
    using modes_meet_their_tiers [OF a _ p(1), of 2000 "Fin 200" 0] by (simp add: p(2))
qed

end
