(* ===== verification/Mock_Meter.thy ===== *)
theory Mock_Meter
  imports Mock
begin

text \<open>
  \<open>RpsMeter::record\<close> of \<open>mock/src/lib.rs\<close> as concurrent calls execute it: one event is one atomic operation (load, compare
  and exchange, add, store) of one call, and the operations of all calls interleave freely. \<open>Mock\<close> has the same
  operation as one step. Memory is sequentially consistent here, which the operations on a single atomic always are.
\<close>

section \<open>The operations of a call\<close>

text \<open>
  \<open>Begin\<close>: at the top of the loop. \<open>Hit\<close>: the bucket was found at the slot of the call. \<open>Miss cur\<close>: it was found at another
  slot. \<open>Claimed\<close>: the exchange succeeded, the count is not yet reset. \<open>Recorded\<close>: the call has returned.
\<close>

datatype record_pc = Begin | Hit | Miss u64 | Claimed | Recorded

definition bucket_of :: "u64 \<Rightarrow> nat" where
  "bucket_of slot = unat (slot mod SLOTS)"

fun record_op :: "u64 \<Rightarrow> record_pc \<Rightarrow> rps_meter \<Rightarrow> (record_pc \<times> rps_meter) option" where
  "record_op slot Begin m = Some (let cur = fst (m ! bucket_of slot) in (if cur = slot then Hit else Miss cur), m)"
| "record_op slot Hit m =
     Some (Recorded, m[bucket_of slot := (fst (m ! bucket_of slot), snd (m ! bucket_of slot) + 1)])"
| "record_op slot (Miss cur) m =
     Some (if fst (m ! bucket_of slot) = cur then (Claimed, m[bucket_of slot := (slot, snd (m ! bucket_of slot))])
           else (Begin, m))"
| "record_op slot Claimed m = Some (Recorded, m[bucket_of slot := (fst (m ! bucket_of slot), 1)])"
| "record_op slot Recorded m = None"

text \<open>The meter and the calls under way, each with its slot.\<close>

record meter_state =
  mt_meter :: rps_meter
  mt_calls :: "(u64 \<times> record_pc) list"

definition calls_begin :: "u64 list \<Rightarrow> rps_meter \<Rightarrow> meter_state" where
  "calls_begin nows m = \<lparr> mt_meter = m, mt_calls = map (\<lambda>now. (now div SLOT_MS, Begin)) nows \<rparr>"

definition call_step :: "nat \<Rightarrow> meter_state \<Rightarrow> meter_state option" where
  "call_step i st =
     (if i < length (mt_calls st) then
        (case mt_calls st ! i of (slot, pc) \<Rightarrow>
           map_option (\<lambda>(pc', m). \<lparr> mt_meter = m, mt_calls = (mt_calls st)[i := (slot, pc')] \<rparr>)
             (record_op slot pc (mt_meter st)))
      else None)"

text \<open>A schedule says which call makes the next step.\<close>

fun calls_run :: "nat list \<Rightarrow> meter_state \<Rightarrow> meter_state option" where
  "calls_run [] st = Some st"
| "calls_run (i # is) st = Option.bind (call_step i st) (calls_run is)"

definition all_recorded :: "meter_state \<Rightarrow> bool" where
  "all_recorded st \<longleftrightarrow> (\<forall>c\<in>set (mt_calls st). snd c = Recorded)"

lemma call_step_cases:
  assumes "call_step i st = Some st'"
  obtains slot pc pc' m where "i < length (mt_calls st)" "mt_calls st ! i = (slot, pc)"
    "record_op slot pc (mt_meter st) = Some (pc', m)"
    "st' = \<lparr> mt_meter = m, mt_calls = (mt_calls st)[i := (slot, pc')] \<rparr>"
  using assms by (auto simp: call_step_def split: if_splits prod.splits)

lemma call_step_enabled: "i < length (mt_calls st) \<Longrightarrow> snd (mt_calls st ! i) \<noteq> Recorded \<Longrightarrow> call_step i st \<noteq> None"
  by (cases "mt_calls st ! i"; cases "snd (mt_calls st ! i)") (auto simp: call_step_def)

lemma some_call_enabled: "\<not> all_recorded st \<Longrightarrow> \<exists>i st'. call_step i st = Some st'"
  using call_step_enabled by (fastforce simp: all_recorded_def in_set_conv_nth)

section \<open>Alone, a call is one step of the meter\<close>

lemma alone_is_meter_record:
  assumes "bucket_of (now div SLOT_MS) < length m"
  shows "calls_run [0, 0] (calls_begin [now] m) = Some \<lparr> mt_meter = meter_record now m, mt_calls = [(now div SLOT_MS, Recorded)] \<rparr>
    \<or> calls_run [0, 0, 0] (calls_begin [now] m) = Some \<lparr> mt_meter = meter_record now m, mt_calls = [(now div SLOT_MS, Recorded)] \<rparr>"
  using assms
  by (cases "m ! bucket_of (now div SLOT_MS)")
    (auto simp: calls_begin_def call_step_def meter_record_def Let_def simp flip: bucket_of_def)

section \<open>Every call returns\<close>

text \<open>
  What a call still has to do. A call whose exchange is going to fail has to go back to the top of the loop; the exchange
  of another call can put it there, but each call exchanges at most once.
\<close>

fun op_work :: "rps_meter \<Rightarrow> u64 \<times> record_pc \<Rightarrow> nat" where
  "op_work m (slot, Begin) = 2"
| "op_work m (slot, Hit) = 1"
| "op_work m (slot, Miss cur) = (if fst (m ! bucket_of slot) = cur then 1 else 3)"
| "op_work m (slot, Claimed) = 1"
| "op_work m (slot, Recorded) = 0"

definition may_claim :: "u64 \<times> record_pc \<Rightarrow> nat" where
  "may_claim c = (case snd c of Begin \<Rightarrow> 1 | Miss cur \<Rightarrow> 1 | _ \<Rightarrow> 0)"

definition meter_work :: "meter_state \<Rightarrow> nat" where
  "meter_work st =
     (2 * length (mt_calls st) + 1) * sum_list (map may_claim (mt_calls st))
     + sum_list (map (op_work (mt_meter st)) (mt_calls st))"

lemma sum_update:
  fixes f :: "'a \<Rightarrow> nat"
  shows "i < length xs \<Longrightarrow> sum_list (map f (xs[i := x])) + f (xs ! i) = sum_list (map f xs) + f x"
  by (induction xs arbitrary: i) (auto split: nat.split)

lemma op_work_grows: "op_work m' c \<le> op_work m c + 2"
  by (cases "(m, c)" rule: op_work.cases) auto

lemma sum_op_work_grows: "sum_list (map (op_work m') cs) \<le> sum_list (map (op_work m) cs) + 2 * length cs"
proof (induction cs)
  case (Cons c cs)
  then show ?case using op_work_grows [of m' c m] by simp
qed simp

lemma op_work_same_slots:
  "(\<And>i. fst (m' ! i) = fst (m ! i)) \<Longrightarrow> op_work m' c = op_work m c"
  by (cases "(m, c)" rule: op_work.cases) auto

lemma slot_kept: "fst (m[i := (fst (m ! i), n)] ! j) = fst (m ! j)"
  by (cases "i < length m"; cases "i = j") (auto simp: list_update_beyond)

lemma meter_work_decreases:
  assumes "call_step i st = Some st'"
  shows "meter_work st' < meter_work st"
  using assms
proof (rule call_step_cases)
  fix slot pc pc' m
  assume i: "i < length (mt_calls st)" and c: "mt_calls st ! i = (slot, pc)"
    and op: "record_op slot pc (mt_meter st) = Some (pc', m)"
    and st': "st' = \<lparr> mt_meter = m, mt_calls = (mt_calls st)[i := (slot, pc')] \<rparr>"
  let ?m = "mt_meter st" and ?cs = "mt_calls st"
  note claims = sum_update [OF i, of may_claim "(slot, pc')"]
  note work = sum_update [OF i, of "op_work m" "(slot, pc')"]
  have kept: ?thesis if "\<And>j. fst (m ! j) = fst (?m ! j)" "may_claim (slot, pc') \<le> may_claim (slot, pc)"
    "op_work m (slot, pc') < op_work m (slot, pc)"
  proof -
    have "op_work m = op_work ?m" by (rule ext) (rule op_work_same_slots [OF that(1)])
    then have "sum_list (map (op_work m) (?cs[i := (slot, pc')])) < sum_list (map (op_work ?m) ?cs)"
      using work that(3) unfolding c by (simp only:)
    moreover have "sum_list (map may_claim (?cs[i := (slot, pc')])) \<le> sum_list (map may_claim ?cs)"
      using claims that(2) by (simp add: c)
    then have "(2 * length ?cs + 1) * sum_list (map may_claim (?cs[i := (slot, pc')]))
        \<le> (2 * length ?cs + 1) * sum_list (map may_claim ?cs)" by (rule mult_le_mono2)
    ultimately show ?thesis by (simp add: meter_work_def st')
  qed
  show ?thesis
  proof (cases pc)
    case Begin
    then show ?thesis using op by (intro kept) (auto simp: Let_def may_claim_def split: if_splits)
  next
    case Hit
    then show ?thesis using op slot_kept by (intro kept) (auto simp: may_claim_def)
  next
    case Claimed
    then show ?thesis using op slot_kept by (intro kept) (auto simp: may_claim_def)
  next
    case Recorded
    then show ?thesis using op by simp
  next
    case (Miss cur)
    show ?thesis
    proof (cases "fst (?m ! bucket_of slot) = cur")
      case False
      then show ?thesis using op Miss by (intro kept) (auto simp: may_claim_def)
    next
      case True
      then have pc': "pc' = Claimed" using op Miss by simp
      have "sum_list (map may_claim ?cs) = sum_list (map may_claim (?cs[i := (slot, pc')])) + 1"
        using claims by (simp add: c Miss pc' may_claim_def)
      moreover have "sum_list (map (op_work m) (?cs[i := (slot, pc')])) \<le> sum_list (map (op_work ?m) ?cs) + 2 * length ?cs"
        using work sum_op_work_grows [of m ?cs ?m] by (simp add: c Miss pc' split: if_splits)
      moreover have "length ((mt_calls st)[i := (slot, pc')]) = length ?cs" by simp
      ultimately show ?thesis unfolding meter_work_def st' by (simp add: algebra_simps)
    qed
  qed
qed

lemma meter_work_runs: "calls_run is st = Some st' \<Longrightarrow> length is + meter_work st' \<le> meter_work st"
proof (induction "is" arbitrary: st)
  case (Cons i "is")
  then obtain st1 where st1: "call_step i st = Some st1" "calls_run is st1 = Some st'"
    by (auto simp: bind_eq_Some_conv)
  then show ?case using Cons.IH [OF st1(2)] meter_work_decreases [OF st1(1)] by simp
qed simp

lemma meter_work_begin: "meter_work (calls_begin nows m) = 2 * length nows * length nows + 3 * length nows"
proof -
  have "sum_list (map may_claim (map (\<lambda>now. (now div SLOT_MS, Begin)) nows)) = length nows"
    "sum_list (map (op_work m) (map (\<lambda>now. (now div SLOT_MS, Begin)) nows)) = 2 * length nows"
    by (induction nows) (simp_all add: may_claim_def)
  then show ?thesis by (simp add: meter_work_def calls_begin_def algebra_simps)
qed

section \<open>What is counted within a slot\<close>

text \<open>All calls are for one slot. \<open>recorded\<close> is the number of calls that have returned.\<close>

definition recorded :: "meter_state \<Rightarrow> nat" where
  "recorded st = length (filter (\<lambda>c. snd c = Recorded) (mt_calls st))"

definition claims :: "meter_state \<Rightarrow> nat" where
  "claims st = length (filter (\<lambda>c. snd c = Claimed) (mt_calls st))"

lemma count_update:
  assumes "i < length xs"
  shows "length (filter P (xs[i := x])) + (if P (xs ! i) then 1 else 0) = length (filter P xs) + (if P x then 1 else 0)"
  using assms
proof (induction xs arbitrary: i)
  case (Cons y ys)
  then show ?case using Cons.IH [of "i - 1"] by (cases i) auto
qed simp

lemma list_all_update: "list_all P xs \<Longrightarrow> P x \<Longrightarrow> list_all P (xs[i := x])"
  by (auto simp: list_all_iff dest!: set_update_subset_insert [THEN subsetD])

text \<open>The bucket is at the slot: nothing is lost.\<close>

definition open_call :: "u64 \<Rightarrow> u64 \<times> record_pc \<Rightarrow> bool" where
  "open_call slot c \<longleftrightarrow> fst c = slot \<and> (snd c = Begin \<or> snd c = Hit \<or> snd c = Recorded)"

definition open_inv :: "u64 \<Rightarrow> u64 \<Rightarrow> meter_state \<Rightarrow> bool" where
  "open_inv slot n0 st \<longleftrightarrow>
     bucket_of slot < length (mt_meter st)
   \<and> mt_meter st ! bucket_of slot = (slot, n0 + of_nat (recorded st))
   \<and> list_all (open_call slot) (mt_calls st)"

lemma open_inv_step:
  assumes "open_inv slot n0 st" "call_step i st = Some st'"
  shows "open_inv slot n0 st'"
  using assms(2)
proof (rule call_step_cases)
  fix s pc pc' m
  assume i: "i < length (mt_calls st)" and c: "mt_calls st ! i = (s, pc)"
    and op: "record_op s pc (mt_meter st) = Some (pc', m)"
    and st': "st' = \<lparr> mt_meter = m, mt_calls = (mt_calls st)[i := (s, pc')] \<rparr>"
  have inv: "bucket_of slot < length (mt_meter st)" "list_all (open_call slot) (mt_calls st)"
    "mt_meter st ! bucket_of slot = (slot, n0 + of_nat (recorded st))"
    using assms(1) by (simp_all add: open_inv_def)
  have pc: "s = slot" "pc = Begin \<or> pc = Hit \<or> pc = Recorded"
    using inv(2) i c by (auto simp: list_all_length open_call_def)
  note count = count_update [OF i, of "\<lambda>c. snd c = Recorded" "(s, pc')"]
  note calls = list_all_update [OF inv(2), of "(s, pc')" i]
  show ?thesis
    using pc(2)
  proof (elim disjE)
    assume "pc = Begin"
    with op c count calls inv pc(1) show ?thesis by (simp add: open_inv_def st' recorded_def open_call_def)
  next
    assume "pc = Hit"
    with op c count calls inv pc(1) show ?thesis by (auto simp: open_inv_def st' recorded_def open_call_def)
  qed (use op in simp)
qed

text \<open>The bucket is at another slot \<open>old\<close>: not yet claimed, claimed and not yet reset, or reset.\<close>

definition new_call :: "u64 \<Rightarrow> u64 \<Rightarrow> u64 \<times> record_pc \<Rightarrow> bool" where
  "new_call slot old c \<longleftrightarrow> fst c = slot \<and> (case snd c of Miss cur \<Rightarrow> cur = old | _ \<Rightarrow> True)"

definition unclaimed :: "u64 \<times> record_pc \<Rightarrow> bool" where
  "unclaimed c \<longleftrightarrow> (case snd c of Begin \<Rightarrow> True | Miss cur \<Rightarrow> True | _ \<Rightarrow> False)"

definition new_inv :: "u64 \<Rightarrow> u64 \<Rightarrow> meter_state \<Rightarrow> bool" where
  "new_inv slot old st \<longleftrightarrow>
     bucket_of slot < length (mt_meter st) \<and> old \<noteq> slot \<and> length (mt_calls st) < 2 ^ 64
   \<and> list_all (new_call slot old) (mt_calls st)
   \<and> (let s = fst (mt_meter st ! bucket_of slot); n = snd (mt_meter st ! bucket_of slot) in
        (s = old \<and> list_all unclaimed (mt_calls st))
      \<or> (s = slot \<and> claims st = 1)
      \<or> (s = slot \<and> claims st = 0 \<and> 1 \<le> unat n \<and> unat n \<le> recorded st))"

lemma unclaimed_none: "list_all unclaimed (mt_calls st) \<Longrightarrow> claims st = 0"
  by (auto simp: claims_def list_all_iff unclaimed_def filter_empty_conv)

lemma claims_pos: "i < length (mt_calls st) \<Longrightarrow> mt_calls st ! i = (s, Claimed) \<Longrightarrow> 0 < claims st"
  by (force simp: claims_def length_filter_conv_card card_gt_0_iff)

lemma recorded_less: "i < length (mt_calls st) \<Longrightarrow> snd (mt_calls st ! i) \<noteq> Recorded \<Longrightarrow> recorded st < length (mt_calls st)"
  unfolding recorded_def by (rule length_filter_less [of "mt_calls st ! i"]) simp_all

lemma new_inv_step:
  assumes "new_inv slot old st" "call_step i st = Some st'"
  shows "new_inv slot old st'"
  using assms(2)
proof (rule call_step_cases)
  fix s pc pc' m
  assume i: "i < length (mt_calls st)" and c: "mt_calls st ! i = (s, pc)"
    and op: "record_op s pc (mt_meter st) = Some (pc', m)"
    and st': "st' = \<lparr> mt_meter = m, mt_calls = (mt_calls st)[i := (s, pc')] \<rparr>"
  obtain t n where b: "mt_meter st ! bucket_of slot = (t, n)" by (rule prod.exhaust)
  have inv: "bucket_of slot < length (mt_meter st)" "old \<noteq> slot" "length (mt_calls st) < 2 ^ 64"
    "list_all (new_call slot old) (mt_calls st)"
    and phase: "(t = old \<and> list_all unclaimed (mt_calls st)) \<or> (t = slot \<and> claims st = 1)
      \<or> (t = slot \<and> claims st = 0 \<and> 1 \<le> unat n \<and> unat n \<le> recorded st)"
    using assms(1) by (simp_all add: new_inv_def b Let_def)
  have call: "new_call slot old (s, pc)" using inv(4) i by (simp add: list_all_length flip: c)
  then have s: "s = slot" by (simp add: new_call_def)
  note rec = count_update [OF i, of "\<lambda>c. snd c = Recorded" "(s, pc')", folded recorded_def]
  note cl = count_update [OF i, of "\<lambda>c. snd c = Claimed" "(s, pc')", folded claims_def]
  note calls = list_all_update [OF inv(4), of "(s, pc')" i]
  note free = list_all_update [of unclaimed "mt_calls st" "(s, pc')" i]
  have un: "unclaimed (s, pc)" if "list_all unclaimed (mt_calls st)" using that i by (simp add: list_all_length flip: c)
  have rec': "recorded st' + (if pc = Recorded then 1 else 0) = recorded st + (if pc' = Recorded then 1 else 0)"
    and cl': "claims st' + (if pc = Claimed then 1 else 0) = claims st + (if pc' = Claimed then 1 else 0)"
    using count_update [OF i, of "\<lambda>c. snd c = Recorded" "(s, pc')"] count_update [OF i, of "\<lambda>c. snd c = Claimed" "(s, pc')"]
    by (simp_all add: recorded_def claims_def st' c)
  have calls': "mt_calls st' = (mt_calls st)[i := (s, pc')]" "mt_meter st' = m" by (simp_all add: st')
  show ?thesis
  proof (cases pc)
    case Begin
    with op b s have "pc' = (if t = slot then Hit else Miss t)" "m = mt_meter st" by simp_all
    with Begin phase rec' cl' calls free inv b s show ?thesis
      by (auto simp: new_inv_def Let_def calls' new_call_def unclaimed_def)
  next
    case Hit
    with op b s have m: "pc' = Recorded" "m = (mt_meter st)[bucket_of slot := (t, n + 1)]" by simp_all
    have "t = slot" using phase un Hit by (auto simp: unclaimed_def)
    moreover have "unat (n + 1) = Suc (unat n)" if "unat n \<le> recorded st"
      using that recorded_less [OF i] inv(3) c Hit by (intro unat_Suc_no_wrap) simp
    ultimately show ?thesis using Hit m phase rec' cl' calls inv s
      by (auto simp: new_inv_def Let_def calls' new_call_def)
  next
    case Claimed
    with op b s have m: "pc' = Recorded" "m = (mt_meter st)[bucket_of slot := (t, 1)]" by simp_all
    have "0 < claims st" using claims_pos [OF i] c Claimed by simp
    then have "t = slot" "claims st = 1" using phase unclaimed_none by fastforce+
    with Claimed m rec' cl' calls inv s show ?thesis by (auto simp: new_inv_def Let_def calls' new_call_def)
  next
    case (Miss cur)
    then have cur: "cur = old" using call by (simp add: new_call_def)
    show ?thesis
    proof (cases "t = old")
      case True
      with op b s Miss cur have m: "pc' = Claimed" "m = (mt_meter st)[bucket_of slot := (slot, n)]" by simp_all
      have "claims st = 0" using True phase unclaimed_none inv(2) by auto
      with Miss m cl' calls inv s show ?thesis by (auto simp: new_inv_def Let_def calls' new_call_def)
    next
      case False
      with op b s Miss cur have "pc' = Begin" "m = mt_meter st" by simp_all
      with False Miss phase rec' cl' calls inv b s show ?thesis by (auto simp: new_inv_def Let_def calls' new_call_def)
    qed
  qed (use op in simp)
qed

lemma runs_keep:
  assumes "\<And>i st st'. P st \<Longrightarrow> call_step i st = Some st' \<Longrightarrow> P st'"
  shows "P st \<Longrightarrow> calls_run is st = Some st' \<Longrightarrow> P st'"
  using assms by (induction "is" arbitrary: st) (auto simp: bind_eq_Some_conv)

lemma length_calls: "calls_run is st = Some st' \<Longrightarrow> length (mt_calls st') = length (mt_calls st)"
  by (rule runs_keep [of "\<lambda>s. length (mt_calls s) = length (mt_calls st)"]) (auto elim: call_step_cases)

lemma all_recorded_count: "all_recorded st \<Longrightarrow> recorded st = length (mt_calls st)" "all_recorded st \<Longrightarrow> claims st = 0"
  by (auto simp: all_recorded_def recorded_def claims_def filter_id_conv filter_empty_conv)

section \<open>Properties\<close>

text \<open>\<open>record\<close> is lock-free: however \<open>t\<close> concurrent calls interleave, also for different slots and buckets, they make at
  most \<open>2 t\<^sup>2 + 3 t\<close> atomic operations together, and as long as one of them has not returned one of them can go on: the
  retry loop always ends.\<close>

lemma meter_is_lock_free:
  assumes "calls_run is (calls_begin nows m) = Some st"
  shows "length is \<le> 2 * length nows * length nows + 3 * length nows
    \<and> (\<not> all_recorded st \<longrightarrow> (\<exists>i st'. call_step i st = Some st'))"
  using meter_work_runs [OF assms] meter_work_begin [of nows m] some_call_enabled [of st] by auto

text \<open>C38. What concurrent calls count: when all of \<open>t\<close> calls in one slot have returned, the bucket is at the slot; if it was
  there before, it has counted every one of them, and if they were the first of a new slot, at least one and never
  more than \<open>t\<close>: only calls that meet the claim of a new slot can be lost, and none is counted twice.\<close>

theorem meter_counts_concurrent_calls:
  assumes "calls_run is (calls_begin nows m) = Some st" "all_recorded st" "nows \<noteq> []"
    and "\<And>now. now \<in> set nows \<Longrightarrow> now div SLOT_MS = slot"
    and "bucket_of slot < length m" "length nows < 2 ^ 64"
  shows "fst (mt_meter st ! bucket_of slot) = slot
    \<and> (if fst (m ! bucket_of slot) = slot
       then snd (mt_meter st ! bucket_of slot) = snd (m ! bucket_of slot) + of_nat (length nows)
       else 1 \<le> unat (snd (mt_meter st ! bucket_of slot)) \<and> unat (snd (mt_meter st ! bucket_of slot)) \<le> length nows)"
proof -
  have calls: "length (mt_calls st) = length nows"
    using length_calls [OF assms(1)] by (simp add: calls_begin_def)
  obtain old n0 where b: "m ! bucket_of slot = (old, n0)" by (rule prod.exhaust)
  show ?thesis
  proof (cases "old = slot")
    case True
    have "recorded (calls_begin nows m) = 0" by (simp add: recorded_def calls_begin_def filter_empty_conv)
    then have start: "open_inv slot n0 (calls_begin nows m)"
      using assms(4,5) b True by (simp add: open_inv_def calls_begin_def open_call_def list_all_iff)
    have "open_inv slot n0 st" by (rule runs_keep [of "open_inv slot n0", OF _ start assms(1)]) (rule open_inv_step)
    then show ?thesis using b True all_recorded_count(1) [OF assms(2)] calls by (simp add: open_inv_def)
  next
    case False
    have start: "new_inv slot old (calls_begin nows m)"
      using assms(4,5,6) b False
      by (simp add: new_inv_def calls_begin_def new_call_def unclaimed_def list_all_iff)
    have inv: "new_inv slot old st" by (rule runs_keep [of "new_inv slot old", OF _ start assms(1)]) (rule new_inv_step)
    have "\<not> list_all unclaimed (mt_calls st)"
    proof
      assume "list_all unclaimed (mt_calls st)"
      then have "mt_calls st = []" using assms(2) by (cases "mt_calls st") (auto simp: unclaimed_def all_recorded_def)
      then show False using calls assms(3) by simp
    qed
    then show ?thesis using inv b False all_recorded_count [OF assms(2)] calls by (auto simp: new_inv_def Let_def)
  qed
qed

text \<open>Two calls open slot 5 of a fresh meter: the second finds the bucket claimed and adds before the first resets.\<close>

definition lossy_schedule :: "nat list" where
  "lossy_schedule = [0, 0, 1, 1, 0]"

lemma lossy_run:
  "\<exists>st. calls_run lossy_schedule (calls_begin [500, 510] rps_meter_new) = Some st \<and> all_recorded st
     \<and> mt_meter st ! 5 = (5, 1)"
  by (simp add: lossy_schedule_def calls_begin_def call_step_def bucket_of_def rps_meter_new_def SLOTS_def SLOT_MS_def
      all_recorded_def)

text \<open>A bucket is claimed before its count is reset: a reader in between takes the count of a slot one second ago, here seven,
  for that of the new slot, which has one.\<close>

lemma stale_count_is_read:
  "let m = rps_meter_new[0 := (0, 7)] in
   current_rps 1000 m = of_u64 0
   \<and> (\<exists>st. calls_run [0, 0] (calls_begin [1000] m) = Some st \<and> current_rps 1000 (mt_meter st) = of_u64 7)
   \<and> (\<exists>st. calls_run [0, 0, 0] (calls_begin [1000] m) = Some st \<and> current_rps 1000 (mt_meter st) = of_u64 1)"
proof -
  have new: "rps_meter_new = [(u64_max, 0), (u64_max, 0), (u64_max, 0), (u64_max, 0), (u64_max, 0),
      (u64_max, 0), (u64_max, 0), (u64_max, 0), (u64_max, 0), (u64_max, 0)]"
    by (simp add: rps_meter_new_def SLOTS_def) (simp add: eval_nat_numeral)
  show ?thesis
    by (simp add: new calls_begin_def call_step_def bucket_of_def SLOTS_def SLOT_MS_def current_rps_def saturating_sub_def Let_def)
qed

theorem meter_counts_concurrent_calls_witness:
  "\<exists>st. calls_run lossy_schedule (calls_begin [500, 510] rps_meter_new) = Some st
     \<and> fst (mt_meter st ! bucket_of 5) = 5 \<and> unat (snd (mt_meter st ! bucket_of 5)) \<in> {1, 2}"
proof -
  obtain st where st: "calls_run lossy_schedule (calls_begin [500, 510] rps_meter_new) = Some st" "all_recorded st"
    using lossy_run by blast
  have "bucket_of 5 < length rps_meter_new" "fst (rps_meter_new ! bucket_of 5) \<noteq> 5"
    "\<And>now. now \<in> set [500, 510] \<Longrightarrow> now div SLOT_MS = 5"
    by (auto simp: bucket_of_def rps_meter_new_def SLOTS_def SLOT_MS_def)
  with meter_counts_concurrent_calls [OF st, of 5] have
    "fst (mt_meter st ! bucket_of 5) = 5" "1 \<le> unat (snd (mt_meter st ! bucket_of 5))"
    "unat (snd (mt_meter st ! bucket_of 5)) \<le> 2" by simp_all
  with st(1) show ?thesis by auto
qed

end
