(* ===== verification/Unit_Tests.thy ===== *)
theory Unit_Tests
  imports Sched Rounding Mock
begin

text \<open>
  The repository's own tests of the scheduler (\<open>sched.rs\<close>, \<open>tests/sched_proptest.rs\<close>) and of the mock target
  (\<open>mock/src/lib.rs\<close>), as executable predicates over the model: the assertions of a test are its conjuncts. The model
  passes each of them, which checks it against the expectations the authors wrote down.
\<close>

section \<open>Tests of the scheduler\<close>

definition intended_send_times_step_by_the_interval :: bool where
  "intended_send_times_step_by_the_interval =
     (let s0 = conn_sched_new 0 (f64_lit 1000 / f64_lit 1000000);
          t0 = intended_send_time s0;
          s1 = advance s0;
          t1 = intended_send_time s1;
          s2 = advance s1;
          t2 = intended_send_time s2
      in t1 - t0 = 1000 \<and> t2 - t1 = 1000)"

definition on_schedule_returns_remaining_wait :: bool where
  "on_schedule_returns_remaining_wait =
     (let s0 = conn_sched_new 0 (f64_lit (1 / 1000));
          (w1, s1) = usec_to_next_send s0 0;
          s2 = advance s1;
          (w2, s3) = usec_to_next_send s2 600
      in w1 = 0 \<and> w2 = 400)"

definition behind_engages_catch_up :: bool where
  "behind_engages_catch_up =
     (let s0 = advance (conn_sched_new 0 (f64_lit (1 / 1000)));
          (w1, s1) = usec_to_next_send s0 4000;
          s2 = advance s1;
          (w2, s3) = usec_to_next_send s2 4000
      in w1 = 0 \<and> \<not> caught_up s1 \<and> w2 = 500)"

definition catch_up_flag_resets_when_back_on_pace :: bool where
  "catch_up_flag_resets_when_back_on_pace =
     (let s0 = advance (conn_sched_new 0 (f64_lit (1 / 1000)));
          (w1, s1) = usec_to_next_send s0 5000;
          (w2, s2) = usec_to_next_send (s1\<lparr>complete := 50\<rparr>) 10000
      in \<not> caught_up s1 \<and> caught_up s2)"

text \<open>\<open>never_back n s\<close> is the loop of the monotonicity tests: \<open>n\<close> times, advance and compare.\<close>

fun never_back :: "nat \<Rightarrow> conn_sched \<Rightarrow> bool" where
  "never_back 0 s = True"
| "never_back (Suc n) s =
     (let s' = advance s in intended_send_time s \<le> intended_send_time s' \<and> never_back n s')"

definition intended_send_times_are_monotonic :: bool where
  "intended_send_times_are_monotonic = never_back 10000 (conn_sched_new 123456 (f64_lit (17 / 10000)))"

definition ramp_intended_times_match_inverse_integral :: bool where
  "ramp_intended_times_match_inverse_integral =
     (let s = conn_sched_ramp 0 1000000 (f64_lit (1 / 1000));
          t_end = intended_send_time ((advance ^^ 500) s)
      in intended_send_time s = 0 \<and> never_back 500 s \<and> 990000 \<le> t_end \<and> t_end \<le> 1010000)"

definition ramp_fires_immediately_when_behind :: bool where
  "ramp_fires_immediately_when_behind =
     (let s0 = advance (conn_sched_ramp 0 1000000 (f64_lit (1 / 1000)));
          (w, s1) = usec_to_next_send s0 1000000
      in w = 0 \<and> \<not> caught_up s1)"

text \<open>The two property tests, for one choice of the generated values.\<close>

definition intended_send_times_monotonic :: "u64 \<Rightarrow> f64 \<Rightarrow> nat \<Rightarrow> bool" where
  "intended_send_times_monotonic start rps n = never_back n (conn_sched_new start (rps / f64_lit 1000000))"

definition catch_up_never_overshoots :: "f64 \<Rightarrow> u64 \<Rightarrow> u64 \<Rightarrow> bool" where
  "catch_up_never_overshoots rps behind_us k =
     (let s = (conn_sched_new 0 (rps / f64_lit 1000000))\<lparr>complete := k\<rparr>;
          now = intended_send_time s + behind_us;
          wait = fst (usec_to_next_send s now);
          original_interval_us = as_u64 (f64_lit 1000000 / rps)
      in wait \<le> saturating_add original_interval_us 1)"

section \<open>Tests of the mock target\<close>

definition test_params :: "mode \<Rightarrow> f64 \<Rightarrow> f64 \<Rightarrow> params" where
  "test_params mode cliff pct =
     \<lparr> pr_mode = mode, pr_cliff_rps = cliff, pr_pct = pct, pr_base_latency_ms = 0 \<rparr>"

definition meter_counts_within_one_second_window :: bool where
  "meter_counts_within_one_second_window =
     (let m = fold meter_record (map of_nat [0..<50]) rps_meter_new in current_rps 60 m = f64_lit 50)"

definition meter_drops_old_slots :: bool where
  "meter_drops_old_slots =
     (let m = fold meter_record (map (\<lambda>i. of_nat i * 100) [0..<10]) rps_meter_new
      in current_rps 900 m = f64_lit 10 \<and> current_rps 1500 m = f64_lit 4)"

definition below_cliff_always_healthy_even_in_injection_mode :: bool where
  "below_cliff_always_healthy_even_in_injection_mode =
     list_all (\<lambda>mode. let d = decide (test_params mode (f64_lit 100) (f64_lit 100)) (f64_lit 50) 0
       in \<not> de_injected d \<and> de_status d = 200 \<and> de_body d = HEALTHY_BODY)
       [Fast500, Truncate, WrongValue, SlowOk, Ratelimit]"

definition above_cliff_injects_per_mode :: bool where
  "above_cliff_injects_per_mode =
     (let answer = (\<lambda>mode. decide (test_params mode (f64_lit 100) (f64_lit 100)) (f64_lit 200) 0);
          trunc = answer Truncate;
          wrong = answer WrongValue;
          slow = answer SlowOk;
          rl = answer Ratelimit
      in de_status (answer Fast500) = 500
         \<and> de_status trunc = 200 \<and> de_body trunc = TRUNCATE_BODY
         \<and> de_body wrong = WRONG_VALUE_BODY
         \<and> de_status slow = 200 \<and> de_body slow = HEALTHY_BODY \<and> de_latency_ms slow = SLOW_PENALTY_MS
         \<and> de_status rl = 429 \<and> de_retry_after_secs rl = Some 1)"

definition healthy_mode_never_injects_above_cliff :: bool where
  "healthy_mode_never_injects_above_cliff =
     (let d = decide (test_params Healthy (f64_lit 0) (f64_lit 100)) (f64_lit 9999) 0
      in \<not> de_injected d \<and> de_status d = 200)"

definition pct_selects_a_fraction_above_cliff :: bool where
  "pct_selects_a_fraction_above_cliff =
     (let p = test_params Fast500 (f64_lit 0) (f64_lit 50);
          injected = length (filter (\<lambda>n. de_injected (decide p (f64_lit 10) (of_nat n))) [0..<100])
      in injected = 50)"

section \<open>The model passes them\<close>

lemma never_back_sound:
  assumes "sound_schedule (schedule s)" "unat (complete s) + n < 2 ^ 64"
    and "unat (thread_start_us s) + unat (slot_offset (schedule s) (complete s + of_nat n)) < 2 ^ 64"
  shows "never_back n s"
  using assms
proof (induction n arbitrary: s)
  case (Suc n)
  have c: "complete s + 1 + of_nat n = complete s + of_nat (Suc n)" by (simp add: ac_simps)
  have n: "unat (complete s + 1) = unat (complete s) + 1"
    using of_nat_no_wrap [of "complete s" 1] Suc.prems(2) by simp
  have le: "slot_offset (schedule s) (complete s + of_nat 1) \<le> slot_offset (schedule s) (complete s + of_nat (Suc n))"
    by (rule slot_offset_mono [OF Suc.prems(1)])
      (use Suc.prems(2) of_nat_no_wrap [of "complete s" 1] of_nat_no_wrap [of "complete s" "Suc n"]
        in \<open>simp add: word_le_nat_alt\<close>)
  then have "unat (thread_start_us s) + unat (slot_offset (schedule s) (complete s + of_nat 1)) < 2 ^ 64"
    using Suc.prems(3) by (simp add: word_le_nat_alt)
  then have "intended_send_time s \<le> intended_send_time ((advance ^^ 1) s)"
    by (rule intended_slots_monotone [OF Suc.prems(1), rotated]) (use Suc.prems(2) in simp)
  moreover have "never_back n (advance s)"
    by (rule Suc.IH) (simp_all only: advance_simps c n, use Suc.prems in simp_all)
  ultimately show ?case by simp
qed simp

lemma rate_1000rps: "f64_lit 1000 / f64_lit 1000000 = f64_lit (1 / 1000)"
  by (simp add: float_eval)

lemma offsets_1000rps:
  "slot_offset (Constant (f64_lit (1 / 1000))) 0 = 0"
  "slot_offset (Constant (f64_lit (1 / 1000))) 50 = 50000"
  "as_u64 (of_u64 0 / (f64_lit (1 / 1000) * f64_lit 2)) = 0"
  "as_u64 (of_u64 1 / (f64_lit (1 / 1000) * f64_lit 2)) = 500"
  by (simp_all add: float_eval)

lemmas sched_eval = usec_to_next_send_def intended_send_time_def advance_def conn_sched_new_def Let_def rate_1000rps
  slots_1000rps offsets_1000rps

lemma scheduler_tests:
  "intended_send_times_step_by_the_interval"
  "on_schedule_returns_remaining_wait"
  "behind_engages_catch_up"
  "catch_up_flag_resets_when_back_on_pace"
  by (simp_all add: intended_send_times_step_by_the_interval_def on_schedule_returns_remaining_wait_def
      behind_engages_catch_up_def catch_up_flag_resets_when_back_on_pace_def sched_eval del: slot_offset.simps)

lemma monotonic_test: "intended_send_times_are_monotonic"
proof -
  let ?s = "conn_sched_new 123456 (f64_lit (17 / 10000))"
  have fields: "schedule ?s = Constant (f64_lit (17 / 10000))" "complete ?s = 0" "thread_start_us ?s = 123456"
    by (simp_all add: conn_sched_new_def)
  have "sound_schedule (Constant (f64_lit (17 / 10000)))" by (simp only: sound_schedule.simps)
  moreover have "slot_offset (Constant (f64_lit (17 / 10000))) 10000 = 5882352" by (simp add: float_eval)
  ultimately have "never_back 10000 ?s" by (intro never_back_sound) (simp_all only: fields, simp_all)
  then show ?thesis by (simp only: intended_send_times_are_monotonic_def)
qed

text \<open>The ramp of the tests: its 500 requests take exactly the whole second.\<close>

lemma ramp_test_areas:
  "f64_lit 2 * of_u64 1000000 * of_u64 500 / f64_lit (1 / 1000) = Fin 1000000000000"
  "f64_lit 2 * of_u64 1000000 * of_u64 1 / f64_lit (1 / 1000) = Fin 2000000000"
  "f64_lit 2 * of_u64 1000000 * of_u64 0 / f64_lit (1 / 1000) = Fin 0"
  by (simp_all add: float_eval)

lemma ramp_slots:
  "slot_offset (Ramp 1000000 (f64_lit (1 / 1000))) 500 = 1000000"
  "slot_offset (Ramp 1000000 (f64_lit (1 / 1000))) 1 \<le> 1000000"
  "slot_offset (Ramp 1000000 (f64_lit (1 / 1000))) 0 = 0"
  using sqrt_upper [of 2000000000 1000000] sqrt_square [of 1000000]
  by (simp_all only: slot_offset.simps ramp_test_areas) (simp_all add: word_le_nat_alt trunc_u64_def)

lemma ramp_tests: "ramp_intended_times_match_inverse_integral" "ramp_fires_immediately_when_behind"
proof -
  let ?s = "conn_sched_ramp 0 1000000 (f64_lit (1 / 1000))"
  have p: "sound_schedule (schedule ?s)" by (simp add: conn_sched_ramp_def float_eval)
  have fields: "schedule ?s = Ramp 1000000 (f64_lit (1 / 1000))" "complete ?s = 0" "thread_start_us ?s = 0"
    by (simp_all add: conn_sched_ramp_def)
  have forward: "never_back 500 ?s" by (rule never_back_sound [OF p]) (simp_all only: fields, simp_all add: ramp_slots del: slot_offset.simps)
  have "intended_send_time ?s = 0" "intended_send_time (advance ?s) \<le> 1000000"
    by (simp_all only: intended_send_time_def fields advance_simps) (simp_all add: ramp_slots del: slot_offset.simps)
  moreover have "intended_send_time ((advance ^^ 500) ?s) = 1000000"
    by (simp only: intended_advance_pow fields) (simp add: ramp_slots del: slot_offset.simps)
  ultimately show "ramp_intended_times_match_inverse_integral" "ramp_fires_immediately_when_behind"
    using forward poll_behind_ramp [of 1000000 "advance ?s"]
    by (simp_all add: ramp_intended_times_match_inverse_integral_def ramp_fires_immediately_when_behind_def Let_def fields advance_simps)
qed

lemma mock_tests:
  "below_cliff_always_healthy_even_in_injection_mode"
  "above_cliff_injects_per_mode"
  "healthy_mode_never_injects_above_cliff"
  by (simp_all add: below_cliff_always_healthy_even_in_injection_mode_def above_cliff_injects_per_mode_def
      healthy_mode_never_injects_above_cliff_def test_params_def decide_def f64_clamp_def Let_def float_eval)

lemma meters:
  "fold meter_record (map of_nat [0..<50]) rps_meter_new = (0, 50) # replicate 9 (u64_max, 0)"
  "fold meter_record (map (\<lambda>i. of_nat i * 100) [0..<10]) rps_meter_new = map (\<lambda>i. (of_nat i, 1)) [0..<10]"
  by code_simp+

lemma meter_tests: "meter_counts_within_one_second_window" "meter_drops_old_slots"
  by (simp_all only: meter_counts_within_one_second_window_def meter_drops_old_slots_def Let_def meters)
    (simp_all add: upt_conv_Cons current_rps_def SLOT_MS_def SLOTS_def saturating_sub_def sum_list_replicate word_le_nat_alt float_eval)

lemma pct_test: "pct_selects_a_fraction_above_cliff"
  using injection_is_exact [of 0 "test_params Fast500 (f64_lit 0) (f64_lit 50)" "f64_lit 10"]
  by (simp add: pct_selects_a_fraction_above_cliff_def Let_def test_params_def pct_limit_def f64_clamp_def float_eval)

lemmas unit_tests_pass = scheduler_tests monotonic_test ramp_tests mock_tests meter_tests pct_test

section \<open>The property tests\<close>

text \<open>At one request per second or more, a slot lies at most a second and a microsecond after the one before it.\<close>

lemma slots_at_one_rps:
  assumes "Fin 1 \<le> rps" "rps < Fin 100000" "n \<le> 1000"
  shows "unat (slot_offset (Constant (rps / f64_lit 1000000)) n) \<le> 2 ^ 40"
proof -
  obtain r where r: "rps = Fin r" "1 \<le> r" "r < 100000" using assms(1,2) by (cases rps) (auto simp: less_eq_f64_def)
  have million: "f64_lit 1000000 = Fin 1000000" using mk64_int [of 1000000] by simp
  have low: "mk64 (1 / 2 ^ 20) = Fin (1 / 2 ^ 20)" and high: "mk64 1 = Fin 1" by (simp_all add: float_eval)
  have rate: "rps / f64_lit 1000000 = mk64 (r / 1000000)" unfolding million by (simp add: r(1))
  have "mk64 (1 / 2 ^ 20) \<le> mk64 (r / 1000000)" "mk64 (r / 1000000) \<le> mk64 1"
    using r(2,3) by (intro mk64_mono; simp)+
  then have "Fin (1 / 2 ^ 20) \<le> rps / f64_lit 1000000" "rps / f64_lit 1000000 \<le> Fin 1" by (simp_all only: rate low high)
  then obtain q where q: "rps / f64_lit 1000000 = Fin q" "1 / 2 ^ 20 \<le> q"
    by (cases "rps / f64_lit 1000000") (auto simp: less_eq_f64_def)
  have "0 < q" using q(2) by (rule less_le_trans [rotated]) simp
  have n: "of_u64 n = Fin (of_nat (unat n))" using assms(3) by (intro of_u64_small) (simp add: word_le_nat_alt)
  have "of_nat (unat n) \<le> (1000 :: rat)" using assms(3) of_nat_mono [of "unat n" 1000, where 'a = rat] by (simp add: word_le_nat_alt)
  also have "\<dots> \<le> 2 ^ 40 * (1 / 2 ^ 20)" by simp
  also have "\<dots> \<le> 2 ^ 40 * q" using q(2) by (intro mult_left_mono) simp_all
  finally have "of_nat (unat n) / q \<le> 2 ^ 40" using \<open>0 < q\<close> by (simp add: divide_le_eq)
  then have "of_u64 n / Fin q \<le> mk64 (of_int (2 ^ 40))" using \<open>0 < q\<close> by (simp add: n mk64_mono)
  then have "as_u64 (of_u64 n / Fin q) \<le> as_u64 (mk64 (of_int (2 ^ 40)))" by (rule as_u64_mono)
  also have "mk64 (of_int (2 ^ 40)) = Fin (of_int (2 ^ 40))" by (rule mk64_int) simp
  also have "as_u64 (Fin (of_int (2 ^ 40))) = 2 ^ 40" by (simp add: trunc_u64_def)
  finally show ?thesis by (simp add: q(1) word_le_nat_alt)
qed

text \<open>C30. The property tests of the scheduler hold for every value their generators can produce, not only for those a run of
  the tests happens to draw: at any rate from one to a hundred thousand requests per second the intended send times never go
  back over a thousand requests, and whoever is behind waits at most one interval of the rate, rounded up, for the next
  slot.\<close>

theorem property_tests_hold:
  assumes "Fin 1 \<le> rps" "rps < Fin 100000"
    and "start < 1000000" "n < 1000" and "1 \<le> behind_us" "behind_us < 10000000" and "k < 1000"
  shows "intended_send_times_monotonic start rps n \<and> catch_up_never_overshoots rps behind_us k"
proof
  let ?s = "conn_sched_new start (rps / f64_lit 1000000)"
  have fields: "schedule ?s = Constant (rps / f64_lit 1000000)" "complete ?s = 0" "thread_start_us ?s = start"
    by (simp_all add: conn_sched_new_def)
  have "(of_nat n :: u64) \<le> 1000" using assms(4) by (simp add: word_le_nat_alt unat_of_nat take_bit_nat_eq_self)
  from slots_at_one_rps [OF assms(1,2) this] show "intended_send_times_monotonic start rps n"
    unfolding intended_send_times_monotonic_def
    by (intro never_back_sound) (simp_all only: fields, use assms(3,4) in \<open>simp_all add: word_less_nat_alt del: slot_offset.simps\<close>)
next
  let ?s = "(conn_sched_new 0 (rps / f64_lit 1000000))\<lparr>complete := k\<rparr>"
  have fields: "schedule ?s = Constant (rps / f64_lit 1000000)" "intended_send_time ?s = slot_offset (schedule ?s) k" "caught_up ?s"
    by (simp_all add: conn_sched_new_def intended_send_time_def)
  have "unat (intended_send_time ?s + behind_us) = unat (intended_send_time ?s) + unat behind_us"
    using slots_at_one_rps [OF assms(1,2), of k] assms(6,7)
    by (simp add: fields unat_plus_if_size word_size word_less_nat_alt word_le_nat_alt del: slot_offset.simps)
  then have "\<not> intended_send_time ?s + behind_us < intended_send_time ?s" by (simp add: word_less_nat_alt)
  from poll_falls_behind [OF this fields(1,3)] show "catch_up_never_overshoots rps behind_us k"
    by (simp add: catch_up_never_overshoots_def Let_def)
qed

theorem property_tests_hold_witness:
  "intended_send_times_monotonic 999999 (Fin 250) 999 \<and> catch_up_never_overshoots (Fin 250) 9999999 999"
  by (rule property_tests_hold) simp_all

end
