(* ===== verification/Sse.thy ===== *)
theory Sse
  imports Utf8
begin

text \<open>
  The server-sent events of the command-line client: the read loop of \<open>stream_ticks\<close> and \<open>parse_sse\<close> of
  \<open>cli/src/main.rs\<close>, with \<open>String::from_utf8_lossy\<close>, and the frames the control plane writes
  (\<open>control/internal/api/stream.go\<close>). The locale \<open>incremental\<close> is what makes a reader independent of how its input is cut.
\<close>

section \<open>Chunks\<close>

text \<open>A character that is cut by a chunk boundary is lost: \<open>C3 A9\<close> is one letter, each half alone is replaced.\<close>

lemma cut_character_is_corrupted:
  "from_utf8_lossy (map char_of [0xC3, 0xA9 :: nat]) = map char_of [0xC3, 0xA9 :: nat]"
  "from_utf8_lossy (map char_of [0xC3 :: nat]) @ from_utf8_lossy (map char_of [0xA9 :: nat]) = REPLACEMENT @ REPLACEMENT"
  by (simp_all add: from_utf8_lossy.simps utf8_step_def utf8_width_def utf8_second_def byte_at_def cont_byte_def
      REPLACEMENT_def of_char_of)

section \<open>Blocks\<close>

definition NL :: char where
  "NL = CHR 0x0A"

definition CR :: char where
  "CR = CHR 0x0D"

text \<open>\<open>str::find\<close> of an empty line.\<close>

fun find_blank :: "string \<Rightarrow> nat option" where
  "find_blank (a # b # cs) = (if a = NL \<and> b = NL then Some 0 else map_option Suc (find_blank (b # cs)))"
| "find_blank _ = None"

lemma find_blank_bound: "find_blank s = Some i \<Longrightarrow> i + 2 \<le> length s"
  by (induction s arbitrary: i rule: find_blank.induct) (auto split: if_splits)

function drain_blocks :: "string \<Rightarrow> string list \<times> string" where
  "drain_blocks buf =
     (case find_blank buf of
        None \<Rightarrow> ([], buf)
      | Some i \<Rightarrow> (let (blocks, rest) = drain_blocks (drop (i + 2) buf) in (take (i + 2) buf # blocks, rest)))"
  by pat_completeness auto
termination
  by (relation "measure length") (auto dest: find_blank_bound)

declare drain_blocks.simps [simp del]

lemma find_blank_append: "find_blank s = Some i \<Longrightarrow> find_blank (s @ t) = Some i"
  by (induction s arbitrary: i rule: find_blank.induct) (auto split: if_splits)

lemma drain_blocks_append:
  "drain_blocks (s @ t) =
     (let (xs, r) = drain_blocks s; (ys, r') = drain_blocks (r @ t) in (xs @ ys, r'))"
proof (induction s rule: drain_blocks.induct)
  case (1 s)
  show ?case
  proof (cases "find_blank s")
    case None
    then show ?thesis by (simp add: drain_blocks.simps [of s])
  next
    case (Some i)
    have i: "i + 2 \<le> length s" by (rule find_blank_bound [OF Some])
    have "drain_blocks (drop (i + 2) s @ t) =
      (let (xs, r) = drain_blocks (drop (i + 2) s); (ys, r') = drain_blocks (r @ t) in (xs @ ys, r'))"
      by (rule 1 [OF Some])
    then show ?thesis
      using i by (simp add: drain_blocks.simps [of s] drain_blocks.simps [of "s @ t"] Some find_blank_append [OF Some]
          split: prod.split)
  qed
qed

text \<open>Nothing is lost, and what is left holds no complete block.\<close>

lemma drain_blocks_concat: "drain_blocks s = (xs, r) \<Longrightarrow> concat xs @ r = s"
proof (induction s arbitrary: xs rule: drain_blocks.induct)
  case (1 s)
  show ?case
  proof (cases "find_blank s")
    case (Some i)
    obtain ys r' where d: "drain_blocks (drop (i + 2) s) = (ys, r')" by fastforce
    then have "xs = take (i + 2) s # ys" "r' = r" using 1(2) Some by (simp_all add: drain_blocks.simps [of s])
    with 1(1) [OF Some, of ys] d show ?thesis by simp
  qed (use 1(2) in \<open>simp add: drain_blocks.simps [of s]\<close>)
qed

lemma drain_blocks_rest: "drain_blocks s = (xs, r) \<Longrightarrow> find_blank r = None"
proof (induction s arbitrary: xs rule: drain_blocks.induct)
  case (1 s)
  show ?case
  proof (cases "find_blank s")
    case (Some i)
    obtain ys r' where d: "drain_blocks (drop (i + 2) s) = (ys, r')" by fastforce
    then have "r' = r" using 1(2) Some by (simp add: drain_blocks.simps [of s])
    with 1(1) [OF Some, of ys] d show ?thesis by simp
  qed (use 1(2) in \<open>simp add: drain_blocks.simps [of s]\<close>)
qed

section \<open>One block\<close>

text \<open>\<open>str::split\<close>, \<open>trim_end_matches\<close>, \<open>trim_start_matches\<close> and \<open>strip_prefix\<close>.\<close>

fun split_on :: "char \<Rightarrow> string \<Rightarrow> string list" where
  "split_on c [] = [[]]"
| "split_on c (x # xs) = (if x = c then [] # split_on c xs else (x # hd (split_on c xs)) # tl (split_on c xs))"

definition trim_end :: "char \<Rightarrow> string \<Rightarrow> string" where
  "trim_end c s = rev (dropWhile (\<lambda>d. d = c) (rev s))"

definition trim_start :: "char \<Rightarrow> string \<Rightarrow> string" where
  "trim_start c s = dropWhile (\<lambda>d. d = c) s"

definition strip_prefix :: "string \<Rightarrow> string \<Rightarrow> string option" where
  "strip_prefix p s = (if starts_with s p then Some (drop (length p) s) else None)"

record sse_event =
  ev_name :: string
  ev_data :: string

definition sse_line :: "string \<Rightarrow> string \<times> string \<Rightarrow> string \<times> string" where
  "sse_line raw = (\<lambda>(name, data).
     let line = trim_end CR raw in
     (case strip_prefix ''data:'' line of
        Some d \<Rightarrow> (name, (if data \<noteq> [] then data @ [NL] else data) @ trim_start (CHR '' '') d)
      | None \<Rightarrow> (case strip_prefix ''event:'' line of
          Some e \<Rightarrow> (trim_start (CHR '' '') e, data)
        | None \<Rightarrow> (name, data))))"

definition parse_sse :: "string \<Rightarrow> sse_event option" where
  "parse_sse block =
     (let (name, data) = fold sse_line (split_on NL block) (''message'', []) in
      if data = [] then None else Some \<lparr> ev_name = name, ev_data = data \<rparr>)"

section \<open>The read loop\<close>

text \<open>\<open>handle\<close> is what the client does with an event. \<open>Sse_End\<close> is the end of the body.\<close>

datatype sse_read = Sse_Chunk bytes | Sse_Read_Error string | Sse_End

definition handle_block :: "(sse_event \<Rightarrow> 's \<Rightarrow> 's) \<Rightarrow> string \<Rightarrow> 's \<Rightarrow> 's" where
  "handle_block handle block st = (case parse_sse block of None \<Rightarrow> st | Some ev \<Rightarrow> handle ev st)"

definition feed :: "(sse_event \<Rightarrow> 's \<Rightarrow> 's) \<Rightarrow> string \<times> 's \<Rightarrow> string \<Rightarrow> string \<times> 's" where
  "feed handle = (\<lambda>(buf, st) text.
     let (blocks, rest) = drain_blocks (buf @ text) in (rest, fold (handle_block handle) blocks st))"

text \<open>The loop returns when the body ends or a read fails; \<open>None\<close> is a loop that still waits. An error is the text that
  \<open>Display\<close> of an \<open>anyhow::Error\<close> gives, its outermost context.\<close>

fun read_loop ::
  "(sse_event \<Rightarrow> 's \<Rightarrow> 's) \<Rightarrow> string \<times> 's \<Rightarrow> sse_read list \<Rightarrow> 's \<times> (string + unit) option" where
  "read_loop handle s [] = (snd s, None)"
| "read_loop handle s (Sse_Chunk c # rs) = read_loop handle (feed handle s (from_utf8_lossy c)) rs"
| "read_loop handle s (Sse_Read_Error e # rs) = (snd s, Some (Inl ''read sse chunk''))"
| "read_loop handle s (Sse_End # rs) = (snd s, Some (Inr ()))"

text \<open>A reader that can be fed its input in pieces.\<close>

locale incremental =
  fixes feed_text :: "'s \<Rightarrow> string \<Rightarrow> 's"
    and waiting :: "'s \<Rightarrow> bool"
  assumes feed_append: "feed_text (feed_text s a) b = feed_text s (a @ b)"
    and feed_nil: "waiting s \<Longrightarrow> feed_text s [] = s"
    and feed_waiting: "waiting (feed_text s a)"
begin

lemma feed_concat: "waiting s \<Longrightarrow> fold (\<lambda>c s. feed_text s c) cs s = feed_text s (concat cs)"
  by (induction cs arbitrary: s) (simp_all add: feed_nil feed_waiting feed_append)

lemma feed_any_cut:
  "waiting s \<Longrightarrow> concat cs = concat ds \<Longrightarrow> fold (\<lambda>c s. feed_text s c) cs s = fold (\<lambda>c s. feed_text s c) ds s"
  by (simp add: feed_concat)

end

definition no_block_left :: "string \<times> 's \<Rightarrow> bool" where
  "no_block_left s \<longleftrightarrow> find_blank (fst s) = None"

interpretation sse: incremental "feed handle" no_block_left for handle :: "sse_event \<Rightarrow> 's \<Rightarrow> 's"
proof unfold_locales
  fix s :: "string \<times> 's" and a b :: string
  show "feed handle (feed handle s a) b = feed handle s (a @ b)"
    using drain_blocks_append [of "fst s @ a" b] by (cases s) (simp add: feed_def split: prod.split)
  show "no_block_left (feed handle s a)"
    using drain_blocks_rest by (cases s) (auto simp: feed_def no_block_left_def split: prod.split)
  show "feed handle s [] = s" if "no_block_left s"
    using that by (cases s) (simp add: feed_def no_block_left_def drain_blocks.simps)
qed

lemma read_loop_chunks:
  "read_loop handle s (map Sse_Chunk cs @ rs) = read_loop handle (fold (\<lambda>c s. feed handle s c) (map from_utf8_lossy cs) s) rs"
  by (induction cs arbitrary: s) simp_all

text \<open>However a stream is cut into chunks of whole characters, the client does the same.\<close>

lemma read_loop_any_cut:
  assumes "\<forall>c\<in>set cs. utf8_valid (map of_char c)" "no_block_left s"
  shows "read_loop handle s (map Sse_Chunk cs @ rs) = read_loop handle (feed handle s (concat cs)) rs"
proof -
  have "map from_utf8_lossy cs = cs" using assms(1) by (simp add: from_utf8_lossy_valid map_idI)
  then show ?thesis by (simp add: read_loop_chunks sse.feed_concat [OF assms(2)])
qed

section \<open>What the control plane sends\<close>

datatype sse_message = Comment string | Tick_Event u64 string

fun frame_lines :: "sse_message \<Rightarrow> string list" where
  "frame_lines (Comment c) = ['': '' @ c]"
| "frame_lines (Tick_Event elapsed payload) =
     [''event: tick'', ''id: '' @ decimal (unat elapsed), ''data: '' @ payload]"

definition sse_frame :: "sse_message \<Rightarrow> string" where
  "sse_frame m = concat (map (\<lambda>l. l @ [NL]) (frame_lines m)) @ [NL]"

text \<open>JSON objects are such payloads: they have no line break and begin and end with a brace.\<close>

fun clean_message :: "sse_message \<Rightarrow> bool" where
  "clean_message (Comment c) \<longleftrightarrow> NL \<notin> set c"
| "clean_message (Tick_Event elapsed p) \<longleftrightarrow> NL \<notin> set p \<and> p \<noteq> [] \<and> hd p \<noteq> CHR '' '' \<and> last p \<noteq> CR"

lemma find_blank_lines:
  assumes "\<forall>l\<in>set ls. l \<noteq> [] \<and> NL \<notin> set l" "ls \<noteq> []"
  shows "find_blank (concat (map (\<lambda>l. l @ [NL]) ls) @ NL # t) = Some (length (concat (map (\<lambda>l. l @ [NL]) ls)) - 1)"
proof -
  have line: "find_blank (l @ NL # NL # u) = Some (length l)" if "NL \<notin> set l" for l u
    using that by (induction l rule: find_blank.induct) auto
  have skip: "find_blank (l @ NL # c # u) = map_option ((+) (Suc (length l))) (find_blank (c # u))"
    if "NL \<notin> set l" "c \<noteq> NL" for l c u
    using that by (induction l rule: find_blank.induct) (auto simp: option.map_comp comp_def intro!: option.map_cong0)
  show ?thesis
    using assms
  proof (induction ls)
    case (Cons l ls)
    show ?case
    proof (cases ls)
      case Nil
      then show ?thesis using Cons.prems line [of l t] by simp
    next
      case (Cons l' ls')
      then obtain c u where "l' = c # u" "c \<noteq> NL" using Cons.prems by (cases l') auto
      then show ?thesis
        using Cons.IH Cons.prems skip [of l c] by (simp add: Cons)
    qed
  qed simp
qed

lemma NL_not_in_decimal: "NL \<notin> set (decimal n)"
proof (induction n rule: decimal.induct)
  case (1 n)
  have "NL \<noteq> char_of (48 + k)" if "k < 10" for k :: nat
  proof
    assume "NL = char_of (48 + k)"
    then have "(of_char (char_of (48 + k) :: char) :: nat) = of_char NL" by simp
    with that show False by (simp add: NL_def)
  qed
  with 1 show ?case by (cases "n < 10") (simp_all add: decimal.simps [of n])
qed

lemma frame_lines_ok: "clean_message m \<Longrightarrow> (\<forall>l\<in>set (frame_lines m). l \<noteq> [] \<and> NL \<notin> set l) \<and> frame_lines m \<noteq> []"
  by (cases m) (simp_all add: NL_not_in_decimal, simp_all add: NL_def)

lemma drain_blocks_frame:
  assumes "clean_message m"
  shows "drain_blocks (sse_frame m @ t) = (let (bs, r) = drain_blocks t in (sse_frame m # bs, r))"
proof -
  let ?ls = "concat (map (\<lambda>l. l @ [NL]) (frame_lines m))"
  have ok: "\<forall>l\<in>set (frame_lines m). l \<noteq> [] \<and> NL \<notin> set l" "frame_lines m \<noteq> []"
    using frame_lines_ok [OF assms] by blast+
  have "find_blank (sse_frame m @ t) = Some (length ?ls - 1)"
    using find_blank_lines [OF ok] by (simp add: sse_frame_def)
  moreover have "length ?ls - 1 + 2 = length (sse_frame m)"
    using ok(2) by (cases "frame_lines m") (simp_all add: sse_frame_def)
  ultimately show ?thesis by (simp add: drain_blocks.simps [of "sse_frame m @ t"])
qed

lemma split_on_line: "c \<notin> set l \<Longrightarrow> split_on c (l @ c # t) = l # split_on c t"
  by (induction l) auto

lemma split_on_frame:
  "clean_message m \<Longrightarrow> split_on NL (sse_frame m) = frame_lines m @ [[], []]"
proof -
  have "split_on NL (concat (map (\<lambda>l. l @ [NL]) ls) @ t) = ls @ split_on NL t" if "\<forall>l\<in>set ls. NL \<notin> set l" for ls t
    using that by (induction ls) (simp_all add: split_on_line)
  then show "clean_message m \<Longrightarrow> ?thesis" using frame_lines_ok [of m] by (simp add: sse_frame_def)
qed

lemma trim_end_keep: "last s \<noteq> c \<Longrightarrow> trim_end c s = s"
  by (cases s rule: rev_cases) (simp_all add: trim_end_def)

lemma trim_end_first: "x \<noteq> c \<Longrightarrow> trim_end c (x # s) = x # trim_end c s"
  by (simp add: trim_end_def dropWhile_append3)

lemma sse_line_other:
  "\<not> starts_with (trim_end CR l) ''data:'' \<Longrightarrow> \<not> starts_with (trim_end CR l) ''event:'' \<Longrightarrow> sse_line l st = st"
  by (cases st) (simp add: sse_line_def Let_def strip_prefix_def)

lemma parse_sse_frame:
  assumes "clean_message m"
  shows "parse_sse (sse_frame m) = (case m of Comment c \<Rightarrow> None
         | Tick_Event elapsed p \<Rightarrow> Some \<lparr> ev_name = ''tick'', ev_data = p \<rparr>)"
proof -
  have [simp]: "sse_line [] st = st" for st by (rule sse_line_other) (simp_all add: trim_end_def)
  have colon: "sse_line ('': '' @ c) st = st" for c st
    by (rule sse_line_other) (simp_all add: trim_end_first CR_def)
  have tick: "sse_line ''event: tick'' (n, d) = (''tick'', d)" for n d
    by (simp add: sse_line_def trim_end_keep CR_def strip_prefix_def trim_start_def)
  have ident: "sse_line (''id: '' @ s) st = st" for s st
    by (rule sse_line_other) (simp_all add: trim_end_first CR_def)
  show ?thesis
  proof (cases m)
    case (Comment c)
    then show ?thesis using assms by (simp add: parse_sse_def split_on_frame colon [simplified])
  next
    case (Tick_Event elapsed p)
    then have p: "p \<noteq> []" "hd p \<noteq> CHR '' ''" "last p \<noteq> CR" using assms by simp_all
    have "trim_start (CHR '' '') (CHR '' '' # p) = p" using p by (cases p) (simp_all add: trim_start_def)
    then have "sse_line (''data: '' @ p) (n, []) = (n, p)" for n
      using p by (simp add: sse_line_def trim_end_keep strip_prefix_def)
    then show ?thesis
      using assms Tick_Event p(1) by (simp add: parse_sse_def split_on_frame tick [simplified] ident [simplified])
  qed
qed

definition deliver :: "(sse_event \<Rightarrow> 's \<Rightarrow> 's) \<Rightarrow> sse_message \<Rightarrow> 's \<Rightarrow> 's" where
  "deliver handle m st =
     (case m of Comment c \<Rightarrow> st | Tick_Event elapsed p \<Rightarrow> handle \<lparr> ev_name = ''tick'', ev_data = p \<rparr> st)"

lemma feed_frames:
  assumes "\<forall>m\<in>set ms. clean_message m"
  shows "feed handle ([], st) (concat (map sse_frame ms)) = ([], fold (deliver handle) ms st)"
proof -
  have drain: "drain_blocks (concat (map sse_frame ms)) = (map sse_frame ms, [])"
    using assms
  proof (induction ms)
    case (Cons m ms)
    then show ?case using drain_blocks_frame [of m "concat (map sse_frame ms)"] by simp
  qed (simp add: drain_blocks.simps)
  have "fold (handle_block handle) (map sse_frame ms) st = fold (deliver handle) ms st"
    using assms
    by (induction ms arbitrary: st) (auto simp: handle_block_def deliver_def parse_sse_frame split: sse_message.split)
  with drain show ?thesis by (simp add: feed_def)
qed

text \<open>Every message is delivered, in order, whatever the chunks; then the loop goes on with what follows.\<close>

lemma read_loop_delivers:
  assumes "\<forall>m\<in>set ms. clean_message m" "\<forall>c\<in>set cs. utf8_valid (map of_char c)"
    and "concat cs = concat (map sse_frame ms)"
  shows "read_loop handle ([], st) (map Sse_Chunk cs @ rs) = read_loop handle ([], fold (deliver handle) ms st) rs"
  using read_loop_any_cut [OF assms(2), of "([], st)"] by (simp add: no_block_left_def assms(3) feed_frames [OF assms(1)])

text \<open>What a handler computes can be read off another one that it commutes with.\<close>

lemma read_loop_map:
  assumes "\<And>ev st. f (handle ev st) = handle' ev (f st)"
  shows "read_loop handle' (buf, f st) rs = map_prod f id (read_loop handle (buf, st) rs)"
proof (induction rs arbitrary: buf st)
  case (Cons r rs)
  have "handle_block handle' b (f st) = f (handle_block handle b st)" for b st
    by (simp add: handle_block_def assms split: option.split)
  then have blocks: "fold (handle_block handle') bs (f st) = f (fold (handle_block handle) bs st)" for bs st
    by (induction bs arbitrary: st) simp_all
  then have "feed handle' (buf, f st) c = map_prod id f (feed handle (buf, st) c)" for c
    by (simp add: feed_def split: prod.split)
  then show ?case
    using Cons.IH by (cases r) (simp_all, metis map_prod_simp id_apply surj_pair)
qed simp

end
