(* ===== verification/Engine_Worker.thy ===== *)
theory Engine_Worker
  imports Cliff
begin

text \<open>
  The command line of the single-process engine, \<open>engine/src/bin/worker.rs\<close>: the run specification it builds, where it
  pushes ticks and the final body, that body, and the correctness score it prints. Parsing of the arguments (clap), the
  printing itself and the base64 encoding are not modelled.
\<close>

section \<open>The command line\<close>

record worker_cli =
  cli_url :: string
  cli_method :: string
  cli_rate :: f64
  cli_duration_s :: u64
  cli_connections :: usize
  cli_timeout_s :: u64
  cli_worker_threads :: usize
  cli_no_keepalive :: bool
  cli_expected_status :: "u16 list"
  cli_ticks :: bool
  cli_push_to :: "string option"
  cli_run_id :: "string option"
  cli_ramp :: bool
  cli_max_latency_ms :: "u64 option"
  cli_min_body_bytes :: "u64 option"
  cli_max_body_bytes :: "u64 option"
  cli_content_type :: "string option"
  cli_sample_every_n :: u32
  cli_max_sampled_body_bytes :: u32
  cli_rate_limit_action :: string
  cli_max_backoff_ms :: u64

definition rate_limit_action_of :: "string \<Rightarrow> rl_action" where
  "rate_limit_action_of s =
     (let a = to_ascii_lowercase s in if a = ''continue'' then Continue else if a = ''abort'' then Abort else Backoff)"

text \<open>The runtime the engine runs on; no number means one thread per core.\<close>

datatype runtime = Current_Thread | Multi_Thread "usize option"

definition runtime_of :: "worker_cli \<Rightarrow> runtime" where
  "runtime_of cli =
     (if cli_worker_threads cli = 1 then Current_Thread
      else Multi_Thread (if 1 < cli_worker_threads cli then Some (cli_worker_threads cli) else None))"

text \<open>\<open>parse_uri\<close> and \<open>parse_method\<close> stand for the http crate; \<open>None\<close> is the error that ends the process.\<close>

definition cli_run_spec ::
  "(string \<Rightarrow> uri option) \<Rightarrow> (string \<Rightarrow> string option) \<Rightarrow> worker_cli \<Rightarrow> run_spec option" where
  "cli_run_spec parse_uri parse_method cli =
     (case parse_uri (cli_url cli) of None \<Rightarrow> None
      | Some u \<Rightarrow> (case parse_method (to_ascii_uppercase (cli_method cli)) of None \<Rightarrow> None
        | Some m \<Rightarrow> Some
          \<lparr> url = u, method_str = m, target_rps = cli_rate cli, duration_s = cli_duration_s cli,
            keepalive = \<not> cli_no_keepalive cli, connections = cli_connections cli,
            timeout_us = unat (cli_timeout_s cli) * 1000000, expected_status = cli_expected_status cli,
            max_latency_us = map_option (\<lambda>ms. ms * 1000) (cli_max_latency_ms cli),
            min_body_bytes = cli_min_body_bytes cli, max_body_bytes = cli_max_body_bytes cli,
            content_type = cli_content_type cli, ramp = cli_ramp cli, sample_every_n = cli_sample_every_n cli,
            max_sampled_body_bytes = cli_max_sampled_body_bytes cli,
            rate_limit_action = rate_limit_action_of (cli_rate_limit_action cli),
            max_backoff_ms = cli_max_backoff_ms cli, record_onset = True \<rparr>))"

section \<open>Pushing to the control plane\<close>

text \<open>\<open>str::trim_end_matches('/')\<close>.\<close>

definition trim_slashes :: "string \<Rightarrow> string" where
  "trim_slashes s = rev (dropWhile (\<lambda>c. c = CHR ''/'') (rev s))"

definition internal_url :: "string \<Rightarrow> worker_cli \<Rightarrow> string option" where
  "internal_url leaf cli =
     (case cli_push_to cli of None \<Rightarrow> None
      | Some base \<Rightarrow> map_option (\<lambda>rid. trim_slashes base @ ''/v1/_internal/runs/'' @ rid @ ''/'' @ leaf) (cli_run_id cli))"

definition push_url :: "worker_cli \<Rightarrow> string option" where
  "push_url cli = internal_url ''tick'' cli"

definition want_ticks :: "worker_cli \<Rightarrow> bool" where
  "want_ticks cli \<longleftrightarrow> cli_ticks cli \<or> push_url cli \<noteq> None"

record engine_finalize =
  ef_effective_rps :: f64
  ef_p50_us :: i64
  ef_p95_us :: i64
  ef_p99_us :: i64
  ef_p999_us :: i64
  ef_total_requests :: i64
  ef_total_pass :: i64
  ef_cliff_rps :: "f64 option"
  ef_status :: string
  ef_corrected_hist :: bytes
  ef_uncorrected_hist :: bytes
  ef_rate_limited :: i64
  ef_rate_limit_onset_rps :: "f64 option"
  ef_backoff_us_total :: i64

section \<open>The tick task\<close>

text \<open>
  Ticks go through an unbounded channel to a task of their own. For each tick it receives it prints the tick, accumulates its
  buckets under the lock, starts the post and waits for its answer; between these steps the engine may send more ticks and the main
  thread may read the buckets. Nobody waits for the task.
\<close>

datatype task_phase = Idle | Printing tick | Accumulating tick | To_Post tick | Posting

record tick_task =
  tq_queue :: "tick list"
  tq_phase :: task_phase
  tq_buckets :: bucket_accum
  tq_printed :: "tick list"
  tq_posted :: "(string \<times> tick) list"
  tq_answered :: nat

definition tick_task_new :: tick_task where
  "tick_task_new =
     \<lparr> tq_queue = [], tq_phase = Idle, tq_buckets = [], tq_printed = [], tq_posted = [], tq_answered = 0 \<rparr>"

definition task_receive :: "tick_task \<Rightarrow> tick_task option" where
  "task_receive st =
     (case (tq_phase st, tq_queue st) of
        (Idle, t # ts) \<Rightarrow> Some (st\<lparr>tq_queue := ts, tq_phase := Printing t\<rparr>)
      | _ \<Rightarrow> None)"

definition task_print :: "worker_cli \<Rightarrow> tick_task \<Rightarrow> tick_task option" where
  "task_print cli st =
     (case tq_phase st of
        Printing t \<Rightarrow> Some (st\<lparr>tq_phase := Accumulating t,
                              tq_printed := (if cli_ticks cli then tq_printed st @ [t] else tq_printed st)\<rparr>)
      | _ \<Rightarrow> None)"

definition task_accumulate :: "tick_task \<Rightarrow> tick_task option" where
  "task_accumulate st =
     (case tq_phase st of
        Accumulating t \<Rightarrow> Some (st\<lparr>tq_phase := To_Post t, tq_buckets := accumulate_tick t (tq_buckets st)\<rparr>)
      | _ \<Rightarrow> None)"

definition task_post :: "worker_cli \<Rightarrow> tick_task \<Rightarrow> tick_task option" where
  "task_post cli st =
     (case tq_phase st of
        To_Post t \<Rightarrow>
          Some (case push_url cli of
                  None \<Rightarrow> st\<lparr>tq_phase := Idle\<rparr>
                | Some u \<Rightarrow> st\<lparr>tq_phase := Posting, tq_posted := tq_posted st @ [(u, t)]\<rparr>)
      | _ \<Rightarrow> None)"

definition task_answered :: "tick_task \<Rightarrow> tick_task option" where
  "task_answered st =
     (case tq_phase st of
        Posting \<Rightarrow> Some (st\<lparr>tq_phase := Idle, tq_answered := tq_answered st + 1\<rparr>)
      | _ \<Rightarrow> None)"

datatype task_event = Sent tick | Received | Printed | Accumulated | Posted | Answered

fun task_step :: "worker_cli \<Rightarrow> task_event \<Rightarrow> tick_task \<Rightarrow> tick_task option" where
  "task_step cli (Sent t) st = Some (st\<lparr>tq_queue := tq_queue st @ [t]\<rparr>)"
| "task_step cli Received st = task_receive st"
| "task_step cli Printed st = task_print cli st"
| "task_step cli Accumulated st = task_accumulate st"
| "task_step cli Posted st = task_post cli st"
| "task_step cli Answered st = task_answered st"

fun sent_by :: "task_event \<Rightarrow> tick list" where
  "sent_by (Sent t) = [t]"
| "sent_by _ = []"

text \<open>The states of the task, with the ticks the engine has sent.\<close>

inductive task_reachable :: "worker_cli \<Rightarrow> tick list \<Rightarrow> tick_task \<Rightarrow> bool" for cli where
  task_start: "task_reachable cli [] tick_task_new"
| task_event: "task_reachable cli ts st \<Longrightarrow> task_step cli ev st = Some st' \<Longrightarrow> task_reachable cli (ts @ sent_by ev) st'"

text \<open>The cliff is computed when the engine has returned, from what the task has accumulated by then. Without a tick channel
  there are no buckets, and so no cliff.\<close>

definition run_cliff_rps :: "tick_task \<Rightarrow> f64 option" where
  "run_cliff_rps st = detect_cliff_rps (tq_buckets st) (f64_lit (95 / 100)) 30"

section \<open>The final body\<close>

definition finalize_push ::
  "'h hdr \<Rightarrow> worker_cli \<Rightarrow> tick_task \<Rightarrow> 'h run_report \<Rightarrow> (string \<times> engine_finalize) option" where
  "finalize_push L cli st rep =
     map_option (\<lambda>u. (u,
       \<lparr> ef_effective_rps = rp_achieved_rps rep, ef_p50_us = p50_us (rp_corrected rep), ef_p95_us = p95_us (rp_corrected rep),
         ef_p99_us = p99_us (rp_corrected rep), ef_p999_us = p999_us (rp_corrected rep),
         ef_total_requests = r_completed (rp_totals rep), ef_total_pass = r_pass (rp_totals rep),
         ef_cliff_rps = run_cliff_rps st, ef_status = ''completed'',
         ef_corrected_hist = serialize_v2 L (corrected (rp_histos rep)),
         ef_uncorrected_hist = serialize_v2 L (uncorrected (rp_histos rep)),
         ef_rate_limited = r_rate_limited (rp_totals rep), ef_rate_limit_onset_rps = rp_first_429_rps rep,
         ef_backoff_us_total = r_backoff_us_total (rp_totals rep) \<rparr>)) (internal_url ''finalize'' cli)"

section \<open>The printed report\<close>

definition correctness_denom :: "conn_result \<Rightarrow> u64" where
  "correctness_denom t = saturating_sub (r_completed t) (r_rate_limited t)"

definition pass_rate :: "conn_result \<Rightarrow> f64" where
  "pass_rate t =
     (if 0 < correctness_denom t then of_u64 (r_pass t) / of_u64 (correctness_denom t) * f64_lit 100 else f64_lit 0)"

text \<open>Responses that are rate limited do not lower the score: if all others passed, it is exactly 100 percent.\<close>

lemma pass_rate_perfect:
  assumes "r_completed t = r_pass t + r_rate_limited t" "unat (r_pass t) + unat (r_rate_limited t) < 2 ^ 53" "r_pass t \<noteq> 0"
  shows "pass_rate t = Fin 100"
proof -
  have "unat (r_completed t) = unat (r_pass t) + unat (r_rate_limited t)"
    using assms(1,2) by (simp add: unat_word_ariths)
  then have "unat (correctness_denom t) = unat (r_pass t)" by (simp add: correctness_denom_def unat_saturating_sub)
  then have denom: "correctness_denom t = r_pass t" by (simp add: word_unat_eq_iff)
  have "of_u64 (r_pass t) = Fin (of_nat (unat (r_pass t)))" using assms(2) by (intro of_u64_small) simp
  moreover have "0 < unat (r_pass t)" using assms(3) by (simp add: unat_gt_0)
  moreover have "mk64 1 = Fin 1" "mk64 100 = Fin 100" using mk64_int [of 1] mk64_int [of 100] by simp_all
  ultimately show ?thesis using assms(3) by (simp add: pass_rate_def denom word_gt_0)
qed

text \<open>The numbers of the report, as they are before they are rounded to the digits shown.\<close>

definition f64_neg :: "f64 \<Rightarrow> f64" where
  "f64_neg x = (case x of Fin r \<Rightarrow> Fin (- r) | PInf \<Rightarrow> NInf | NInf \<Rightarrow> PInf | NaN \<Rightarrow> NaN)"

definition ms_of :: "u64 \<Rightarrow> f64" where
  "ms_of us = of_u64 us / f64_lit 1000"

fun join_comma :: "string list \<Rightarrow> string" where
  "join_comma [] = []"
| "join_comma [s] = s"
| "join_comma (s # ss) = s @ '','' @ join_comma ss"

definition expected_label :: "run_spec \<Rightarrow> string" where
  "expected_label spec =
     (if expected_status spec = [] then ''any 2xx'' else join_comma (map (\<lambda>s. decimal (unat s)) (expected_status spec)))"

definition latency_row :: "summary \<Rightarrow> f64 list" where
  "latency_row sm = map ms_of [p50_us sm, p95_us sm, p99_us sm, p999_us sm, max_us sm]"

record printed_report =
  po_duration_s :: f64
  po_requests :: u64
  po_achieved_rps :: f64
  po_errors :: "(u64 \<times> u64) option"
  po_corrected :: "f64 list"
  po_uncorrected :: "f64 list"
  po_coo_delta_ms :: f64
  po_pass :: u64
  po_denom :: u64
  po_pass_rate :: f64
  po_expected :: string
  po_fail_status :: u64
  po_fail_latency :: u64
  po_fail_size :: u64
  po_fail_content_type :: u64
  po_rate_limited :: u64
  po_onset_rps :: "f64 option"
  po_backoff_s :: f64

definition print_report :: "'h run_report \<Rightarrow> printed_report" where
  "print_report rep =
     (let t = rp_totals rep in
      \<lparr> po_duration_s = mk64 (of_nat (rp_elapsed_ms rep)) / f64_lit 1000,
        po_requests = r_completed t, po_achieved_rps = rp_achieved_rps rep,
        po_errors = (if 0 < r_conn_errors t + r_timeouts t then Some (r_conn_errors t, r_timeouts t) else None),
        po_corrected = latency_row (rp_corrected rep), po_uncorrected = latency_row (rp_uncorrected rep),
        po_coo_delta_ms = (of_u64 (p99_us (rp_corrected rep)) + f64_neg (of_u64 (p99_us (rp_uncorrected rep)))) / f64_lit 1000,
        po_pass = r_pass t, po_denom = correctness_denom t, po_pass_rate = pass_rate t,
        po_expected = expected_label (rp_spec rep),
        po_fail_status = r_fail_status t, po_fail_latency = r_fail_latency t, po_fail_size = r_fail_size t,
        po_fail_content_type = r_fail_content_type t, po_rate_limited = r_rate_limited t,
        po_onset_rps = rp_first_429_rps rep, po_backoff_s = of_u64 (r_backoff_us_total t) / f64_lit 1000000 \<rparr>)"

section \<open>The process\<close>

text \<open>
  \<open>main\<close>: the runtime is built, the specification is made, and the engine is run. \<open>result\<close> is what \<open>run_with_ticks\<close> returns
  and \<open>st\<close> the tick task at that moment. An answer to the final push is only reported, so it is no input.
\<close>

record main_output =
  mo_finalize :: "(string \<times> engine_finalize) option"
  mo_report :: "printed_report option"
  mo_exit_code :: nat

definition engine_main ::
  "'h hdr \<Rightarrow> (string \<Rightarrow> uri option) \<Rightarrow> (string \<Rightarrow> string option) \<Rightarrow> (runtime \<Rightarrow> bool) \<Rightarrow> worker_cli
     \<Rightarrow> (run_spec \<Rightarrow> 'h run_report option) \<Rightarrow> tick_task \<Rightarrow> main_output" where
  "engine_main L parse_uri parse_method builds cli run st =
     (let failed = \<lparr> mo_finalize = None, mo_report = None, mo_exit_code = 1 \<rparr> in
      if \<not> builds (runtime_of cli) then failed
      else (case cli_run_spec parse_uri parse_method cli of
          None \<Rightarrow> failed
        | Some spec \<Rightarrow> (case run spec of
            None \<Rightarrow> failed
          | Some rep \<Rightarrow>
              \<lparr> mo_finalize = finalize_push L cli st rep, mo_report = Some (print_report rep), mo_exit_code = 0 \<rparr>)))"

section \<open>What the tick task has done\<close>

text \<open>How many of the \<open>k\<close> ticks received have been printed, accumulated and posted: all but possibly the last.\<close>

fun printed_of :: "task_phase \<Rightarrow> nat \<Rightarrow> nat" where
  "printed_of (Printing t) k = k - 1"
| "printed_of _ k = k"

fun accumulated_of :: "task_phase \<Rightarrow> nat \<Rightarrow> nat" where
  "accumulated_of (Printing t) k = k - 1"
| "accumulated_of (Accumulating t) k = k - 1"
| "accumulated_of _ k = k"

fun posted_of :: "task_phase \<Rightarrow> nat \<Rightarrow> nat" where
  "posted_of Idle k = k"
| "posted_of Posting k = k"
| "posted_of _ k = k - 1"

fun tick_in :: "task_phase \<Rightarrow> tick option" where
  "tick_in (Printing t) = Some t"
| "tick_in (Accumulating t) = Some t"
| "tick_in (To_Post t) = Some t"
| "tick_in _ = None"

definition posts :: "worker_cli \<Rightarrow> tick list \<Rightarrow> (string \<times> tick) list" where
  "posts cli ts = (case push_url cli of None \<Rightarrow> [] | Some u \<Rightarrow> map (Pair u) ts)"

definition task_inv :: "worker_cli \<Rightarrow> tick list \<Rightarrow> tick_task \<Rightarrow> nat \<Rightarrow> bool" where
  "task_inv cli ts st k \<longleftrightarrow>
     k \<le> length ts \<and> tq_queue st = drop k ts
   \<and> (\<forall>t. tick_in (tq_phase st) = Some t \<longrightarrow> 0 < k \<and> t = ts ! (k - 1))
   \<and> tq_printed st = (if cli_ticks cli then take (printed_of (tq_phase st) k) ts else [])
   \<and> tq_buckets st = fold accumulate_tick (take (accumulated_of (tq_phase st) k) ts) []
   \<and> tq_posted st = posts cli (take (posted_of (tq_phase st) k) ts)
   \<and> tq_answered st + (if tq_phase st = Posting then 1 else 0) = length (tq_posted st)
   \<and> (tq_phase st = Posting \<longrightarrow> push_url cli \<noteq> None)"

lemma posts_simps [simp]: "posts cli [] = []" "posts cli (ts @ us) = posts cli ts @ posts cli us"
  by (simp_all add: posts_def split: option.split)

lemma take_last: "0 < k \<Longrightarrow> k \<le> length ts \<Longrightarrow> take k ts = take (k - 1) ts @ [ts ! (k - 1)]"
  using take_Suc_conv_app_nth [of "k - 1" ts] by simp

lemma task_step_inv:
  assumes "task_inv cli ts st k" "task_step cli ev st = Some st'"
  shows "task_inv cli (ts @ sent_by ev) st' (if ev = Received then Suc k else k)"
proof (cases ev)
  case (Sent t)
  have "k \<le> length ts \<Longrightarrow> (0 < k \<longrightarrow> (ts @ [t]) ! (k - 1) = ts ! (k - 1)) \<and> printed_of p k \<le> length ts
      \<and> accumulated_of p k \<le> length ts \<and> posted_of p k \<le> length ts" for p
    by (cases p) (auto simp: nth_append)
  with Sent assms show ?thesis by (auto simp: task_inv_def)
next
  case Received
  with assms(2) obtain t q where q: "tq_queue st = t # q" "tq_phase st = Idle" "st' = st\<lparr>tq_queue := q, tq_phase := Printing t\<rparr>"
    by (auto simp: task_receive_def split: task_phase.splits list.splits)
  with assms(1) have d: "drop k ts = t # q" by (simp add: task_inv_def)
  then have "k < length ts" "t = ts ! k" "q = drop (Suc k) ts"
    by (metis drop_all not_le list.distinct(1), metis hd_drop_conv_nth list.sel(1) drop_all not_le list.distinct(1),
        metis drop_Suc tl_drop list.sel(3))
  then show ?thesis using q assms(1) Received by (simp add: task_inv_def)
next
  case Printed
  with assms(2) obtain t where t: "tq_phase st = Printing t" "st' = st\<lparr>tq_phase := Accumulating t,
      tq_printed := (if cli_ticks cli then tq_printed st @ [t] else tq_printed st)\<rparr>"
    by (auto simp: task_print_def split: task_phase.splits)
  with assms(1) take_last [of k ts] Printed show ?thesis by (auto simp: task_inv_def)
next
  case Accumulated
  with assms(2) obtain t where t: "tq_phase st = Accumulating t"
    "st' = st\<lparr>tq_phase := To_Post t, tq_buckets := accumulate_tick t (tq_buckets st)\<rparr>"
    by (auto simp: task_accumulate_def split: task_phase.splits)
  with assms(1) take_last [of k ts] Accumulated show ?thesis by (auto simp: task_inv_def)
next
  case Posted
  with assms(2) obtain t where t: "tq_phase st = To_Post t"
    "st' = (case push_url cli of None \<Rightarrow> st\<lparr>tq_phase := Idle\<rparr>
            | Some u \<Rightarrow> st\<lparr>tq_phase := Posting, tq_posted := tq_posted st @ [(u, t)]\<rparr>)"
    by (auto simp: task_post_def split: task_phase.splits)
  with assms(1) take_last [of k ts] Posted show ?thesis
    by (cases "push_url cli") (auto simp: task_inv_def posts_def)
next
  case Answered
  with assms(2) have "tq_phase st = Posting" "st' = st\<lparr>tq_phase := Idle, tq_answered := tq_answered st + 1\<rparr>"
    by (auto simp: task_answered_def split: task_phase.splits)
  with assms(1) Answered show ?thesis by (simp add: task_inv_def)
qed

lemma task_reachable_inv: "task_reachable cli ts st \<Longrightarrow> \<exists>k. task_inv cli ts st k"
proof (induction rule: task_reachable.induct)
  case task_start
  show ?case by (intro exI [of _ 0]) (simp add: task_inv_def tick_task_new_def)
next
  case (task_event ts st ev st')
  then show ?case using task_step_inv by blast
qed

text \<open>As long as something is queued or in hand, the task can go on.\<close>

lemma task_progress:
  "tq_queue st \<noteq> [] \<or> tq_phase st \<noteq> Idle \<Longrightarrow> \<exists>ev st'. sent_by ev = [] \<and> task_step cli ev st = Some st'"
proof (cases "tq_phase st")
  case Idle
  assume "tq_queue st \<noteq> [] \<or> tq_phase st \<noteq> Idle"
  with Idle show ?thesis by (intro exI [of _ Received]) (auto simp: task_receive_def neq_Nil_conv)
next
  case (Printing t)
  then show ?thesis by (intro exI [of _ Printed]) (simp add: task_print_def)
next
  case (Accumulating t)
  then show ?thesis by (intro exI [of _ Accumulated]) (simp add: task_accumulate_def)
next
  case (To_Post t)
  then show ?thesis by (intro exI [of _ Posted]) (simp add: task_post_def)
next
  case Posting
  then show ?thesis by (intro exI [of _ Answered]) (simp add: task_answered_def)
qed

text \<open>C24. Whatever the interleaving of the engine and the tick task, the ticks received, printed, accumulated and posted are
  prefixes of the ticks the engine sent, each tick once and in order, each prefix at most the current tick shorter than the one before;
  what is not received is still queued. Posts are made one at a time: when a tick is received, all posts of earlier
  ticks have been answered. The cliff in the final body is the cliff of exactly the ticks accumulated when it is computed, and
  once the task is idle with an empty queue everything has been handled and answered.\<close>

theorem ticks_are_handled_in_order:
  assumes "task_reachable cli ts st"
  shows "\<exists>received printed accumulated posted.
      posted \<le> accumulated \<and> accumulated \<le> printed \<and> printed \<le> received \<and> received \<le> posted + 1 \<and> received \<le> length ts
    \<and> tq_queue st = drop received ts
    \<and> tq_printed st = (if cli_ticks cli then take printed ts else [])
    \<and> run_cliff_rps st = detect_cliff_rps (fold accumulate_tick (take accumulated ts) []) (f64_lit (95 / 100)) 30
    \<and> tq_posted st = (case push_url cli of None \<Rightarrow> [] | Some u \<Rightarrow> map (Pair u) (take posted ts))
    \<and> (push_url cli \<noteq> None \<longrightarrow> tq_answered st \<le> posted \<and> received \<le> tq_answered st + 1)
    \<and> (tq_queue st = [] \<and> tq_phase st = Idle \<longrightarrow> posted = length ts \<and> (push_url cli \<noteq> None \<longrightarrow> tq_answered st = length ts))"
proof -
  obtain k where k: "task_inv cli ts st k" using task_reachable_inv [OF assms] ..
  have pos: "tick_in (tq_phase st) \<noteq> None \<Longrightarrow> 0 < k" using k by (auto simp: task_inv_def)
  have order: "posted_of p k \<le> accumulated_of p k" "accumulated_of p k \<le> printed_of p k" "printed_of p k \<le> k"
    "k \<le> posted_of p k + 1" for p by (cases p; simp)+
  have n: "push_url cli \<noteq> None \<longrightarrow> length (tq_posted st) = posted_of (tq_phase st) k"
    using k order(1,2,3) [of "tq_phase st"] by (auto simp: task_inv_def posts_def min_def)
  have one: "push_url cli \<noteq> None \<longrightarrow> tq_answered st \<le> posted_of (tq_phase st) k \<and> k \<le> tq_answered st + 1"
  proof (cases "tq_phase st")
    case Idle
    then show ?thesis using k n by (simp add: task_inv_def)
  qed (use k n pos in \<open>auto simp: task_inv_def\<close>)
  have idle: "tq_queue st = [] \<and> tq_phase st = Idle \<longrightarrow>
      posted_of (tq_phase st) k = length ts \<and> (push_url cli \<noteq> None \<longrightarrow> tq_answered st = length ts)"
    using k n by (auto simp: task_inv_def)
  show ?thesis
    by (intro exI [of _ k] exI [of _ "printed_of (tq_phase st) k"] exI [of _ "accumulated_of (tq_phase st) k"]
        exI [of _ "posted_of (tq_phase st) k"] conjI order one idle)
      (use k in \<open>simp_all add: task_inv_def run_cliff_rps_def posts_def\<close>)
qed

definition demo_cli_args :: worker_cli where
  "demo_cli_args =
     \<lparr> cli_url = ''http://t/'', cli_method = ''get'', cli_rate = 0, cli_duration_s = 3, cli_connections = 1, cli_timeout_s = 1,
       cli_worker_threads = 0,       cli_no_keepalive = False, cli_expected_status = [], cli_ticks = False, cli_push_to = Some ''http://c/'',
       cli_run_id = Some ''r'', cli_ramp = False, cli_max_latency_ms = None, cli_min_body_bytes = None,
       cli_max_body_bytes = None, cli_content_type = None, cli_sample_every_n = 0, cli_max_sampled_body_bytes = 0,
       cli_rate_limit_action = [], cli_max_backoff_ms = 0 \<rparr>"

lemma all_sent: "task_reachable cli ts (tick_task_new\<lparr>tq_queue := ts\<rparr>)"
proof (induction ts rule: rev_induct)
  case Nil
  have "tick_task_new\<lparr>tq_queue := []\<rparr> = tick_task_new" by (simp add: tick_task_new_def)
  then show ?case using task_start by metis
next
  case (snoc t ts)
  show ?case using task_event [OF snoc, of "Sent t"] by simp
qed

fun task_runs :: "worker_cli \<Rightarrow> task_event list \<Rightarrow> tick_task \<Rightarrow> tick_task option" where
  "task_runs cli [] st = Some st"
| "task_runs cli (ev # evs) st = (case task_step cli ev st of None \<Rightarrow> None | Some st' \<Rightarrow> task_runs cli evs st')"

lemma task_runs_reachable:
  "task_reachable cli ts st \<Longrightarrow> task_runs cli evs st = Some st' \<Longrightarrow> task_reachable cli (ts @ concat (map sent_by evs)) st'"
proof (induction evs arbitrary: ts st)
  case (Cons ev evs)
  then obtain st1 where "task_step cli ev st = Some st1" "task_runs cli evs st1 = Some st'" by (auto split: option.splits)
  with Cons.IH [OF task_event [OF Cons.prems(1) this(1)]] show ?case by simp
qed simp

text \<open>Three ticks are queued; the first has been handled up to the start of its post.\<close>

theorem ticks_are_handled_in_order_witness:
  "\<exists>st. task_runs demo_cli_args [Received, Printed, Accumulated, Posted] (tick_task_new\<lparr>tq_queue := demo_seconds 0\<rparr>) = Some st
     \<and> tq_posted st = [(''http://c/v1/_internal/runs/r/tick'', hd (demo_seconds 0))] \<and> tq_answered st = 0
     \<and> tq_queue st = drop 1 (demo_seconds 0) \<and> task_step demo_cli_args Received st = None"
proof -
  let ?st0 = "tick_task_new\<lparr>tq_queue := demo_seconds 0\<rparr>" and ?evs = "[Received, Printed, Accumulated, Posted]"
  have url: "push_url demo_cli_args = Some ''http://c/v1/_internal/runs/r/tick''"
    by (simp add: push_url_def internal_url_def demo_cli_args_def trim_slashes_def)
  obtain t q where ts: "demo_seconds 0 = t # q" by (simp add: demo_seconds_def)
  obtain st where st: "task_runs demo_cli_args ?evs ?st0 = Some st" "tq_answered st = 0" "length (tq_posted st) = 1" "tq_phase st = Posting"
    by (simp add: ts task_receive_def task_print_def task_accumulate_def task_post_def tick_task_new_def url)
  have "task_reachable demo_cli_args (demo_seconds 0 @ concat (map sent_by ?evs)) st"
    by (rule task_runs_reachable [OF all_sent st(1)])
  then have "task_reachable demo_cli_args (demo_seconds 0) st" by simp
  from ticks_are_handled_in_order [OF this] obtain received printed accumulated posted
    where k: "posted \<le> accumulated" "accumulated \<le> printed" "printed \<le> received" "received \<le> length (demo_seconds 0)"
      "tq_queue st = drop received (demo_seconds 0)"
      "tq_posted st = (case push_url demo_cli_args of None \<Rightarrow> [] | Some u \<Rightarrow> map (Pair u) (take posted (demo_seconds 0)))"
      "push_url demo_cli_args \<noteq> None \<longrightarrow> tq_answered st \<le> posted \<and> received \<le> tq_answered st + 1"
    by (elim exE conjE) (rule that; assumption)
  then have "posted = 1" "received = 1" using st(2,3) by (auto simp: url)
  with k url ts have "tq_posted st = [(''http://c/v1/_internal/runs/r/tick'', hd (demo_seconds 0))]" "tq_queue st = drop 1 (demo_seconds 0)"
    by simp_all
  moreover have "task_step demo_cli_args Received st = None" by (simp add: task_receive_def st(4))
  ultimately show ?thesis using st(1,2) by (intro exI conjI)
qed

text \<open>
  The tick task is not waited for: when posting is slower than the run, the cliff is computed from too few ticks, and the
  final body says that there is none. The ticks still queued are dropped when the process ends.
\<close>

lemma cliff_can_be_missed:
  "\<exists>st. task_reachable demo_cli_args (demo_seconds 0) st \<and> run_cliff_rps st = None
     \<and> detect_cliff_rps (fold accumulate_tick (demo_seconds 0) []) (f64_lit (95 / 100)) 30 = Some (Fin 45)"
proof (intro exI conjI)
  show "task_reachable demo_cli_args (demo_seconds 0) (tick_task_new\<lparr>tq_queue := demo_seconds 0\<rparr>)" by (rule all_sent)
  show "run_cliff_rps (tick_task_new\<lparr>tq_queue := demo_seconds 0\<rparr>) = None" by (simp add: run_cliff_rps_def tick_task_new_def)
  have "engine.failing \<lparr> bc_rps_lo = Fin 40, bc_rps_hi = Fin 50, bc_total = 93, bc_pass = 88, bc_rate_limited = 0 \<rparr>"
    by (subst engine.failing_exact) (simp_all add: unat_saturating_sub)
  then show "detect_cliff_rps (fold accumulate_tick (demo_seconds 0) []) (f64_lit (95 / 100)) 30 = Some (Fin 45)"
    by (simp only: demo_accumulated engine.scan_find) (simp add: demo_keys)
qed

end
