(* ===== verification/Cli_Client.thy ===== *)
theory Cli_Client
  imports Sse Engine_Worker Worker_Ticks
begin

text \<open>
  The command-line client \<open>bench\<close>, \<open>cli/src/main.rs\<close>: the request it creates, the commands \<open>run\<close> and \<open>regression\<close> with
  everything they send and their exit codes, and the accumulator of ticks behind the printed summary. Answers of the
  control plane, the reads of the stream with their arrival times, and Ctrl-C are inputs; parsing of the arguments
  (clap), JSON (serde) and the layout of the printed lines are not modelled.
\<close>

section \<open>Arguments and requests\<close>

record run_args =
  ra_target :: string
  ra_method :: string
  ra_rps :: f64
  ra_duration_s :: u64
  ra_connections :: u32
  ra_load_model :: string
  ra_expected_status :: "u16 list"
  ra_max_latency_ms :: "u64 option"
  ra_name :: "string option"
  ra_key :: "string option"
  ra_timeout_ms :: u64

record regression_args =
  ga_candidate :: string
  ga_baseline :: string
  ga_p99_delta_pct :: f64
  ga_correctness_delta_pct :: f64

datatype cli_cmd = Run run_args | Regression regression_args

record cli =
  cl_control :: string
  cl_web :: string
  cl_cmd :: cli_cmd

text \<open>The JSON objects the client builds are maps from keys to values.\<close>

datatype json_value = JNumber u64 | JNumbers "u16 list" | JText string | JBool bool

type_synonym json_object = "string \<rightharpoonup> json_value"

record target_spec =
  ts_url :: string
  ts_method :: string
  ts_headers :: json_object
  ts_timeout_ms :: u64
  ts_verify_tls :: bool

record create_run_request =
  cr_name :: "string option"
  cr_target :: target_spec
  cr_target_rps :: f64
  cr_duration_s :: u64
  cr_load_model :: string
  cr_connections :: u32
  cr_keepalive :: bool
  cr_assert :: json_object
  cr_rate_limit_policy :: json_object

definition request_headers :: "run_args \<Rightarrow> json_object" where
  "request_headers args =
     (case ra_key args of None \<Rightarrow> Map.empty | Some key \<Rightarrow> [''Authorization'' \<mapsto> JText (''Bearer '' @ key)])"

definition request_assert :: "run_args \<Rightarrow> json_object" where
  "request_assert args =
     (let a = (if ra_expected_status args \<noteq> [] then [''expected_status'' \<mapsto> JNumbers (ra_expected_status args)] else Map.empty)
      in case ra_max_latency_ms args of None \<Rightarrow> a | Some ms \<Rightarrow> a(''max_latency_us'' \<mapsto> JNumber (ms * 1000)))"

definition build_create_request :: "run_args \<Rightarrow> create_run_request" where
  "build_create_request args =
     \<lparr> cr_name = ra_name args,
       cr_target = \<lparr> ts_url = ra_target args, ts_method = to_ascii_uppercase (ra_method args),
         ts_headers = request_headers args, ts_timeout_ms = ra_timeout_ms args, ts_verify_tls = True \<rparr>,
       cr_target_rps = ra_rps args, cr_duration_s = ra_duration_s args, cr_load_model = ra_load_model args,
       cr_connections = ra_connections args, cr_keepalive = True, cr_assert = request_assert args,
       cr_rate_limit_policy = [''action'' \<mapsto> JText ''backoff'', ''record_onset'' \<mapsto> JBool True] \<rparr>"

text \<open>What the client sends.\<close>

datatype http_request =
    Post_Create string create_run_request
  | Get_Stream string
  | Post_Abort string
  | Post_Regression string string f64 f64

text \<open>What comes back: no answer, or a status and a body (\<open>None\<close> if it cannot be read).\<close>

datatype http_answer = Send_Error string | Answer u16 "string option"

definition is_success :: "u16 \<Rightarrow> bool" where
  "is_success s \<longleftrightarrow> 200 \<le> s \<and> s < 300"

section \<open>Outcomes\<close>

datatype exit_kind = Completed | Aborted | EngineError | Regressed
datatype bench_error = Unreachable string | BadSpec string | Internal string

text \<open>\<open>main\<close> after the command has returned.\<close>

fun exit_code :: "bench_error + exit_kind \<Rightarrow> nat" where
  "exit_code (Inr Completed) = 0"
| "exit_code (Inr Aborted) = 1"
| "exit_code (Inr EngineError) = 1"
| "exit_code (Inr Regressed) = 1"
| "exit_code (Inl (Unreachable msg)) = 2"
| "exit_code (Inl (BadSpec msg)) = 2"
| "exit_code (Inl (Internal e)) = 1"

section \<open>Ticks\<close>

text \<open>The fields of a tick the client reads. A tier that is missing in the JSON is 0 (\<open>serde(default)\<close>); the buckets are
  decoded and never read.\<close>

record cli_this_tick =
  ct_total :: u64
  ct_pass :: u64
  ct_fail_status :: u64
  ct_fail_latency :: u64
  ct_fail_size :: u64
  ct_fail_content_type :: u64

record cli_percentiles =
  cp_p50_us :: u64
  cp_p99_us :: u64

record cli_tick =
  ck_elapsed_s :: u64
  ck_achieved_rps_1s :: f64
  ck_completed_total :: u64
  ck_pass_total :: u64
  ck_fail_status_total :: u64
  ck_this_tick :: cli_this_tick
  ck_percentiles_so_far :: cli_percentiles

record tick_accum =
  ta_last :: "cli_tick option"
  ta_received :: u64
  ta_fail_status_total :: u64
  ta_fail_latency_total :: u64
  ta_fail_size_total :: u64
  ta_fail_content_type_total :: u64

definition tick_accum_default :: tick_accum where
  "tick_accum_default =
     \<lparr> ta_last = None, ta_received = 0, ta_fail_status_total = 0, ta_fail_latency_total = 0, ta_fail_size_total = 0,
       ta_fail_content_type_total = 0 \<rparr>"

definition absorb_tick :: "cli_tick \<Rightarrow> tick_accum \<Rightarrow> tick_accum" where
  "absorb_tick t a = a\<lparr>
     ta_fail_status_total := ck_fail_status_total t,
     ta_fail_latency_total := ta_fail_latency_total a + ct_fail_latency (ck_this_tick t),
     ta_fail_size_total := ta_fail_size_total a + ct_fail_size (ck_this_tick t),
     ta_fail_content_type_total := ta_fail_content_type_total a + ct_fail_content_type (ck_this_tick t),
     ta_last := Some t,
     ta_received := ta_received a + 1\<rparr>"

text \<open>The numbers of a dashboard line.\<close>

definition shown_pass_rate :: "u64 \<Rightarrow> u64 \<Rightarrow> f64" where
  "shown_pass_rate passed n = (if 0 < n then (of_u64 passed / of_u64 n) * f64_lit 100 else f64_lit 0)"

definition us_to_ms :: "u64 \<Rightarrow> f64" where
  "us_to_ms us = of_u64 us / f64_lit 1000"

record dashboard_line =
  dl_elapsed_s :: u64
  dl_rps :: f64
  dl_pass_rate :: f64
  dl_pass :: u64
  dl_total :: u64
  dl_p50_ms :: f64
  dl_p99_ms :: f64

definition dashboard_line_of :: "cli_tick \<Rightarrow> dashboard_line" where
  "dashboard_line_of t =
     \<lparr> dl_elapsed_s = ck_elapsed_s t, dl_rps = ck_achieved_rps_1s t,
       dl_pass_rate = shown_pass_rate (ct_pass (ck_this_tick t)) (ct_total (ck_this_tick t)),
       dl_pass = ct_pass (ck_this_tick t), dl_total = ct_total (ck_this_tick t),
       dl_p50_ms = us_to_ms (cp_p50_us (ck_percentiles_so_far t)),
       dl_p99_ms = us_to_ms (cp_p99_us (ck_percentiles_so_far t)) \<rparr>"

text \<open>\<open>decode\<close> is serde's decoding of a tick. The lines printed so far are part of the state.\<close>

definition handle_event ::
  "(string \<Rightarrow> cli_tick option) \<Rightarrow> sse_event \<Rightarrow> tick_accum \<times> dashboard_line list \<Rightarrow> tick_accum \<times> dashboard_line list" where
  "handle_event decode event = (\<lambda>(a, out).
     if ev_name event \<noteq> ''tick'' then (a, out)
     else (case decode (ev_data event) of None \<Rightarrow> (a, out)
       | Some t \<Rightarrow> (absorb_tick t a, out @ [dashboard_line_of t])))"

section \<open>The summary\<close>

record run_summary =
  rs_run_id :: string
  rs_name :: "string option"
  rs_target :: string
  rs_received :: u64
  rs_requests :: u64
  rs_pass :: u64
  rs_pass_rate :: f64
  rs_fail_status :: u64
  rs_fail_latency :: u64
  rs_fail_size :: u64
  rs_fail_content_type :: u64
  rs_p50_ms :: f64
  rs_p99_ms :: f64
  rs_dashboard :: string

definition run_summary_of :: "cli \<Rightarrow> run_args \<Rightarrow> string \<Rightarrow> tick_accum \<Rightarrow> run_summary option" where
  "run_summary_of c args run_id a =
     map_option (\<lambda>t.
       \<lparr> rs_run_id = run_id, rs_name = ra_name args,
         rs_target = to_ascii_uppercase (ra_method args) @ '' '' @ ra_target args,
         rs_received = ta_received a, rs_requests = ck_completed_total t, rs_pass = ck_pass_total t,
         rs_pass_rate = shown_pass_rate (ck_pass_total t) (ck_completed_total t),
         rs_fail_status = ta_fail_status_total a, rs_fail_latency = ta_fail_latency_total a,
         rs_fail_size = ta_fail_size_total a, rs_fail_content_type = ta_fail_content_type_total a,
         rs_p50_ms = us_to_ms (cp_p50_us (ck_percentiles_so_far t)),
         rs_p99_ms = us_to_ms (cp_p99_us (ck_percentiles_so_far t)),
         rs_dashboard = trim_slashes (cl_web c) @ ''/runs/'' @ run_id \<rparr>) (ta_last a)"

section \<open>The commands\<close>

text \<open>What the libraries answer: the error of the client builder if it fails, how a status is printed, and the decoders of
  the bodies of an answer and of a tick.\<close>

record regression_response =
  rr_passed :: bool
  rr_p99_delta_pct :: f64
  rr_correctness_delta_pct :: f64
  rr_cliff_rps_delta :: f64
  rr_details :: string

record libs =
  lb_client_error :: "string option"
  lb_show_status :: "u16 \<Rightarrow> string"
  lb_run_id :: "string \<Rightarrow> string option"
  lb_regression :: "string \<Rightarrow> regression_response option"
  lb_tick :: "string \<Rightarrow> cli_tick option"

definition runs_url :: "string \<Rightarrow> string" where
  "runs_url control = trim_slashes control @ ''/v1/runs''"

definition run_url :: "string \<Rightarrow> string \<Rightarrow> string \<Rightarrow> string" where
  "run_url control run_id leaf = runs_url control @ ''/'' @ run_id @ leaf"

definition post_run :: "libs \<Rightarrow> string \<Rightarrow> http_answer \<Rightarrow> bench_error + string" where
  "post_run L control answer =
     (case answer of
        Send_Error e \<Rightarrow> Inl (Unreachable (''control plane at '' @ control @ '' unreachable: '' @ e))
      | Answer code body \<Rightarrow>
          if code = 201 then
            (case Option.bind body (lb_run_id L) of
               None \<Rightarrow> Inl (Internal ''decode CreateRunResponse'')
             | Some run_id \<Rightarrow> Inr run_id)
          else Inl (BadSpec (''POST '' @ runs_url control @ '' -> '' @ lb_show_status L code @ '': ''
                 @ (case body of None \<Rightarrow> [] | Some text \<Rightarrow> text))))"

text \<open>\<open>stream_ticks\<close>, with the answer to the subscription and the reads that follow.\<close>

definition stream_ticks ::
  "libs \<Rightarrow> string \<Rightarrow> http_answer \<Rightarrow> sse_read list \<Rightarrow> (tick_accum \<times> dashboard_line list) \<times> (string + unit) option" where
  "stream_ticks L stream_url answer reads =
     (case answer of
        Send_Error e \<Rightarrow> ((tick_accum_default, []), Some (Inl (''subscribe SSE '' @ stream_url)))
      | Answer code body \<Rightarrow>
          if \<not> is_success code then
            ((tick_accum_default, []), Some (Inl (''SSE subscribe returned '' @ lb_show_status L code)))
          else read_loop (handle_event (lb_tick L)) ([], (tick_accum_default, [])) reads)"

definition total_wait :: "run_args \<Rightarrow> u64" where
  "total_wait args = ra_duration_s args + 5"

text \<open>The world as one run meets it: the answers, the reads with the milliseconds at which they arrive after the
  subscription was sent, and whether Ctrl-C was the branch that \<open>select!\<close> took (the reads are then those before it).\<close>

record run_input =
  in_create :: http_answer
  in_subscribe :: http_answer
  in_reads :: "(nat \<times> sse_read) list"
  in_ctrl_c :: bool

text \<open>The client is built with a total timeout, which \<open>reqwest\<close> applies until the body of an answer has been read: what of the
  stream has not arrived by then is lost, and the next read fails. The timeout around the watcher drops what arrives
  after it.\<close>

definition CLIENT_TIMEOUT_MS :: nat where
  "CLIENT_TIMEOUT_MS = 10000"

definition client_reads :: "run_input \<Rightarrow> (nat \<times> sse_read) list" where
  "client_reads i = takeWhile (\<lambda>(ms, r). ms < CLIENT_TIMEOUT_MS) (in_reads i) @ [(CLIENT_TIMEOUT_MS, Sse_Read_Error ''timed out'')]"

definition reads_in_time :: "run_args \<Rightarrow> run_input \<Rightarrow> sse_read list" where
  "reads_in_time args i = map snd (takeWhile (\<lambda>(ms, r). ms < unat (total_wait args) * 1000) (client_reads i))"

record run_output =
  ro_sent :: "http_request list"
  ro_lines :: "dashboard_line list"
  ro_summary :: "run_summary option"
  ro_result :: "bench_error + exit_kind"

definition run_finish :: "cli \<Rightarrow> run_args \<Rightarrow> string \<Rightarrow> tick_accum \<Rightarrow> run_summary option \<times> (bench_error + exit_kind)" where
  "run_finish c args run_id a =
     (if ta_received a = 0 then (None, Inr EngineError) else (run_summary_of c args run_id a, Inr Completed))"

definition run_command :: "libs \<Rightarrow> cli \<Rightarrow> run_args \<Rightarrow> run_input \<Rightarrow> run_output" where
  "run_command L c args i =
     (case lb_client_error L of
        Some e \<Rightarrow> \<lparr> ro_sent = [], ro_lines = [], ro_summary = None, ro_result = Inl (Internal (''build http client: '' @ e)) \<rparr>
      | None \<Rightarrow>
        (let created = Post_Create (runs_url (cl_control c)) (build_create_request args) in
         case post_run L (cl_control c) (in_create i) of
           Inl err \<Rightarrow> \<lparr> ro_sent = [created], ro_lines = [], ro_summary = None, ro_result = Inl err \<rparr>
         | Inr run_id \<Rightarrow>
             (let stream_url = run_url (cl_control c) run_id ''/stream'';
                  ((a, out), ended) = stream_ticks L stream_url (in_subscribe i) (reads_in_time args i) in
              if in_ctrl_c i then
                \<lparr> ro_sent = [created, Get_Stream stream_url, Post_Abort (run_url (cl_control c) run_id ''/abort'')],
                  ro_lines = out, ro_summary = None, ro_result = Inr Aborted \<rparr>
              else
                (let (sm, res) = (case ended of
                       Some (Inl e) \<Rightarrow> if ta_received a = 0 then (None, Inl (Internal (''sse: '' @ e))) else run_finish c args run_id a
                     | _ \<Rightarrow> run_finish c args run_id a) in
                 \<lparr> ro_sent = [created, Get_Stream stream_url], ro_lines = out, ro_summary = sm, ro_result = res \<rparr>))))"

text \<open>The report the command prints, and its outcome.\<close>

record regression_report =
  gr_candidate :: string
  gr_baseline :: string
  gr_p99_threshold :: f64
  gr_correctness_threshold :: f64
  gr_deltas :: regression_response

definition regression_command ::
  "libs \<Rightarrow> cli \<Rightarrow> regression_args \<Rightarrow> http_answer
     \<Rightarrow> http_request list \<times> regression_report option \<times> (bench_error + exit_kind)" where
  "regression_command L c args answer =
     (case lb_client_error L of
        Some e \<Rightarrow> ([], None, Inl (Internal (''build http client: '' @ e)))
      | None \<Rightarrow>
        (let url = run_url (cl_control c) (ga_candidate args) ''/regression-check'' in
         ([Post_Regression url (ga_baseline args) (ga_p99_delta_pct args) (ga_correctness_delta_pct args)],
          case answer of
            Send_Error e \<Rightarrow> (None, Inl (Unreachable (''control plane at '' @ cl_control c @ '' unreachable: '' @ e)))
          | Answer code body \<Rightarrow>
              (let text = (case body of None \<Rightarrow> [] | Some t \<Rightarrow> t) in
               if \<not> is_success code then
                 (None, Inl (BadSpec (''POST '' @ url @ '' -> '' @ lb_show_status L code @ '': '' @ text)))
               else (case lb_regression L text of
                 None \<Rightarrow> (None, Inl (Internal (''decode RegressionResponse: '' @ text)))
               | Some r \<Rightarrow>
                   (Some \<lparr> gr_candidate = ga_candidate args, gr_baseline = ga_baseline args,
                      gr_p99_threshold = ga_p99_delta_pct args, gr_correctness_threshold = ga_correctness_delta_pct args,
                      gr_deltas = r \<rparr>,
                    Inr (if rr_passed r then Completed else Regressed)))))))"

text \<open>\<open>main\<close>; the runtime is built first.\<close>

definition bench_main :: "bool \<Rightarrow> libs \<Rightarrow> cli \<Rightarrow> run_input \<Rightarrow> http_answer \<Rightarrow> nat" where
  "bench_main runtime_ok L c i answer =
     (if \<not> runtime_ok then 2
      else (case cl_cmd c of
          Run args \<Rightarrow> exit_code (ro_result (run_command L c args i))
        | Regression args \<Rightarrow> exit_code (snd (snd (regression_command L c args answer)))))"

section \<open>What the client has received\<close>

definition collect :: "(string \<Rightarrow> cli_tick option) \<Rightarrow> sse_event \<Rightarrow> cli_tick list \<Rightarrow> cli_tick list" where
  "collect decode ev ts =
     (if ev_name ev \<noteq> ''tick'' then ts else case decode (ev_data ev) of None \<Rightarrow> ts | Some t \<Rightarrow> ts @ [t])"

definition ticks_received :: "libs \<Rightarrow> run_args \<Rightarrow> run_input \<Rightarrow> cli_tick list" where
  "ticks_received L args i =
     (case in_subscribe i of Send_Error e \<Rightarrow> []
      | Answer code body \<Rightarrow>
          if is_success code then fst (read_loop (collect (lb_tick L)) ([], []) (reads_in_time args i)) else [])"

definition shown :: "cli_tick list \<Rightarrow> tick_accum \<times> dashboard_line list" where
  "shown ts = (fold absorb_tick ts tick_accum_default, map dashboard_line_of ts)"

lemma read_loop_shown:
  "read_loop (handle_event decode) (buf, shown ts) rs = map_prod shown id (read_loop (collect decode) (buf, ts) rs)"
  by (rule read_loop_map) (simp add: collect_def handle_event_def shown_def split: option.split)

lemma stream_ticks_received: "fst (stream_ticks L stream_url (in_subscribe i) (reads_in_time args i)) = shown (ticks_received L args i)"
  using read_loop_shown [of "lb_tick L" "[]" "[]" "reads_in_time args i"]
  by (simp add: stream_ticks_def ticks_received_def shown_def split: http_answer.split)

lemma received_count: "ta_received (fold absorb_tick ts a) = ta_received a + of_nat (length ts)"
  by (induction ts arbitrary: a) (simp_all add: absorb_tick_def)

lemma shown_last: "ta_last (fst (shown ts)) = (if ts = [] then None else Some (last ts))"
  by (cases ts rule: rev_cases) (simp_all add: shown_def tick_accum_default_def absorb_tick_def)

lemma shown_received: "length ts < 2 ^ 64 \<Longrightarrow> unat (ta_received (fst (shown ts))) = length ts"
  by (simp add: shown_def received_count tick_accum_default_def unsigned_of_nat take_bit_nat_eq_self)

fun no_chunk :: "sse_read \<Rightarrow> bool" where
  "no_chunk (Sse_Chunk c) = False"
| "no_chunk _ = True"

lemma read_loop_no_chunk: "\<forall>r\<in>set rs. no_chunk r \<Longrightarrow> fst (read_loop handle s rs) = snd s"
  by (cases rs rule: list.exhaust; cases "hd rs") auto

primrec payloads :: "sse_message list \<Rightarrow> string list" where
  "payloads [] = []"
| "payloads (m # ms) = (case m of Comment c \<Rightarrow> payloads ms | Tick_Event elapsed p \<Rightarrow> p # payloads ms)"

text \<open>A stream that the client can be given in any pieces: each piece is whole characters, or the text is ASCII and the cuts
  do not matter.\<close>

definition harmless_cuts :: "bytes list \<Rightarrow> bool" where
  "harmless_cuts cs \<longleftrightarrow>
     list_all (\<lambda>c. utf8_valid (map of_char c)) cs \<or> list_all (\<lambda>x. of_char x < (128 :: nat)) (concat cs)"

lemma harmless_cuts_valid: "harmless_cuts cs \<Longrightarrow> \<forall>c\<in>set cs. utf8_valid (map of_char c)"
proof (unfold harmless_cuts_def, elim disjE)
  assume "list_all (\<lambda>x. of_char x < (128 :: nat)) (concat cs)"
  then have "\<forall>c\<in>set cs. \<forall>b\<in>set (map of_char c). b < (128 :: nat)" by (simp add: list_all_iff)
  then show "\<forall>c\<in>set cs. utf8_valid (map of_char c)" by (blast intro: utf8_valid_ascii)
qed (simp add: list_all_iff)

lemma collect_messages: "fold (deliver (collect decode)) ms ts = ts @ List.map_filter decode (payloads ms)"
  by (induction ms arbitrary: ts)
    (simp_all add: deliver_def collect_def map_filter_simps split: sse_message.split option.split)

text \<open>Whatever the chunks and the comments in between, the client receives the ticks that can be decoded, in order.\<close>

lemma received_frames:
  assumes "\<forall>m\<in>set ms. clean_message m" "harmless_cuts cs"
    and "concat cs = concat (map sse_frame ms)" "\<forall>r\<in>set rs. no_chunk r"
    and "reads_in_time args i = map Sse_Chunk cs @ rs" "in_subscribe i = Answer code body" "is_success code"
  shows "ticks_received L args i = List.map_filter (lb_tick L) (payloads ms)"
  by (simp add: ticks_received_def assms(5-7) read_loop_delivers [OF assms(1) harmless_cuts_valid [OF assms(2)] assms(3)] read_loop_no_chunk [OF assms(4)]
      collect_messages)

section \<open>What a run sends and how it ends\<close>

definition create_rejected :: "http_answer \<Rightarrow> bool" where
  "create_rejected answer = (case answer of Send_Error e \<Rightarrow> True | Answer code body \<Rightarrow> code \<noteq> 201)"

definition created_run :: "libs \<Rightarrow> http_answer \<Rightarrow> string option" where
  "created_run L answer =
     (case answer of Send_Error e \<Rightarrow> None | Answer code body \<Rightarrow> if code = 201 then Option.bind body (lb_run_id L) else None)"

lemma post_run_cases:
  obtains "create_rejected answer" "created_run L answer = None" "\<exists>err. post_run L control answer = Inl err \<and> exit_code (Inl err) = 2"
  | "\<not> create_rejected answer" "created_run L answer = None" "\<exists>err. post_run L control answer = Inl err \<and> exit_code (Inl err) = 1"
  | run_id where "\<not> create_rejected answer" "created_run L answer = Some run_id" "post_run L control answer = Inr run_id"
proof (cases answer)
  case (Answer code body)
  then show ?thesis
    using that
    by (cases "code = 201"; cases "Option.bind body (lb_run_id L)")
      (simp_all add: create_rejected_def created_run_def post_run_def)
qed (use that in \<open>simp add: create_rejected_def created_run_def post_run_def\<close>)

lemma run_command_created:
  assumes "lb_client_error L = None" "post_run L (cl_control c) (in_create i) = Inr run_id"
    and few: "length (ticks_received L args i) < 2 ^ 64"
  shows "ro_lines (run_command L c args i) = map dashboard_line_of (ticks_received L args i)"
    and "exit_code (ro_result (run_command L c args i)) = (if in_ctrl_c i \<or> ticks_received L args i = [] then 1 else 0)"
    and "ro_summary (run_command L c args i) =
      (if in_ctrl_c i \<or> ticks_received L args i = [] then None
       else run_summary_of c args run_id (fst (shown (ticks_received L args i))))"
    and "(Post_Abort u \<in> set (ro_sent (run_command L c args i))) =
      (in_ctrl_c i \<and> u = run_url (cl_control c) run_id ''/abort'')"
proof -
  let ?ts = "ticks_received L args i"
  obtain ended where st: "stream_ticks L (run_url (cl_control c) run_id ''/stream'') (in_subscribe i)
      (reads_in_time args i) = (shown ?ts, ended)"
    using stream_ticks_received by (metis surjective_pairing)
  have out: "snd (shown ?ts) = map dashboard_line_of ?ts" by (simp add: shown_def)
  have none: "ta_received (fst (shown ?ts)) = 0 \<longleftrightarrow> ?ts = []"
    using shown_received [OF few] by (metis length_0_conv unat_eq_zero)
  obtain a out' where sh: "shown ?ts = (a, out')" by fastforce
  note run = run_command_def assms(1,2) st [unfolded sh] Let_def run_finish_def
  note facts = out [unfolded sh] none [unfolded sh]
  show "ro_lines (run_command L c args i) = map dashboard_line_of ?ts"
    using facts by (simp add: run split: prod.split)
  show "exit_code (ro_result (run_command L c args i)) = (if in_ctrl_c i \<or> ?ts = [] then 1 else 0)"
    using facts by (simp add: run split: prod.split option.split sum.split)
  show "ro_summary (run_command L c args i) =
      (if in_ctrl_c i \<or> ?ts = [] then None else run_summary_of c args run_id (fst (shown ?ts)))"
    using facts by (simp add: run sh split: prod.split option.split sum.split)
  show "(Post_Abort u \<in> set (ro_sent (run_command L c args i))) =
      (in_ctrl_c i \<and> u = run_url (cl_control c) run_id ''/abort'')"
    by (auto simp: run split: prod.split)
qed

lemma run_command_not_created:
  assumes "lb_client_error L \<noteq> None \<or> created_run L (in_create i) = None"
  shows "ro_summary (run_command L c args i) = None" "Post_Abort u \<notin> set (ro_sent (run_command L c args i))"
  using assms
  by (cases "lb_client_error L"; cases rule: post_run_cases [of "in_create i" L "cl_control c"];
      auto simp: run_command_def Let_def)+

lemma regression_exit_code:
  "exit_code (snd (snd (regression_command L c args answer))) = 0 \<longleftrightarrow>
     lb_client_error L = None \<and> (\<exists>code body r. answer = Answer code body \<and> is_success code
       \<and> lb_regression L (case body of None \<Rightarrow> [] | Some t \<Rightarrow> t) = Some r \<and> rr_passed r)"
  by (cases answer) (auto simp: regression_command_def Let_def split: option.splits)

section \<open>The ticks of an engine\<close>

text \<open>What the client reads of a tick of \<open>engine/src/worker.rs\<close>.\<close>

definition cli_view :: "tick \<Rightarrow> cli_tick" where
  "cli_view t =
     \<lparr> ck_elapsed_s = tk_elapsed_s t, ck_achieved_rps_1s = tk_achieved_rps_1s t,
       ck_completed_total = tk_completed_total t, ck_pass_total = tk_pass_total t,
       ck_fail_status_total = tk_fail_status_total t,
       ck_this_tick =
         (let n = tk_this_tick t in
          \<lparr> ct_total = tt_total n, ct_pass = tt_pass n, ct_fail_status = tt_fail_status n,
            ct_fail_latency = tt_fail_latency n, ct_fail_size = tt_fail_size n,
            ct_fail_content_type = tt_fail_content_type n \<rparr>),
       ck_percentiles_so_far =
         \<lparr> cp_p50_us = so_far_p50_us (tk_percentiles_so_far t), cp_p99_us = so_far_p99_us (tk_percentiles_so_far t) \<rparr> \<rparr>"

lemma shown_totals:
  "ta_fail_latency_total (fst (shown (map cli_view ts))) = of_nat (cumulative (Some FailLatency) ts)
 \<and> ta_fail_size_total (fst (shown (map cli_view ts))) = of_nat (cumulative (Some FailSize) ts)
 \<and> ta_fail_content_type_total (fst (shown (map cli_view ts))) = of_nat (cumulative (Some FailContentType) ts)"
  by (induction ts rule: rev_induct)
    (simp_all add: shown_def tick_accum_default_def absorb_tick_def cli_view_def Let_def of_nat_unat)

definition summary_counts :: "run_summary \<Rightarrow> verdict option \<Rightarrow> u64" where
  "summary_counts r k =
     (case k of None \<Rightarrow> rs_requests r | Some Pass \<Rightarrow> rs_pass r | Some FailStatus \<Rightarrow> rs_fail_status r
      | Some FailLatency \<Rightarrow> rs_fail_latency r | Some FailSize \<Rightarrow> rs_fail_size r
      | Some FailContentType \<Rightarrow> rs_fail_content_type r | Some RateLimited \<Rightarrow> 0)"

lemma summary_of_ticks:
  assumes place: "ticks_in_place ts" and small: "\<And>k. cumulative k ts < 2 ^ 64" and "ts \<noteq> []" "length ts < 2 ^ 64"
  shows "\<exists>r. run_summary_of c args run_id (fst (shown (map cli_view ts))) = Some r
       \<and> unat (rs_received r) = length ts
       \<and> (\<forall>k. k \<noteq> Some RateLimited \<longrightarrow> unat (summary_counts r k) = cumulative k ts)"
proof -
  have "tick_in_place (take (Suc (length ts - 1)) ts) (ts ! (length ts - 1))"
    using place assms(3) unfolding ticks_in_place_def by (metis diff_less length_greater_0_conv zero_less_one)
  then have final: "tick_in_place ts (last ts)" using assms(3) by (simp add: last_conv_nth)
  have last: "ta_last (fst (shown (map cli_view ts))) = Some (cli_view (last ts))"
    using assms(3) by (simp add: shown_last last_map)
  obtain us t where us: "ts = us @ [t]" using assms(3) by (cases ts rule: rev_cases) auto
  have "ta_fail_status_total (fst (shown (map cli_view ts))) = tk_fail_status_total (last ts)"
    by (simp add: us shown_def absorb_tick_def cli_view_def)
  moreover have "unat (of_nat (cumulative k ts) :: u64) = cumulative k ts" for k
    using small [of k] by (simp add: unsigned_of_nat take_bit_nat_eq_self)
  moreover have "unat (ta_received (fst (shown (map cli_view ts)))) = length ts"
    using assms(4) by (simp add: shown_received)
  ultimately show ?thesis
    using final shown_totals [of ts]
    by (simp add: run_summary_of_def last summary_counts_def tick_in_place_def cli_view_def split: option.split verdict.split)
qed

text \<open>The rates of the client count rate-limited responses as failures, the score of \<open>engine-worker\<close> does not.\<close>

lemma client_rate_counts_limited:
  assumes "r_completed t = 2" "r_pass t = 1" "r_rate_limited t = 1"
  shows "shown_pass_rate (r_pass t) (r_completed t) = Fin 50" "pass_rate t = Fin 100"
proof -
  have "of_u64 1 = Fin 1" "of_u64 2 = Fin 2" using of_u64_small [of 1] of_u64_small [of 2] by simp_all
  moreover have "mk64 (1 / 2) = Fin (1 / 2)" "mk64 50 = Fin 50" "mk64 100 = Fin 100"
    using mk64_int [of 50] mk64_int [of 100] by (simp_all add: float_eval)
  ultimately show "shown_pass_rate (r_pass t) (r_completed t) = Fin 50"
    by (simp add: shown_pass_rate_def assms)
  show "pass_rate t = Fin 100" by (rule pass_rate_perfect) (simp_all add: assms)
qed

section \<open>Properties\<close>


definition demo_libs :: libs where
  "demo_libs = \<lparr> lb_client_error = None, lb_show_status = (\<lambda>s. []), lb_run_id = Some, lb_regression = (\<lambda>s. None),
     lb_tick = (\<lambda>s. if s = ''{}'' then Some \<lparr> ck_elapsed_s = 1, ck_achieved_rps_1s = 0, ck_completed_total = 3,
       ck_pass_total = 2, ck_fail_status_total = 1, ck_this_tick = \<lparr> ct_total = 3, ct_pass = 2, ct_fail_status = 1,
       ct_fail_latency = 0, ct_fail_size = 0, ct_fail_content_type = 0 \<rparr>,
       ck_percentiles_so_far = \<lparr> cp_p50_us = 1000, cp_p99_us = 2000 \<rparr> \<rparr> else None) \<rparr>"

definition demo_args :: run_args where
  "demo_args = \<lparr> ra_target = ''http://t'', ra_method = ''get'', ra_rps = 0, ra_duration_s = 1, ra_connections = 1,
     ra_load_model = ''open'', ra_expected_status = [], ra_max_latency_ms = None, ra_name = None, ra_key = None,
     ra_timeout_ms = 30000 \<rparr>"

definition demo_cli :: cli where
  "demo_cli = \<lparr> cl_control = ''http://c/'', cl_web = ''http://w'', cl_cmd = Run demo_args \<rparr>"

text \<open>One tick in two chunks, after a comment.\<close>

definition demo_messages :: "sse_message list" where
  "demo_messages = [Comment ''connected'', Tick_Event 1 ''{}'']"

definition demo_chunks :: "bytes list" where
  "demo_chunks = (let text = concat (map sse_frame demo_messages) in [take 20 text, drop 20 text])"

definition demo_input :: "bool \<Rightarrow> bytes list \<Rightarrow> run_input" where
  "demo_input ctrl_c chunks =
     \<lparr> in_create = Answer 201 (Some ''r1''), in_subscribe = Answer 200 (Some []),
       in_reads = map (\<lambda>c. (1000, Sse_Chunk c)) chunks @ [(1500, Sse_End)], in_ctrl_c = ctrl_c \<rparr>"

lemma demo_reads: "reads_in_time demo_args (demo_input b cs) = map Sse_Chunk cs @ [Sse_End]"
proof -
  have all: "takeWhile (\<lambda>(ms, r). ms < CLIENT_TIMEOUT_MS) (map (\<lambda>c. (1000 :: nat, Sse_Chunk c)) cs @ [(1500, Sse_End)])
      = map (\<lambda>c. (1000, Sse_Chunk c)) cs @ [(1500, Sse_End)]"
    by (induction cs) (simp_all add: CLIENT_TIMEOUT_MS_def)
  have wait: "unat (total_wait demo_args) * 1000 = 6000" by (simp add: demo_args_def total_wait_def)
  have "map snd (takeWhile (\<lambda>(ms, r). ms < 6000)
      ((map (\<lambda>c. (1000 :: nat, Sse_Chunk c)) cs @ [(1500, Sse_End)]) @ [(CLIENT_TIMEOUT_MS, Sse_Read_Error ''timed out'')]))
      = map Sse_Chunk cs @ [Sse_End]"
    by (induction cs) (simp_all add: CLIENT_TIMEOUT_MS_def)
  then show ?thesis
    unfolding reads_in_time_def client_reads_def wait by (simp only: demo_input_def run_input.select_convs all)
qed

lemma demo_subscribe: "in_subscribe (demo_input b cs) = Answer 200 (Some [])" "is_success 200"
  by (simp_all add: demo_input_def is_success_def)

lemma demo_received_none: "ticks_received demo_libs demo_args (demo_input b []) = []"
  by (simp add: ticks_received_def demo_reads demo_subscribe)

lemma demo_chunks_ok:
  "\<forall>m\<in>set demo_messages. clean_message m" "harmless_cuts demo_chunks"
  "concat demo_chunks = concat (map sse_frame demo_messages)"
proof -
  show "\<forall>m\<in>set demo_messages. clean_message m" by (simp add: demo_messages_def NL_def CR_def)
  show sent: "concat demo_chunks = concat (map sse_frame demo_messages)" by (simp add: demo_chunks_def Let_def)
  have "\<forall>x\<in>set (concat (map sse_frame demo_messages)). of_char x < (128 :: nat)"
    by (simp add: demo_messages_def sse_frame_def NL_def decimal.simps)
  then show "harmless_cuts demo_chunks" unfolding harmless_cuts_def sent list_all_iff by blast
qed

lemma demo_payloads: "payloads demo_messages = [''{}'']"
  by (simp add: demo_messages_def)


text \<open>The control plane goes away between the creation of a run and the subscription: the code is 1.\<close>

lemma unreachable_subscription_exits_1:
  assumes "lb_client_error L = None" "created_run L (in_create i) = Some run_id" "in_subscribe i = Send_Error e"
  shows "exit_code (ro_result (run_command L c args i)) = 1"
proof -
  have created: "post_run L (cl_control c) (in_create i) = Inr run_id"
    by (rule post_run_cases [of "in_create i" L "cl_control c"]) (use assms(2) in simp_all)
  have none: "ticks_received L args i = []" by (simp add: ticks_received_def assms(3))
  show ?thesis using run_command_created(2) [OF assms(1) created, of args] by (simp add: none)
qed

text \<open>What arrives ten seconds after the subscription or later is lost, however long the run is.\<close>

lemma long_runs_are_cut:
  assumes "in_reads i = early @ (ms, r) # late" "CLIENT_TIMEOUT_MS \<le> ms"
  shows "ticks_received L args i = ticks_received L args (i\<lparr>in_reads := early\<rparr>)"
proof -
  have "takeWhile P (early @ x # late) = takeWhile P early" if "\<not> P x" for P and x :: "nat \<times> sse_read"
    using that by (induction early) simp_all
  then have "client_reads i = client_reads (i\<lparr>in_reads := early\<rparr>)"
    using assms(2) by (simp add: client_reads_def assms(1))
  then have "reads_in_time args (i\<lparr>in_reads := early\<rparr>) = reads_in_time args i" by (simp add: reads_in_time_def)
  then show ?thesis by (simp add: ticks_received_def split: http_answer.split)
qed

text \<open>C25. Which ticks reach the client: if the stream the control plane writes arrives in time and is cut between characters -
  or anywhere, when its text is ASCII - then whatever the cuts and whatever comments come in between, every tick event
  whose payload the client can decode is delivered once, in order, and gives one dashboard line; payloads it cannot
  decode are skipped. (A cut inside a character corrupts it: \<open>cut_character_is_corrupted\<close>. In time means before the
  timeout of the client and the duration of the run and five seconds.)\<close>

theorem cli_receives_every_tick:
  assumes "\<forall>m\<in>set ms. clean_message m" "harmless_cuts cs"
    and "concat cs = concat (map sse_frame ms)" "\<forall>r\<in>set rs. no_chunk r"
    and "reads_in_time args i = map Sse_Chunk cs @ rs" "in_subscribe i = Answer code body" "is_success code"
  shows "ticks_received L args i = List.map_filter (lb_tick L) (payloads ms)
    \<and> fst (stream_ticks L url' (in_subscribe i) (reads_in_time args i))
      = shown (List.map_filter (lb_tick L) (payloads ms))"
  using received_frames [OF assms, of L] stream_ticks_received [of L url' i args] by simp

theorem cli_receives_every_tick_witness:
  "\<exists>t. lb_tick demo_libs ''{}'' = Some t \<and> ticks_received demo_libs demo_args (demo_input False demo_chunks) = [t]"
proof -
  have "\<forall>r\<in>set [Sse_End]. no_chunk r" by simp
  from cli_receives_every_tick [OF demo_chunks_ok this demo_reads demo_subscribe, of demo_libs]
  have "ticks_received demo_libs demo_args (demo_input False demo_chunks) = List.map_filter (lb_tick demo_libs) [''{}'']"
    by (simp add: demo_payloads)
  then show ?thesis by (simp add: map_filter_simps demo_libs_def)
qed

text \<open>C23. From the engine to the screen: for every interleaving of a run, if the control plane relays the ticks of the engine in a
  form the client decodes, the stream arrives whole and in time (before the ten-second timeout of the client and the end of
  its wait), cut between characters (or anywhere if it is ASCII), and nobody presses Ctrl-C, then \<open>bench run\<close> exits with 0
  and prints the sums of the relayed ticks: no tick is missing, and the requests, the passes and each tier of failures are
  the sums of their per-second counts. These are never more than the engine's own totals; they can be less, because what the
  engine counts after its last tick is in no tick (\<open>counts_after_last_tick_are_lost\<close>).\<close>

theorem cli_summary_is_the_relayed_ticks:
  assumes "reachable cf n w" "n < 2 ^ 63" "w_ticks w \<noteq> []"
    and "\<And>t. t \<in> set (w_ticks w) \<Longrightarrow> lb_tick L (encode t) = Some (cli_view t)"
    and "payloads ms = map encode (w_ticks w)" "\<forall>m\<in>set ms. clean_message m"
    and "harmless_cuts cs" "concat cs = concat (map sse_frame ms)" "\<forall>r\<in>set rs. no_chunk r"
    and "reads_in_time args i = map Sse_Chunk cs @ rs" "in_subscribe i = Answer code body" "is_success code"
    and "lb_client_error L = None" "created_run L (in_create i) = Some run_id" "\<not> in_ctrl_c i"
  shows "exit_code (ro_result (run_command L c args i)) = 0
    \<and> (\<exists>r. ro_summary (run_command L c args i) = Some r \<and> unat (rs_received r) = length (w_ticks w)
         \<and> (\<forall>k. k \<noteq> Some RateLimited \<longrightarrow> unat (summary_counts r k) = cumulative k (w_ticks w)
              \<and> unat (summary_counts r k) \<le> unat (live_count k (sh_live (w_shared w)))))"
proof -
  have inv: "ticks_inv (duration_s (cf_spec cf)) n w" by (rule ticks_reachable [OF assms(1,2)])
  have "List.map_filter (lb_tick L) (map encode ts) = map cli_view ts" if "set ts \<subseteq> set (w_ticks w)" for ts
    using that assms(4) by (induction ts) (simp_all add: map_filter_simps)
  then have got: "ticks_received L args i = map cli_view (w_ticks w)"
    using received_frames [OF assms(6-12), of L] assms(5) by simp
  have small: "cumulative k (w_ticks w) < 2 ^ 64" for k
    using inv unat_lt [of "tick_count k (em_prev (w_emitter w))"]
    by (auto simp: ticks_inv_def Let_def intro: order.strict_trans1)
  have len: "length (w_ticks w) < 2 ^ 64"
    using inv assms(2) by (simp add: ticks_inv_def Let_def)
  have created: "post_run L (cl_control c) (in_create i) = Inr run_id"
    by (rule post_run_cases [of "in_create i" L "cl_control c"]) (use assms(14) in simp_all)
  have few: "length (ticks_received L args i) < 2 ^ 64" using len by (simp add: got)
  have "ticks_in_place (w_ticks w)" using inv by (simp add: ticks_inv_def Let_def)
  from summary_of_ticks [OF this small assms(3) len, of c args run_id] obtain r
    where r: "run_summary_of c args run_id (fst (shown (map cli_view (w_ticks w)))) = Some r"
      "unat (rs_received r) = length (w_ticks w)"
      "\<forall>k. k \<noteq> Some RateLimited \<longrightarrow> unat (summary_counts r k) = cumulative k (w_ticks w)" by blast
  moreover have "\<forall>k. cumulative k (w_ticks w) \<le> unat (live_count k (sh_live (w_shared w)))"
    using ticks_never_exceed_counters [OF assms(1,2)] by blast
  ultimately show ?thesis
    using run_command_created(2,3) [OF assms(13) created few] assms(3,15) by (simp add: got)
qed

theorem cli_summary_is_the_relayed_ticks_witness:
  "\<exists>w t L r. worker_runs demo_config demo_all (world_init demo_config) = Some w \<and> w_ticks w = [t]
     \<and> lb_tick L ''{}'' = Some (cli_view t)
     \<and> ro_summary (run_command L demo_cli demo_args (demo_input False demo_chunks)) = Some r
     \<and> unat (rs_requests r) = cumulative None [t]"
proof -
  obtain w where w: "worker_runs demo_config demo_all (world_init demo_config) = Some w" "length (w_ticks w) = 1"
    by (rule demo_finished)
  then obtain t where t: "w_ticks w = [t]" by (auto simp: length_Suc_conv)
  define L where "L = demo_libs\<lparr>lb_tick := \<lambda>s. if s = ''{}'' then Some (cli_view t) else None\<rparr>"
  have few: "length demo_all < 2 ^ 63" by (simp add: demo_all_def demo_events_def demo_tick_def)
  have tick: "lb_tick L ''{}'' = Some (cli_view t)" by (simp add: L_def)
  have sent: "payloads demo_messages = map (\<lambda>t. ''{}'') (w_ticks w)" by (simp add: demo_payloads t)
  have quiet: "\<forall>r\<in>set [Sse_End]. no_chunk r" by simp
  have L: "lb_client_error L = None" "created_run L (in_create (demo_input False demo_chunks)) = Some ''r1''"
    by (simp_all add: L_def demo_libs_def demo_input_def created_run_def)
  have go: "\<not> in_ctrl_c (demo_input False demo_chunks)" by (simp add: demo_input_def)
  obtain r where "ro_summary (run_command L demo_cli demo_args (demo_input False demo_chunks)) = Some r"
    "unat (summary_counts r None) = cumulative None (w_ticks w)"
    using cli_summary_is_the_relayed_ticks [OF demo_reachable [OF w(1)] few _ _ sent demo_chunks_ok quiet demo_reads demo_subscribe L go,
        of demo_cli] tick t by auto
  with w(1) t tick show ?thesis by (auto simp: summary_counts_def)
qed

end
