(* ===== verification/Spec2Isabelle.thy ===== *)
theory Spec2Isabelle
  imports Fleet Admin Registration Fleet_Load Engine_Entry Start_Barrier Mock_Meter Unit_Tests Cli_Client
begin

text \<open>
  A verification library for correctness-bench, a load generator that measures latency without coordinated omission and
  scores the correctness of every response. The model covers the Rust engine (\<open>engine/src\<close>), from the schedule of one
  connection to a fleet of workers under a coordinator, the mock target (\<open>mock/src\<close>) it is validated against, and
  the command-line client (\<open>cli/src\<close>).

  \<^bold>\<open>The program.\<close> A worker (\<open>engine/src/worker.rs\<close>) runs one task per connection. A task asks its schedule
  (\<open>sched.rs\<close>) when to send, reads the response, classifies it against the inline assertions, records corrected and
  uncorrected latency (\<open>hist.rs\<close>) and updates shared atomic counters, from which an emitter task makes one tick per
  second. The worker is driven either by \<open>engine-worker\<close> (\<open>bin/worker.rs\<close>) or, in a fleet, by \<open>worker_node.rs\<close>, which
  registers with the coordinator, receives assignments and streams its ticks back as partials. The coordinator
  (\<open>coordinator/mod.rs\<close>) keeps the workers and the runs in flight, evicts silent workers and fans out aborts;
  \<open>coordinator/dispatch.rs\<close> assigns a run, aggregates the partials of each second and accounts for the workers;
  \<open>coordinator/admin.rs\<close> is its HTTP surface and sends the final body to the control plane. The client \<open>bench\<close>
  (\<open>cli/src/main.rs\<close>) creates a run at the control plane and follows its ticks as server-sent events.

  \<^bold>\<open>The theories\<close>, in the order of their dependencies:

  \<^item> \<open>Bench_Prelude\<close>: machine integers with their saturating and wrapping operations, strings as bytes, and the
    collections \<open>rust_int\<close>, \<open>schedule_simps\<close>, \<open>float_eval\<close> and \<open>wire_simps\<close>.
  \<^item> \<open>Float64\<close>: IEEE binary64 with round-to-nearest-even over rationals, casts, square root, floor; the locale
    \<open>rounding\<close> is what the proofs use of rounding.
  \<^item> \<open>Rounding\<close>: the error of a chain of roundings, and the root of a square.
  \<^item> \<open>Sched\<close> (\<open>sched.rs\<close>): constant and ramp schedules, catch-up after a late send, deferral after a backoff. The state
    record \<open>conn_sched\<close> has the fields of \<open>ConnSched\<close>.
  \<^item> \<open>Hist\<close> (\<open>hist.rs\<close>): the two histograms. The hdrhistogram crate is an argument; \<open>hdr_laws\<close> is what the code relies
    on, and \<open>exact_hdr\<close> satisfies it.
  \<^item> \<open>Verdicts\<close> (\<open>RunSpec\<close>, \<open>RlConfig\<close>, \<open>InlineAssert\<close>): the run specification and the tiers of a verdict.
  \<^item> \<open>Http_Reader\<close> (\<open>read_one_response\<close>, \<open>parse_retry_after_ms\<close>): the response reader over a socket that returns chunks.
  \<^item> \<open>Utf8\<close>: \<open>String::from_utf8_lossy\<close>, for sampled bodies and for the chunks of the event stream.
  \<^item> \<open>Conn_Task\<close> (\<open>connection_task\<close> and the set-up of a run): one turn of the loop of a connection, as the list of the
    atomic operations on the shared state it performs.
  \<^item> \<open>Worker_Run\<close> (\<open>run_with_ticks_cancel\<close>): the state machine of all connections, the emitter and cancellation; every
    atomic load, store and addition is one event, and \<open>reachable\<close> is closed under every interleaving.
  \<^item> \<open>Worker_Ticks\<close>: what the ticks say about the counters.
  \<^item> \<open>Worker_Progress\<close>: well-typed connections, progress of the loops, and the end of a run after an abort or the deadline,
    by a measure.
  \<^item> \<open>Start_Barrier\<close> (\<open>run_with_ticks_cancel\<close>, \<open>connection_task\<close>): the connect phase, the start barrier and the broadcast of the
    start time around that machine, with writes that block; no state of it is stuck.
  \<^item> \<open>Offered_Load\<close>: a run, at a constant rate or on a ramp, sends no more than its schedule has room for.
  \<^item> \<open>Engine_Entry\<close> (\<open>run\<close>, \<open>run_with_ticks\<close>, \<open>run_with_ticks_cancel\<close>): the entry points; no run is cut short.
  \<^item> \<open>Hash_Map\<close>: the contract \<open>registry\<close> of the maps keyed by worker or run, and \<open>tally\<close>, a loop that adds up counts;
    both are interpreted on the model's own maps and loops, so that order independence is proved once.
  \<^item> \<open>Proto\<close> (\<open>contracts/bench.proto\<close>): the messages.
  \<^item> \<open>Coordinator\<close> (\<open>coordinator/mod.rs\<close>): the registries; each critical section is one operation, time is an argument.
  \<^item> \<open>Worker_Node\<close> (\<open>worker_node.rs\<close>): decoding of assignments, the event stream, the cancellation tokens.
  \<^item> \<open>Abort_Path\<close>: the composition of the coordinator, the requests in flight, the workers and their engines, for aborts.
  \<^item> \<open>Dispatch\<close> (\<open>coordinator/dispatch.rs\<close>): encoding of assignments, the task of one worker, aggregation of a second,
    the aggregation loop, the final accounting. The iteration order of a hash map is an argument.
  \<^item> \<open>Fleet\<close>: the composition of engines, streams, aggregation and accounting.
  \<^item> \<open>Fleet_Load\<close>: the share of the rate of every worker and connection, and the load of the whole fleet.
  \<^item> \<open>Cliff\<close> (\<open>bin/worker.rs\<close>, \<open>admin.rs\<close>): the bucket accumulators and the two cliff detectors, over the locale
    \<open>cliff_detector\<close>.
  \<^item> \<open>Admin\<close> (\<open>coordinator/admin.rs\<close>): request defaults, handlers, finals and the finalize body.
  \<^item> \<open>Engine_Worker\<close> (\<open>bin/worker.rs\<close>): the specification built from the command line, the task that handles the ticks, the
    pushes, the printed report and \<open>main\<close>.
  \<^item> \<open>Registration\<close> (\<open>bin/worker_node.rs\<close>, \<open>bin/coordinator.rs\<close>): the bounded registration loop, the endless one, and the
    processes of a worker and of the coordinator.
  \<^item> \<open>Mock\<close> (\<open>mock/src/lib.rs\<close>): the rolling meter, the decision, the handler.
  \<^item> \<open>Mock_Meter\<close>: the atomic operations of concurrent calls of that meter.
  \<^item> \<open>Unit_Tests\<close>: the inline tests of \<open>sched.rs\<close> and \<open>mock/src/lib.rs\<close> and the property tests of the scheduler
    (\<open>tests/sched_proptest.rs\<close>), as predicates that the model satisfies.
  \<^item> \<open>Sse\<close> (\<open>stream_ticks\<close>, \<open>parse_sse\<close> of \<open>cli/src/main.rs\<close>): blocks, events and the read loop, over the locale
    \<open>incremental\<close>; the frames of the control plane.
  \<^item> \<open>Cli_Client\<close> (\<open>cli/src/main.rs\<close>): the create request, the accumulator, the commands with all they send, exit codes.
\<close>

text \<open>
  \<^bold>\<open>What the lemmas show.\<close> Scheduling: slots never go back, are exact to a microsecond for a
  constant rate, a scheduler that is behind lets requests go at twice the rate, a deferral moves every later slot alike. Reading: the outcome does not
  depend on how the stream is cut into chunks, the buffer is never exceeded, and a response is
  held whole unless its declared length wraps. One worker: at the end of every
  interleaving the report, the counters and the histograms agree and every response has exactly one verdict; ticks
  telescope; no state is stuck from the connect phase on, unless a peer does not take a request; after an abort a connection
  sends at most the request it was already waiting to send; after an abort or the deadline every connection ends within
  eleven steps, and before them none but lost ones; no run sends more than its schedule has room for, half as much on a ramp; the onset of rate limiting
  is stored once and reported. The ticks of \<open>engine-worker\<close>
  are handled once, in order and with one post at a time, though not always all before the cliff is computed. A fleet: the
  engine gets target, rate, sizes and assertions of a dispatch, but neither headers nor epoch; all engines together keep to the target rate, up to a request per connection and the roundings; an abort that is delivered stops exactly the slices of its run; the registry refines independent life
  cycles of its workers; for every interleaving the aggregated ticks come out in order, as many as the slowest worker
  has sent, each the sum of its second; merging histograms over the wire loses nothing; finished and lost workers add up
  and the totals are the sums of what the engines counted; a run is finalized as aborted exactly if an abort came before its
  token is read. A worker announces itself again within a period, or the time its longest attempt takes, and each attempt
  that reaches the coordinator makes it known there. Mock: the retry loop of the meter ends, and concurrent calls are lost only when they open a slot. Cliff and
  finals: the threshold of 95 percent is decided exactly in spite of rounding, rate limiting is never a cliff for
  \<open>engine-worker\<close>, and both detectors agree without rate limiting. Client: every tick that can be decoded
  is received once and in order if the stream is cut between characters and arrives in time, the summary shows the sums of
  the relayed ticks, and the exit code is determined on every path.

  \<^bold>\<open>Conventions.\<close> Every \<open>u64\<close>, \<open>i64\<close>, \<open>u32\<close>, \<open>i32\<close> and \<open>u16\<close> is a word of its width; \<open>+\<close> wraps, as in the release
  builds that are shipped. A \<open>usize\<close> that only counts list elements is a natural number. An \<open>i64\<close> is a word read with
  \<open>sint\<close>. Errors are values of a sum or option type. There is no fuel: loops are structural, except the registration
  loop, which has a termination proof, and the tasks of a run, which are an inductive step relation with a measure; the
  endless re-registration loop is given the attempts it makes. Of \<open>tokio\<close> the model uses the documented behaviour of barriers,
  watch and mpsc channels, cancellation tokens and intervals (an overdue tick comes at once), of \<open>reqwest\<close> that of the total
  timeout.

  \<^bold>\<open>Bounds.\<close> Theorems on counters are about fewer than \<open>2 ^ 63\<close> events, theorems on rates about whole numbers up to
  \<open>2 ^ 53\<close> (buckets up to \<open>2 ^ 49\<close>, cliff samples up to \<open>2 ^ 46\<close>), theorems on loads about rates of a connection between
  \<open>1 / 2 ^ 52\<close> and 1 per microsecond, \<open>2 ^ 52\<close> microseconds of run and \<open>2 ^ 42\<close> milliseconds of backoff: no run comes near.

  \<^bold>\<open>Not modelled.\<close> The httparse, hdrhistogram, http, prost and tonic crates, except as arguments with their laws; sockets,
  timers and HTTP or JSON encoding; logging, argument parsing and the rounding of printed numbers; the single
  loads of one read of the mock's meter, which is one step; which branch of the client's \<open>select!\<close> wins, which is an input; how
  long connects, writes and reads take, which the events of a run leave open; \<open>mock/src/main.rs\<close>, \<open>lib.rs\<close> and \<open>proto.rs\<close> (start-up and
  re-exports); and the control plane (Go) and the front ends (TypeScript), which are not part of the engine.
\<close>

end
